(* ===== verification/Kes_Log.thy ===== *)
theory Kes_Log
  imports Kes_Prelude
begin

text \<open>
  Logging: the levels and the interface \<^verbatim>\<open>Kes::Log::ILog\<close> (\<^verbatim>\<open>include/kesrv/log.hxx\<close>) and the
  server's file logger (\<^verbatim>\<open>src/kexplorer-server/logger.cxx\<close>). The components write to an
  \<open>ilog\<close>, the sequence of the calls of \<^verbatim>\<open>ILog::write\<close> with their formatted texts; the logger turns
  such a sequence into the lines of its file.
\<close>

section \<open>The interface\<close>

datatype Level = Debug | Info | Warning | Error | Fatal | Off

primrec level_code :: "Level \<Rightarrow> nat" where
  "level_code Debug = 0"
| "level_code Info = 1"
| "level_code Warning = 2"
| "level_code Error = 3"
| "level_code Fatal = 4"
| "level_code Off = 5"

lemma level_code_inj: "level_code a = level_code b \<longleftrightarrow> a = b"
  by (cases a; cases b) simp_all

instantiation Level :: linorder
begin

definition less_eq_Level :: "Level \<Rightarrow> Level \<Rightarrow> bool" where
  "less_eq_Level a b \<longleftrightarrow> level_code a \<le> level_code b"

definition less_Level :: "Level \<Rightarrow> Level \<Rightarrow> bool" where
  "less_Level a b \<longleftrightarrow> level_code a < level_code b"

instance
  by standard (auto simp: less_eq_Level_def less_Level_def level_code_inj)

end

type_synonym ilog = "(Level \<times> string) list"

definition log_write :: "Level \<Rightarrow> string \<Rightarrow> ilog \<Rightarrow> ilog" where
  "log_write lvl message l = l @ [(lvl, message)]"

section \<open>The file logger\<close>

record timespec =
  tv_sec :: int
  tv_nsec :: int

text \<open>\<^verbatim>\<open>localtime_r\<close> is a parameter: hours, minutes and seconds of a time.\<close>

type_synonym localtime = "int \<Rightarrow> nat \<times> nat \<times> nat"

record logger =
  lg_level :: Level
  lg_file :: string

definition round_msec :: "timespec \<Rightarrow> int \<times> int" where
  "round_msec now =
     (if tv_nsec now \<ge> 999500000 then (tv_sec now + 1, 0)
      else (tv_sec now, (tv_nsec now + 500000) div 1000000))"

text \<open>\<^verbatim>\<open>%0<w>d\<close> of a number that is not negative.\<close>

definition pad_nat :: "nat \<Rightarrow> nat \<Rightarrow> string" where
  "pad_nat w n = (let s = show_nat n in replicate (w - length s) CHR ''0'' @ s)"

definition strLevel :: "Level \<Rightarrow> string" where
  "strLevel lvl =
     (case lvl of Debug \<Rightarrow> ''D'' | Info \<Rightarrow> ''I'' | Warning \<Rightarrow> ''W'' | Error \<Rightarrow> ''E'' | Fatal \<Rightarrow> ''!''
      | Off \<Rightarrow> ''?'')"

definition log_prefix :: "localtime \<Rightarrow> timespec \<Rightarrow> Level \<Rightarrow> string" where
  "log_prefix lt now lvl =
     (let (sec, msec) = round_msec now; (h, m, s) = lt sec in
      ''['' @ pad_nat 2 h @ '':'' @ pad_nat 2 m @ '':'' @ pad_nat 2 s @ ''.'' @ pad_nat 3 (nat msec) @
      '' '' @ strLevel lvl @ ''] '')"

text \<open>
  \<^verbatim>\<open>Logger::writev\<close> with the formatted text: a C string, so its bytes end at the first NUL.
\<close>

definition logger_writev :: "localtime \<Rightarrow> timespec \<Rightarrow> Level \<Rightarrow> string \<Rightarrow> logger \<Rightarrow> logger" where
  "logger_writev lt now lvl formatted L =
     (if lvl < lg_level L then L
      else L\<lparr>lg_file := lg_file L @ log_prefix lt now lvl @ formatted @ [CHR 0x0A]\<rparr>)"

definition logger_write :: "localtime \<Rightarrow> timespec \<Rightarrow> Level \<Rightarrow> string \<Rightarrow> logger \<Rightarrow> logger" where
  "logger_write lt now lvl formatted L =
     (if lvl < lg_level L then L else logger_writev lt now lvl formatted L)"

fun logger_run :: "localtime \<Rightarrow> (timespec \<times> Level \<times> string) list \<Rightarrow> logger \<Rightarrow> logger" where
  "logger_run lt [] L = L"
| "logger_run lt ((now, lvl, s) # es) L = logger_run lt es (logger_write lt now lvl s L)"

lemma logger_level [simp]: "lg_level (logger_write lt now lvl s L) = lg_level L"
  by (simp add: logger_write_def logger_writev_def)

lemma logger_run_file:
  "lg_file (logger_run lt es L) =
     lg_file L @ concat (map (\<lambda>(now, lvl, s). log_prefix lt now lvl @ s @ [CHR 0x0A])
       (filter (\<lambda>(now, lvl, s). lg_level L \<le> lvl) es))"
  by (induction lt es L rule: logger_run.induct)
    (auto simp: logger_write_def logger_writev_def not_le)

text \<open>
  The log file is the sequence of the messages at or above the level of the logger, one line each
  in the order of the calls, and the time stamp of a line is the clock's time rounded to the nearest
  millisecond (half up), with the carry into the seconds, so the milliseconds stay below 1000.
\<close>

lemma logger_file:
  "lg_file (logger_run lt es \<lparr>lg_level = m, lg_file = f\<rparr>) =
     f @ concat (map (\<lambda>(now, lvl, s). log_prefix lt now lvl @ s @ [CHR 0x0A])
       (filter (\<lambda>(now, lvl, s). m \<le> lvl) es)) \<and>
   (\<forall>now. 0 \<le> tv_nsec now \<longrightarrow> tv_nsec now < 1000000000 \<longrightarrow>
     (case round_msec now of (sec, msec) \<Rightarrow> 0 \<le> msec \<and> msec < 1000 \<and>
        (let e = 1000000 * (1000 * sec + msec) - (1000000000 * tv_sec now + tv_nsec now) in
         - 500000 < e \<and> e \<le> 500000)))"
proof (intro conjI allI impI)
  fix now :: timespec
  assume n: "0 \<le> tv_nsec now" "tv_nsec now < 1000000000"
  show "case round_msec now of (sec, msec) \<Rightarrow> 0 \<le> msec \<and> msec < 1000 \<and>
        (let e = 1000000 * (1000 * sec + msec) - (1000000000 * tv_sec now + tv_nsec now) in
         - 500000 < e \<and> e \<le> 500000)"
    using n by (auto simp: round_msec_def Let_def)
qed (simp add: logger_run_file)

lemma logger_file_witness:
  "case round_msec \<lparr>tv_sec = 7, tv_nsec = 999700000\<rparr> of (sec, msec) \<Rightarrow> 0 \<le> msec \<and> msec < 1000 \<and>
        (let e = 1000000 * (1000 * sec + msec) - (1000000000 * tv_sec \<lparr>tv_sec = 7, tv_nsec = 999700000\<rparr> +
           tv_nsec \<lparr>tv_sec = 7, tv_nsec = 999700000\<rparr>) in
         - 500000 < e \<and> e \<le> 500000)"
  using conjunct2 [OF logger_file, rule_format, of "\<lparr>tv_sec = 7, tv_nsec = 999700000\<rparr>"] by simp

end
