(* ===== verification/Kes_Crc32.thy ===== *)
theory Kes_Crc32
  imports Kes_Prelude
begin

unbundle bit_operations_syntax

text \<open>
  \<^verbatim>\<open>Kes::Util::crc32\<close> (\<^verbatim>\<open>include/kesrv/util/crc32.hxx\<close>): the table-driven checksum that turns a
  property name into its \<^verbatim>\<open>PropId\<close>. The table is copied from the source in two halves; the
  checksum is proved equal to the bit-at-a-time reference for the reflected polynomial
  \<open>0xEDB88320\<close>.
\<close>

section \<open>The table-driven routine\<close>

definition g_Crc32Table_lo :: "u32 list" where
  "g_Crc32Table_lo =
    [0x00000000, 0x77073096, 0xee0e612c, 0x990951ba, 0x076dc419, 0x706af48f,
     0xe963a535, 0x9e6495a3, 0x0edb8832, 0x79dcb8a4, 0xe0d5e91e, 0x97d2d988,
     0x09b64c2b, 0x7eb17cbd, 0xe7b82d07, 0x90bf1d91, 0x1db71064, 0x6ab020f2,
     0xf3b97148, 0x84be41de, 0x1adad47d, 0x6ddde4eb, 0xf4d4b551, 0x83d385c7,
     0x136c9856, 0x646ba8c0, 0xfd62f97a, 0x8a65c9ec, 0x14015c4f, 0x63066cd9,
     0xfa0f3d63, 0x8d080df5, 0x3b6e20c8, 0x4c69105e, 0xd56041e4, 0xa2677172,
     0x3c03e4d1, 0x4b04d447, 0xd20d85fd, 0xa50ab56b, 0x35b5a8fa, 0x42b2986c,
     0xdbbbc9d6, 0xacbcf940, 0x32d86ce3, 0x45df5c75, 0xdcd60dcf, 0xabd13d59,
     0x26d930ac, 0x51de003a, 0xc8d75180, 0xbfd06116, 0x21b4f4b5, 0x56b3c423,
     0xcfba9599, 0xb8bda50f, 0x2802b89e, 0x5f058808, 0xc60cd9b2, 0xb10be924,
     0x2f6f7c87, 0x58684c11, 0xc1611dab, 0xb6662d3d, 0x76dc4190, 0x01db7106,
     0x98d220bc, 0xefd5102a, 0x71b18589, 0x06b6b51f, 0x9fbfe4a5, 0xe8b8d433,
     0x7807c9a2, 0x0f00f934, 0x9609a88e, 0xe10e9818, 0x7f6a0dbb, 0x086d3d2d,
     0x91646c97, 0xe6635c01, 0x6b6b51f4, 0x1c6c6162, 0x856530d8, 0xf262004e,
     0x6c0695ed, 0x1b01a57b, 0x8208f4c1, 0xf50fc457, 0x65b0d9c6, 0x12b7e950,
     0x8bbeb8ea, 0xfcb9887c, 0x62dd1ddf, 0x15da2d49, 0x8cd37cf3, 0xfbd44c65,
     0x4db26158, 0x3ab551ce, 0xa3bc0074, 0xd4bb30e2, 0x4adfa541, 0x3dd895d7,
     0xa4d1c46d, 0xd3d6f4fb, 0x4369e96a, 0x346ed9fc, 0xad678846, 0xda60b8d0,
     0x44042d73, 0x33031de5, 0xaa0a4c5f, 0xdd0d7cc9, 0x5005713c, 0x270241aa,
     0xbe0b1010, 0xc90c2086, 0x5768b525, 0x206f85b3, 0xb966d409, 0xce61e49f,
     0x5edef90e, 0x29d9c998, 0xb0d09822, 0xc7d7a8b4, 0x59b33d17, 0x2eb40d81,
     0xb7bd5c3b, 0xc0ba6cad]"

definition g_Crc32Table_hi :: "u32 list" where
  "g_Crc32Table_hi =
    [0xedb88320, 0x9abfb3b6, 0x03b6e20c, 0x74b1d29a, 0xead54739, 0x9dd277af,
     0x04db2615, 0x73dc1683, 0xe3630b12, 0x94643b84, 0x0d6d6a3e, 0x7a6a5aa8,
     0xe40ecf0b, 0x9309ff9d, 0x0a00ae27, 0x7d079eb1, 0xf00f9344, 0x8708a3d2,
     0x1e01f268, 0x6906c2fe, 0xf762575d, 0x806567cb, 0x196c3671, 0x6e6b06e7,
     0xfed41b76, 0x89d32be0, 0x10da7a5a, 0x67dd4acc, 0xf9b9df6f, 0x8ebeeff9,
     0x17b7be43, 0x60b08ed5, 0xd6d6a3e8, 0xa1d1937e, 0x38d8c2c4, 0x4fdff252,
     0xd1bb67f1, 0xa6bc5767, 0x3fb506dd, 0x48b2364b, 0xd80d2bda, 0xaf0a1b4c,
     0x36034af6, 0x41047a60, 0xdf60efc3, 0xa867df55, 0x316e8eef, 0x4669be79,
     0xcb61b38c, 0xbc66831a, 0x256fd2a0, 0x5268e236, 0xcc0c7795, 0xbb0b4703,
     0x220216b9, 0x5505262f, 0xc5ba3bbe, 0xb2bd0b28, 0x2bb45a92, 0x5cb36a04,
     0xc2d7ffa7, 0xb5d0cf31, 0x2cd99e8b, 0x5bdeae1d, 0x9b64c2b0, 0xec63f226,
     0x756aa39c, 0x026d930a, 0x9c0906a9, 0xeb0e363f, 0x72076785, 0x05005713,
     0x95bf4a82, 0xe2b87a14, 0x7bb12bae, 0x0cb61b38, 0x92d28e9b, 0xe5d5be0d,
     0x7cdcefb7, 0x0bdbdf21, 0x86d3d2d4, 0xf1d4e242, 0x68ddb3f8, 0x1fda836e,
     0x81be16cd, 0xf6b9265b, 0x6fb077e1, 0x18b74777, 0x88085ae6, 0xff0f6a70,
     0x66063bca, 0x11010b5c, 0x8f659eff, 0xf862ae69, 0x616bffd3, 0x166ccf45,
     0xa00ae278, 0xd70dd2ee, 0x4e048354, 0x3903b3c2, 0xa7672661, 0xd06016f7,
     0x4969474d, 0x3e6e77db, 0xaed16a4a, 0xd9d65adc, 0x40df0b66, 0x37d83bf0,
     0xa9bcae53, 0xdebb9ec5, 0x47b2cf7f, 0x30b5ffe9, 0xbdbdf21c, 0xcabac28a,
     0x53b39330, 0x24b4a3a6, 0xbad03605, 0xcdd70693, 0x54de5729, 0x23d967bf,
     0xb3667a2e, 0xc4614ab8, 0x5d681b02, 0x2a6f2b94, 0xb40bbe37, 0xc30c8ea1,
     0x5a05df1b, 0x2d02ef8d]"

definition g_Crc32Table :: "u32 list" where
  "g_Crc32Table = g_Crc32Table_lo @ g_Crc32Table_hi"

text \<open>
  \<^verbatim>\<open>*str\<close> is a plain \<^verbatim>\<open>char\<close>, signed on the supported targets: it is sign-extended to
  \<^verbatim>\<open>int\<close> and converted to \<^verbatim>\<open>uint32_t\<close> by the exclusive or.
\<close>

definition char_arg :: "char \<Rightarrow> u32" where
  "char_arg ch = signed_take_bit 7 (of_char ch)"

definition crc32_step :: "u32 \<Rightarrow> char \<Rightarrow> u32" where
  "crc32_step c ch = (g_Crc32Table ! unat ((c XOR char_arg ch) AND 0xFF)) XOR drop_bit 8 c"

definition crc32 :: "string \<Rightarrow> u32" where
  "crc32 s = foldl crc32_step 0xFFFFFFFF (cstr s) XOR 0xFFFFFFFF"


section \<open>The bit-at-a-time reference\<close>

text \<open>
  The checksum without a table: every byte is added to the low end of the register, which is then
  shifted right eight times, with the reflected polynomial added whenever a one falls out.
\<close>

definition crc_bit :: "u32 \<Rightarrow> u32" where
  "crc_bit r = (if bit r 0 then 0xEDB88320 XOR drop_bit 1 r else drop_bit 1 r)"

definition crc_byte :: "u32 \<Rightarrow> u32" where
  "crc_byte r = (crc_bit ^^ 8) r"

definition crc32_ref :: "string \<Rightarrow> u32" where
  "crc32_ref s = foldl (\<lambda>c ch. crc_byte (c XOR of_char ch)) 0xFFFFFFFF (cstr s) XOR 0xFFFFFFFF"

section \<open>The table and the step\<close>

text \<open>
  Eight shifts are linear for exclusive or, so the 256 entries are spanned by the images of the
  eight powers of two; \<open>xor_span\<close> doubles a prefix of the table eight times.
\<close>

fun xor_span :: "u32 list \<Rightarrow> u32 list \<Rightarrow> u32 list" where
  "xor_span [] acc = acc"
| "xor_span (b # bs) acc = xor_span bs (acc @ map (\<lambda>x. x XOR b) acc)"

lemma crc_bit_xor: "crc_bit (a XOR b) = crc_bit a XOR crc_bit b"
  by (auto simp: crc_bit_def bit_xor_iff xor.assoc xor.left_commute xor.commute)

lemma crc_byte_xor: "crc_byte (a XOR b) = crc_byte a XOR crc_byte b"
proof -
  have "(crc_bit ^^ n) (a XOR b) = (crc_bit ^^ n) a XOR (crc_bit ^^ n) b" for n
    by (induction n) (simp_all add: crc_bit_xor)
  then show ?thesis by (simp add: crc_byte_def)
qed

lemma crc_bits_shift:
  "take_bit n r = 0 \<Longrightarrow> (crc_bit ^^ n) r = drop_bit n r"
proof (induction n arbitrary: r)
  case 0
  then show ?case by simp
next
  case (Suc n)
  have low: "\<not> bit r k" if "k < Suc n" for k
    using Suc.prems that by (metis bit_0_eq bit_take_bit_iff bot_apply bot_bool_def)
  have t: "take_bit n (drop_bit 1 r) = 0"
    by (rule bit_eqI) (simp add: bit_take_bit_iff bit_drop_bit_eq low)
  have b: "\<not> bit r 0" by (rule low) simp
  have "(crc_bit ^^ Suc n) r = (crc_bit ^^ n) (crc_bit r)"
    by (simp add: funpow_swap1)
  also have "crc_bit r = drop_bit 1 r"
    using b by (simp add: crc_bit_def)
  also have "(crc_bit ^^ n) (drop_bit 1 r) = drop_bit n (drop_bit 1 r)"
    by (rule Suc.IH [OF t])
  finally show ?case by simp
qed

lemma length_xor_span: "length (xor_span bs acc) = 2 ^ length bs * length acc"
  by (induction bs arbitrary: acc) simp_all

lemma xor_span_correct:
  fixes f :: "u32 \<Rightarrow> u32"
  assumes "\<And>k. k < length bs \<Longrightarrow> bs ! k = f (2 ^ (n + k))"
    and "acc = map (\<lambda>i. f (of_nat i)) [0..<2 ^ n]"
    and lin: "\<And>a b. f (a XOR b) = f a XOR f b" and "n + length bs \<le> 32"
  shows "xor_span bs acc = map (\<lambda>i. f (of_nat i)) [0..<2 ^ (n + length bs)]"
  using assms(1,2,4)
proof (induction bs arbitrary: acc n)
  case Nil
  then show ?case by simp
next
  case (Cons b bs)
  have b: "b = f (2 ^ n)" using Cons.prems(1) [of 0] by simp
  have split: "(of_nat (i + 2 ^ n) :: u32) = of_nat i XOR 2 ^ n" if "i < 2 ^ n" for i :: nat
  proof -
    have "\<not> bit i n" using that by (simp add: bit_iff_odd)
    moreover have "bit i n" if "bit (of_nat i :: u32) n"
      using that by transfer (simp add: bit_take_bit_iff bit_of_nat_iff_bit)
    ultimately have "(of_nat i :: u32) AND 2 ^ n = 0"
      by (auto intro!: bit_eqI simp: bit_and_iff bit_exp_iff)
    then show ?thesis by (simp add: disjunctive_add_eq_xor)
  qed
  have "map (\<lambda>x. x XOR b) acc = map (\<lambda>i. f (of_nat (i + 2 ^ n))) [0..<2 ^ n]"
    using Cons.prems(2) by (simp add: b split lin del: of_nat_add)
  moreover have "[0..<2 ^ Suc n] = [0..<2 ^ n] @ map (\<lambda>i. i + 2 ^ n) [0..<2 ^ n]"
    using upt_add_eq_append [of 0 "2 ^ n" "2 ^ n"] by (simp add: map_add_upt mult_2 add.commute)
  ultimately have acc: "acc @ map (\<lambda>x. x XOR b) acc = map (\<lambda>i. f (of_nat i)) [0..<2 ^ Suc n]"
    using Cons.prems(2) by (simp del: of_nat_add)
  have bs: "bs ! k = f (2 ^ (Suc n + k))" if "k < length bs" for k
    using Cons.prems(1) [of "Suc k"] that by simp
  show ?case
    using Cons.IH [OF bs acc] Cons.prems(3) by simp
qed

lemma unit_bits:
  "map (\<lambda>k. crc_byte (2 ^ k)) [0, 1, 2, 3, 4, 5, 6, 7] =
    [0x77073096, 0xee0e612c, 0x076dc419, 0x0edb8832, 0x1db71064, 0x3b6e20c8, 0x76dc4190, 0xedb88320]"
  by code_simp

lemma table_xor_span:
  "g_Crc32Table = xor_span [0x77073096, 0xee0e612c, 0x076dc419, 0x0edb8832, 0x1db71064, 0x3b6e20c8,
     0x76dc4190, 0xedb88320] [0]"
  by code_simp

lemma table_correct: "g_Crc32Table = map (\<lambda>i. crc_byte (of_nat i)) [0..<256]"
proof -
  let ?bs = "map (\<lambda>k. crc_byte (2 ^ k)) [0, 1, 2, 3, 4, 5, 6, 7]"
  have z: "crc_byte 0 = 0" by code_simp
  have "xor_span ?bs [0] = map (\<lambda>i. crc_byte (of_nat i)) [0..<2 ^ (0 + length ?bs)]"
  proof (rule xor_span_correct)
    show "?bs ! k = crc_byte (2 ^ (0 + k))" if "k < length ?bs" for k
    proof -
      have "?bs = map (\<lambda>k. crc_byte (2 ^ k)) [0..<8]" by (simp add: upt_rec)
      then show ?thesis using that by (simp del: upt_Suc)
    qed
  qed (simp_all add: z crc_byte_xor)
  then show ?thesis unfolding table_xor_span unit_bits by (simp del: upt_Suc)
qed

lemma table_nth: "i < 256 \<Longrightarrow> g_Crc32Table ! i = crc_byte (of_nat i)"
  by (simp add: table_correct)

lemma unat_low_byte: "unat (w AND 0xFF :: u32) < 256"
proof -
  have "w AND 0xFF = take_bit 8 w"
    by (simp add: take_bit_eq_mask mask_eq_exp_minus_1)
  then show ?thesis
    using take_bit_nat_less_exp [of 8 "unat w"] by (simp add: unsigned_take_bit_eq)
qed

lemma crc32_step_bitwise: "crc32_step c ch = crc_byte (c XOR (char_arg ch AND 0xFF))"
proof -
  let ?y = "c XOR (char_arg ch AND 0xFF)"
  have m: "(0xFF :: u32) = mask 8" by (simp add: mask_eq_exp_minus_1)
  have low: "?y AND 0xFF = (c XOR char_arg ch) AND 0xFF" and hi: "drop_bit 8 ?y = drop_bit 8 c"
    by (rule bit_eqI, auto simp: m bit_simps)+
  have "?y = (?y AND 0xFF) XOR push_bit 8 (drop_bit 8 ?y)"
    by (rule bit_eqI) (auto simp: m bit_simps)
  then have "crc_byte ?y = crc_byte (?y AND 0xFF) XOR crc_byte (push_bit 8 (drop_bit 8 ?y))"
    by (metis crc_byte_xor)
  moreover have "crc_byte (push_bit 8 (drop_bit 8 ?y)) = drop_bit 8 ?y"
  proof -
    have "drop_bit 8 (push_bit 8 (drop_bit 8 ?y)) = drop_bit 8 ?y"
      by (rule bit_eqI) (auto simp: bit_simps dest: bit_imp_le_length)
    moreover have "take_bit 8 (push_bit 8 (drop_bit 8 ?y)) = 0"
      by (rule bit_eqI) (simp add: bit_simps)
    ultimately show ?thesis unfolding crc_byte_def by (simp only: crc_bits_shift)
  qed
  moreover have "unat (?y AND 0xFF) < 256"
    by (rule unat_low_byte)
  then have "g_Crc32Table ! unat (?y AND 0xFF) = crc_byte (?y AND 0xFF)"
    by (simp add: table_nth)
  ultimately show ?thesis by (simp add: crc32_step_def low hi)
qed

text \<open>
  The same step through two 16-entry tables: the equation with which closed checksums are
  evaluated (\<open>simp add: crc32_eval\<close>).
\<close>

definition nib_lo :: "u32 list" where
  "nib_lo = [0x00000000, 0x77073096, 0xee0e612c, 0x990951ba, 0x076dc419, 0x706af48f, 0xe963a535,
    0x9e6495a3, 0x0edb8832, 0x79dcb8a4, 0xe0d5e91e, 0x97d2d988, 0x09b64c2b, 0x7eb17cbd, 0xe7b82d07,
    0x90bf1d91]"

definition nib_hi :: "u32 list" where
  "nib_hi = [0x00000000, 0x1db71064, 0x3b6e20c8, 0x26d930ac, 0x76dc4190, 0x6b6b51f4, 0x4db26158,
    0x5005713c, 0xedb88320, 0xf00f9344, 0xd6d6a3e8, 0xcb61b38c, 0x9b64c2b0, 0x86d3d2d4, 0xa00ae278,
    0xbdbdf21c]"

lemma nib_lo_eq: "nib_lo = take 16 g_Crc32Table"
  by code_simp

lemma nib_hi_eq: "nib_hi = map (\<lambda>i. g_Crc32Table ! (16 * i)) [0, 1, 2, 3, 4, 5, 6, 7, 8, 9, 10, 11, 12, 13, 14, 15]"
  by code_simp

lemma nibble_bound: "unat (w AND 0xF :: u32) < 16"
proof -
  have "w AND 0xF = take_bit 4 w"
    by (simp add: take_bit_eq_mask mask_eq_exp_minus_1)
  then show ?thesis
    using take_bit_nat_less_exp [of 4 "unat w"] by (simp add: unsigned_take_bit_eq)
qed

lemma nib_lo_nth: "nib_lo ! unat (w AND 0xF) = crc_byte (w AND 0xF)"
  using nibble_bound [of w] by (simp add: nib_lo_eq table_nth)

lemma nib_hi_nth: "nib_hi ! unat (w AND 0xF) = crc_byte (push_bit 4 (w AND 0xF))"
proof -
  have e: "[0, 1, 2, 3, 4, 5, 6, 7, 8, 9, 10, 11, 12, 13, 14, 15] = [0..<16::nat]"
    by (simp add: upt_rec)
  have "nib_hi ! k = crc_byte (of_nat (16 * k))" if "k < 16" for k
    using that unfolding nib_hi_eq e
    by (subst nth_map) (simp_all add: table_nth del: upt_rec_numeral upt_Suc)
  then show ?thesis
    using nibble_bound [of w] by (simp add: push_bit_eq_mult mult.commute)
qed

lemma crc32_step_code:
  "crc32_step c ch =
     (let x = c XOR char_arg ch
      in nib_lo ! unat (x AND 0xF) XOR nib_hi ! unat (drop_bit 4 x AND 0xF) XOR drop_bit 8 c)"
proof -
  let ?x = "c XOR char_arg ch"
  have m: "(0xFF :: u32) = mask 8" "(0xF :: u32) = mask 4" by (simp_all add: mask_eq_exp_minus_1)
  have "?x AND 0xFF = (?x AND 0xF) XOR push_bit 4 (drop_bit 4 ?x AND 0xF)"
    by (rule bit_eqI) (auto simp: m bit_simps)
  then have "crc_byte (?x AND 0xFF) = nib_lo ! unat (?x AND 0xF) XOR nib_hi ! unat (drop_bit 4 ?x AND 0xF)"
    by (simp only: crc_byte_xor nib_lo_nth nib_hi_nth)
  moreover have "g_Crc32Table ! unat (?x AND 0xFF) = crc_byte (?x AND 0xFF)"
    by (simp add: table_nth unat_low_byte)
  ultimately show ?thesis
    by (simp only: crc32_step_def Let_def xor.assoc)
qed

lemmas crc32_eval = crc32_def cstr_def crc32_step_code nib_lo_def nib_hi_def char_arg_def Let_def

lemma char_arg_low: "char_arg ch AND 0xFF = (of_char ch :: u32)"
proof -
  have "take_bit 8 (of_char ch :: nat) = of_char ch"
    by (simp add: take_bit_eq_mod)
  then have small: "take_bit 8 (of_char ch :: u32) = of_char ch"
    by (metis of_nat_of_char take_bit_of_nat)
  have m: "(0xFF :: u32) = mask 8" by (simp add: mask_eq_exp_minus_1)
  have "char_arg ch AND 0xFF = take_bit 8 (of_char ch :: u32)"
  proof (rule bit_eqI)
    show "bit (char_arg ch AND 0xFF) n = bit (take_bit 8 (of_char ch :: u32)) n" for n
      by (cases "n = 7") (auto simp: m char_arg_def bit_simps min_def)
  qed
  then show ?thesis by (simp only: small)
qed

text \<open>
  C23. The table-driven checksum of the source is the bit-at-a-time CRC-32 of the reflected
  polynomial \<open>0xEDB88320\<close> over the unsigned bytes of the string: the 256 table entries are the
  right ones, and the sign extension of a plain \<open>char\<close> never shows in the result.
\<close>

theorem crc32_is_bitwise: "crc32 s = crc32_ref s"
proof -
  have "crc32_step = (\<lambda>c ch. crc_byte (c XOR of_char ch))"
    by (simp add: fun_eq_iff crc32_step_bitwise char_arg_low)
  then show ?thesis by (simp add: crc32_def crc32_ref_def)
qed

end
