(* ===== verification/Kes_Property.thy ===== *)
theory Kes_Property
  imports Kes_Crc32
begin

text \<open>
  Properties (\<^verbatim>\<open>include/kesrv/property.hxx\<close>), exceptions
  (\<^verbatim>\<open>include/kesrv/exception.hxx\<close>) and the outcome of running a piece of C++: a value, an
  exception in flight, a call of \<^verbatim>\<open>std::terminate\<close> (an exception leaving a
  \<^verbatim>\<open>noexcept\<close> function), or undefined behaviour.
\<close>

section \<open>Values and property descriptions\<close>

text \<open>
  \<open>ctype\<close> are the \<^verbatim>\<open>std::type_info\<close> values the code compares; \<open>TProcess\<close> is the description
  class \<^verbatim>\<open>ProcessProps::Process\<close> itself, which \<^verbatim>\<open>ProcessList\<close> names as its base type.
\<close>

datatype ctype =
  TVoid | TBool | TInt | TInt64 | TUInt | TUInt64 | TDouble | TString | TArray | TTable | TCStr | TProcess

text \<open>\<^verbatim>\<open>std::any\<close>; a \<^verbatim>\<open>double\<close> is kept as its bit pattern, a \<^verbatim>\<open>const char*\<close> as the text it points to.\<close>

datatype any_val =
    AEmpty
  | ABool bool
  | AInt i32
  | AInt64 i64
  | AUInt u32
  | AUInt64 u64
  | ADouble u64
  | AString string
  | ACStr string

fun any_type :: "any_val \<Rightarrow> ctype" where
  "any_type AEmpty = TVoid"
| "any_type (ABool b) = TBool"
| "any_type (AInt i) = TInt"
| "any_type (AInt64 i) = TInt64"
| "any_type (AUInt i) = TUInt"
| "any_type (AUInt64 i) = TUInt64"
| "any_type (ADouble d) = TDouble"
| "any_type (AString s) = TString"
| "any_type (ACStr s) = TCStr"

definition has_value :: "any_val \<Rightarrow> bool" where
  "has_value a \<longleftrightarrow> a \<noteq> AEmpty"

lemma has_value_type: "has_value a \<longleftrightarrow> any_type a \<noteq> TVoid"
  by (cases a) (simp_all add: has_value_def)

datatype formatter = NullFormatter | BoolFormatter | IntegralFormatter ctype | StringFormatter

record pinfo =
  pi_type :: ctype
  pi_base :: ctype
  pi_id :: u32
  pi_idstr :: string
  pi_name :: string
  pi_format :: formatter

text \<open>
  \<^verbatim>\<open>PropertyInfo<ValueT, KES_PROPID(s), PrName, FormatterT, BaseT>\<close>: \<^verbatim>\<open>KES_PROPID\<close> makes the
  numeric id the checksum of the name.
\<close>

definition property_info :: "ctype \<Rightarrow> string \<Rightarrow> string \<Rightarrow> formatter \<Rightarrow> ctype \<Rightarrow> pinfo" where
  "property_info ty s name fmt base =
     \<lparr>pi_type = ty, pi_base = base, pi_id = crc32 s, pi_idstr = s, pi_name = name, pi_format = fmt\<rparr>"

lemma property_info_sel [simp]:
  "pi_type (property_info ty s name fmt base) = ty"
  "pi_base (property_info ty s name fmt base) = base"
  "pi_id (property_info ty s name fmt base) = crc32 s"
  "pi_idstr (property_info ty s name fmt base) = s"
  "pi_name (property_info ty s name fmt base) = name"
  "pi_format (property_info ty s name fmt base) = fmt"
  by (simp_all add: property_info_def)

definition InvalidPropId :: u32 where
  "InvalidPropId = -1"

record property =
  p_id :: u32
  p_value :: any_val
  p_info :: "pinfo option"

definition default_property :: property where
  "default_property = \<lparr>p_id = InvalidPropId, p_value = AEmpty, p_info = None\<rparr>"

section \<open>Exceptions\<close>

text \<open>
  The message and the properties sit in a \<open>Context\<close>; a default-constructed exception has none.
  The variadic constructor delegates to itself with the tail of the argument list and appends the
  head afterwards, so the properties are stored last argument first.
\<close>

record exn_context =
  ec_message :: string
  ec_properties :: "property list"

record kes_exception =
  ex_context :: "exn_context option"

definition addProp :: "u32 \<Rightarrow> any_val \<Rightarrow> exn_context \<Rightarrow> exn_context" where
  "addProp i v c = c\<lparr>ec_properties := ec_properties c @ [\<lparr>p_id = i, p_value = v, p_info = None\<rparr>]\<rparr>"

fun make_context :: "string \<Rightarrow> (u32 \<times> any_val) list \<Rightarrow> exn_context" where
  "make_context msg [] = \<lparr>ec_message = msg, ec_properties = []\<rparr>"
| "make_context msg ((i, v) # props) = addProp i v (make_context msg props)"

definition Exception :: "string \<Rightarrow> (u32 \<times> any_val) list \<Rightarrow> kes_exception" where
  "Exception msg props = \<lparr>ex_context = Some (make_context msg props)\<rparr>"

definition default_Exception :: kes_exception where
  "default_Exception = \<lparr>ex_context = None\<rparr>"

definition ex_message :: "kes_exception \<Rightarrow> string option" where
  "ex_message e = map_option ec_message (ex_context e)"

definition ex_properties :: "kes_exception \<Rightarrow> property list option" where
  "ex_properties e = map_option ec_properties (ex_context e)"

definition ex_what :: "kes_exception \<Rightarrow> string" where
  "ex_what e = (case ex_context e of Some c \<Rightarrow> cstr (ec_message c) | None \<Rightarrow> ''Unknown exception'')"

fun find_prop :: "u32 \<Rightarrow> property list \<Rightarrow> property option" where
  "find_prop i [] = None"
| "find_prop i (p # ps) = (if p_id p = i then Some p else find_prop i ps)"

definition ex_find :: "kes_exception \<Rightarrow> u32 \<Rightarrow> property option" where
  "ex_find e i = (case ex_context e of None \<Rightarrow> None | Some c \<Rightarrow> find_prop i (ec_properties c))"

definition ex_add :: "u32 \<Rightarrow> any_val \<Rightarrow> kes_exception \<Rightarrow> kes_exception" where
  "ex_add i v e = e\<lparr>ex_context := map_option (addProp i v) (ex_context e)\<rparr>"

lemma make_context_properties:
  "ec_properties (make_context msg props) =
     rev (map (\<lambda>(i, v). \<lparr>p_id = i, p_value = v, p_info = None\<rparr>) props)"
  by (induction props) (auto simp: addProp_def)

lemma make_context_message [simp]: "ec_message (make_context msg props) = msg"
  by (induction props) (auto simp: addProp_def)

lemma find_prop_append:
  "find_prop i (ps @ qs) = (case find_prop i ps of Some p \<Rightarrow> Some p | None \<Rightarrow> find_prop i qs)"
  by (induction ps) auto

lemma find_prop_Some: "find_prop i ps = Some p \<Longrightarrow> p_id p = i \<and> p \<in> set ps"
  by (induction ps) (auto split: if_splits)

lemma what_Exception [simp]: "ex_what (Exception msg props) = cstr msg"
  by (simp add: ex_what_def Exception_def)

section \<open>Outcomes\<close>

text \<open>
  \<open>StdExn\<close> carries the \<^verbatim>\<open>what()\<close> text of a standard-library exception; \<^verbatim>\<open>Kes::Exception\<close>
  derives from \<^verbatim>\<open>std::exception\<close>, so \<^verbatim>\<open>catch (std::exception&)\<close> catches both.
\<close>

datatype exn = KesExn kes_exception | StdExn string

primrec what :: "exn \<Rightarrow> string" where
  "what (KesExn e) = ex_what e"
| "what (StdExn s) = s"

datatype 'a outcome = Ok 'a | Throw exn | Terminate | UB

primrec obind :: "'a outcome \<Rightarrow> ('a \<Rightarrow> 'b outcome) \<Rightarrow> 'b outcome" where
  "obind (Ok x) f = f x"
| "obind (Throw e) f = Throw e"
| "obind Terminate f = Terminate"
| "obind UB f = UB"

primrec omap :: "('a \<Rightarrow> 'b) \<Rightarrow> 'a outcome \<Rightarrow> 'b outcome" where
  "omap f (Ok x) = Ok (f x)"
| "omap f (Throw e) = Throw e"
| "omap f Terminate = Terminate"
| "omap f UB = UB"

primrec is_ok :: "'a outcome \<Rightarrow> bool" where
  "is_ok (Ok x) = True"
| "is_ok (Throw e) = False"
| "is_ok Terminate = False"
| "is_ok UB = False"

lemma is_ok_iff: "is_ok r \<longleftrightarrow> (\<exists>x. r = Ok x)"
  by (cases r) auto

lemma obind_Ok_iff: "obind r f = Ok y \<longleftrightarrow> (\<exists>x. r = Ok x \<and> f x = Ok y)"
  by (cases r) auto

lemma obind_assoc [simp]: "obind (obind r f) g = obind r (\<lambda>x. obind (f x) g)"
  by (cases r) auto

text \<open>\<^verbatim>\<open>std::any_cast<T>\<close>: \<^verbatim>\<open>bad_any_cast\<close> unless the stored type is the requested one.\<close>

definition bad_any_cast :: exn where
  "bad_any_cast = StdExn ''bad any_cast''"

definition any_cast_bool :: "any_val \<Rightarrow> bool outcome" where
  "any_cast_bool a = (case a of ABool b \<Rightarrow> Ok b | _ \<Rightarrow> Throw bad_any_cast)"

definition any_cast_int :: "any_val \<Rightarrow> i32 outcome" where
  "any_cast_int a = (case a of AInt i \<Rightarrow> Ok i | _ \<Rightarrow> Throw bad_any_cast)"

definition any_cast_uint :: "any_val \<Rightarrow> u32 outcome" where
  "any_cast_uint a = (case a of AUInt i \<Rightarrow> Ok i | _ \<Rightarrow> Throw bad_any_cast)"

definition any_cast_int64 :: "any_val \<Rightarrow> i64 outcome" where
  "any_cast_int64 a = (case a of AInt64 i \<Rightarrow> Ok i | _ \<Rightarrow> Throw bad_any_cast)"

definition any_cast_uint64 :: "any_val \<Rightarrow> u64 outcome" where
  "any_cast_uint64 a = (case a of AUInt64 i \<Rightarrow> Ok i | _ \<Rightarrow> Throw bad_any_cast)"

definition any_cast_string :: "any_val \<Rightarrow> string outcome" where
  "any_cast_string a = (case a of AString s \<Rightarrow> Ok s | _ \<Rightarrow> Throw bad_any_cast)"

lemmas any_cast_defs = any_cast_bool_def any_cast_int_def any_cast_uint_def any_cast_int64_def
  any_cast_uint64_def any_cast_string_def

text \<open>
  The properties of an exception are found by id: the constructor keeps them in reverse
  argument order, so \<^verbatim>\<open>find\<close> returns the last argument with the id, and \<^verbatim>\<open>add\<close> on an exception
  that has a context never hides an earlier property.
\<close>

lemma exception_find:
  "ex_find (ex_add j w (Exception msg props)) i =
     (case find_prop i (rev (map (\<lambda>(k, v). \<lparr>p_id = k, p_value = v, p_info = None\<rparr>) props)) of
        Some p \<Rightarrow> Some p
      | None \<Rightarrow> (if i = j then Some \<lparr>p_id = j, p_value = w, p_info = None\<rparr> else None))"
  by (simp add: ex_find_def ex_add_def Exception_def addProp_def make_context_properties
      find_prop_append split: option.split)

end
