(* ===== verification/Kes_World.thy ===== *)
theory Kes_World
  imports Kes_Log Kes_Property
begin

text \<open>
  The state the objects of the server share. Every object holds the same \<^verbatim>\<open>ILog*\<close>; the state
  of the request handlers extends this record. A computation that may fail takes and returns a state:
  what was done before an exception stays done.
\<close>

record world =
  w_level :: Level
  w_log :: ilog

definition world_log :: "Level \<Rightarrow> string \<Rightarrow> 'z world_scheme \<Rightarrow> 'z world_scheme" where
  "world_log lvl message w = w\<lparr>w_log := log_write lvl message (w_log w)\<rparr>"

text \<open>The macro \<^verbatim>\<open>LogDebug\<close> asks for the level of the log first.\<close>

definition LogDebug :: "string \<Rightarrow> 'z world_scheme \<Rightarrow> 'z world_scheme" where
  "LogDebug message w = (if w_level w \<le> Debug then world_log Debug message w else w)"

lemma w_level_log [simp]: "w_level (world_log lvl m w) = w_level w"
  by (simp add: world_log_def)

lemma w_level_LogDebug [simp]: "w_level (LogDebug m w) = w_level w"
  by (simp add: LogDebug_def)

text \<open>Two worlds that differ in what was logged only.\<close>

definition same_but_log :: "'z world_scheme \<Rightarrow> 'z world_scheme \<Rightarrow> bool" where
  "same_but_log v w \<longleftrightarrow> v\<lparr>w_log := []\<rparr> = w\<lparr>w_log := []\<rparr>"

lemma same_but_log_refl [simp]: "same_but_log w w"
  by (simp add: same_but_log_def)

lemma same_but_log_world_log [simp]:
  "same_but_log (world_log lvl m v) w = same_but_log v w"
  "same_but_log v (world_log lvl m w) = same_but_log v w"
  by (simp_all add: same_but_log_def world_log_def)

lemma same_but_log_LogDebug [simp]:
  "same_but_log (LogDebug m v) w = same_but_log v w"
  "same_but_log v (LogDebug m w) = same_but_log v w"
  by (simp_all add: LogDebug_def)

lemma same_but_log_trans: "same_but_log u v \<Longrightarrow> same_but_log v w \<Longrightarrow> same_but_log u w"
  by (simp add: same_but_log_def)

text \<open>Sequencing.\<close>

definition sbind :: "'a outcome \<times> 'w \<Rightarrow> ('a \<Rightarrow> 'w \<Rightarrow> 'b outcome \<times> 'w) \<Rightarrow> 'b outcome \<times> 'w" where
  "sbind m f =
     (case m of
        (Ok x, w) \<Rightarrow> f x w
      | (Throw e, w) \<Rightarrow> (Throw e, w)
      | (Terminate, w) \<Rightarrow> (Terminate, w)
      | (UB, w) \<Rightarrow> (UB, w))"

lemma sbind_simps [simp]:
  "sbind (Ok x, w) f = f x w"
  "sbind (Throw e, w) f = (Throw e, w)"
  "sbind (Terminate, w) f = (Terminate, w)"
  "sbind (UB, w) f = (UB, w)"
  by (simp_all add: sbind_def)

text \<open>An outcome that stays inside the program: a value or an exception.\<close>

definition safe :: "'a outcome \<Rightarrow> bool" where
  "safe r \<longleftrightarrow> r \<noteq> Terminate \<and> r \<noteq> UB"

lemma safe_simps [simp]:
  "safe (Ok x)" "safe (Throw e)" "\<not> safe Terminate" "\<not> safe UB"
  by (simp_all add: safe_def)

lemma safe_cases: "safe r \<Longrightarrow> (\<And>x. r = Ok x \<Longrightarrow> P) \<Longrightarrow> (\<And>e. r = Throw e \<Longrightarrow> P) \<Longrightarrow> P"
  by (cases r) auto

lemma safe_omap [simp]: "safe (omap f r) = safe r"
  by (cases r) auto

lemma safe_obind: "safe r \<Longrightarrow> (\<And>x. safe (f x)) \<Longrightarrow> safe (obind r f)"
  by (cases r) auto

end
