(* ===== verification/Kes_Containers.thy ===== *)
theory Kes_Containers
  imports Kes_Prelude "HOL-Library.Multiset"
begin

text \<open>
  The standard containers the sources keep their state in:
  \<^verbatim>\<open>std::unordered_map\<close> (the property registry, tables, sessions, processes) and
  \<^verbatim>\<open>std::unordered_multimap\<close> (the request handlers). A container is the list of its entries in
  iteration order. The standard leaves that order open, so the components use the
  operations through the laws of the locale \<open>unordered_map\<close>, which speak of lookups and of the
  multiset of entries only; new entries of the model go to the end.
\<close>

section \<open>The interface\<close>

locale unordered_map =
  fixes empty :: "'m"
    and insert :: "'k \<Rightarrow> 'v \<Rightarrow> 'm \<Rightarrow> 'm \<times> bool"
    and erase :: "'k \<Rightarrow> 'm \<Rightarrow> 'm"
    and find :: "'m \<Rightarrow> 'k \<Rightarrow> 'v option"
    and entries :: "'m \<Rightarrow> ('k \<times> 'v) list"
    and invar :: "'m \<Rightarrow> bool"
  assumes find_empty: "find empty k = None"
    and find_insert: "invar m \<Longrightarrow> find (fst (insert k v m)) =
      (if find m k = None then (find m)(k \<mapsto> v) else find m)"
    and snd_insert: "snd (insert k v m) = (find m k = None)"
    and find_erase: "invar m \<Longrightarrow> find (erase k m) = (find m)(k := None)"
    and entries_find: "invar m \<Longrightarrow> (k, v) \<in> set (entries m) \<longleftrightarrow> find m k = Some v"
    and distinct_entries: "invar m \<Longrightarrow> distinct (entries m)"
    and invar_empty: "invar empty"
    and invar_insert: "invar m \<Longrightarrow> invar (fst (insert k v m))"
    and invar_erase: "invar m \<Longrightarrow> invar (erase k m)"
begin

text \<open>A second insertion under the same key is refused and changes nothing that can be observed.\<close>

lemma insert_present: "invar m \<Longrightarrow> find m k = Some w \<Longrightarrow>
    find (fst (insert k v m)) = find m \<and> \<not> snd (insert k v m)"
  by (simp add: find_insert snd_insert)

lemma insert_fresh: "invar m \<Longrightarrow> find m k = None \<Longrightarrow>
    find (fst (insert k v m)) = (find m)(k \<mapsto> v) \<and> snd (insert k v m)"
  by (simp add: find_insert snd_insert)

lemma insert_twice: "invar m \<Longrightarrow>
    find (fst (insert k v (fst (insert k w m)))) = find (fst (insert k w m))"
  by (simp add: find_insert invar_insert)

lemma entries_cong: "invar m \<Longrightarrow> invar n \<Longrightarrow> find m = find n \<Longrightarrow> mset (entries m) = mset (entries n)"
  by (auto intro!: set_eq_iff_mset_eq_distinct [THEN iffD1] simp: distinct_entries entries_find)

end

section \<open>Entry lists\<close>

type_synonym ('k, 'v) umap = "('k \<times> 'v) list"

definition um_empty :: "('k, 'v) umap" where
  "um_empty = []"

definition um_find :: "('k, 'v) umap \<Rightarrow> 'k \<Rightarrow> 'v option" where
  "um_find m k = map_of m k"

definition um_insert :: "'k \<Rightarrow> 'v \<Rightarrow> ('k, 'v) umap \<Rightarrow> ('k, 'v) umap \<times> bool" where
  "um_insert k v m = (case um_find m k of None \<Rightarrow> (m @ [(k, v)], True) | Some w \<Rightarrow> (m, False))"

definition um_erase :: "'k \<Rightarrow> ('k, 'v) umap \<Rightarrow> ('k, 'v) umap" where
  "um_erase k m = filter (\<lambda>e. fst e \<noteq> k) m"

text \<open>Assignment through an iterator: the value of a present key is replaced.\<close>

definition um_update :: "'k \<Rightarrow> 'v \<Rightarrow> ('k, 'v) umap \<Rightarrow> ('k, 'v) umap" where
  "um_update k v m = map (\<lambda>e. if fst e = k then (k, v) else e) m"

definition um_inv :: "('k, 'v) umap \<Rightarrow> bool" where
  "um_inv m \<longleftrightarrow> distinct (map fst m)"

lemma um_find_Nil [simp]: "um_find [] k = None"
  by (simp add: um_find_def)

lemma um_find_Cons [simp]: "um_find ((k, v) # m) j = (if j = k then Some v else um_find m j)"
  by (simp add: um_find_def)

lemma um_find_append: "um_find (m @ n) k = (case um_find m k of None \<Rightarrow> um_find n k | Some v \<Rightarrow> Some v)"
  by (simp add: um_find_def map_add_def split: option.split)

lemma um_find_None: "um_find m k = None \<longleftrightarrow> k \<notin> fst ` set m"
  by (simp add: um_find_def map_of_eq_None_iff)

lemma um_find_in: "um_find m k = Some v \<Longrightarrow> (k, v) \<in> set m"
  by (simp add: um_find_def map_of_SomeD)

lemma um_in_find: "um_inv m \<Longrightarrow> (k, v) \<in> set m \<Longrightarrow> um_find m k = Some v"
  by (simp add: um_find_def um_inv_def)

lemma fst_um_insert: "fst (um_insert k v m) = (if um_find m k = None then m @ [(k, v)] else m)"
  by (simp add: um_insert_def split: option.split)

lemma um_inv_Nil [simp]: "um_inv []"
  by (simp add: um_inv_def)

lemma um_inv_insert: "um_inv m \<Longrightarrow> um_inv (fst (um_insert k v m))"
  by (auto simp: fst_um_insert um_inv_def um_find_None)

lemma um_inv_erase: "um_inv m \<Longrightarrow> um_inv (um_erase k m)"
  by (auto simp: um_inv_def um_erase_def distinct_map inj_on_def)

lemma um_find_erase: "um_find (um_erase k m) = (um_find m)(k := None)"
  by (rule ext, induction m) (auto simp: um_find_def um_erase_def)

lemma fst_um_update [simp]: "map fst (um_update k v m) = map fst m"
  by (induction m) (auto simp: um_update_def)

lemma um_inv_update: "um_inv m \<Longrightarrow> um_inv (um_update k v m)"
  by (simp add: um_inv_def)

lemma um_find_update:
  "um_find (um_update k v m) = (if um_find m k = None then um_find m else (um_find m)(k \<mapsto> v))"
  by (rule ext, induction m) (auto simp: um_find_def um_update_def)

lemma um_update_absent: "um_find m k = None \<Longrightarrow> um_update k v m = m"
  by (induction m) (auto simp: um_update_def um_find_def split: if_splits)

interpretation um: unordered_map um_empty um_insert um_erase um_find "\<lambda>m. m" um_inv
proof unfold_locales
  show "um_find (fst (um_insert k v m)) = (if um_find m k = None then (um_find m)(k \<mapsto> v) else um_find m)"
    for m :: "('k, 'v) umap" and k v
    by (rule ext) (auto simp: fst_um_insert um_find_append split: option.split)
  show "(k, v) \<in> set m \<longleftrightarrow> um_find m k = Some v" if "um_inv m" for m :: "('k, 'v) umap" and k v
    using that um_in_find um_find_in by metis
  show "snd (um_insert k v m) = (um_find m k = None)" for m :: "('k, 'v) umap" and k v
    by (simp add: um_insert_def split: option.split)
qed (simp_all add: um_empty_def um_inv_insert um_inv_erase um_find_erase, simp add: um_inv_def distinct_map)

lemmas um_laws = um.find_insert um.snd_insert um.find_erase um.invar_insert um.invar_erase

section \<open>Multimaps\<close>

text \<open>
  \<^verbatim>\<open>std::unordered_multimap\<close>: insertion always succeeds, \<open>equal_range\<close> are the entries of a key in
  iteration order.
\<close>

definition mm_insert :: "'k \<Rightarrow> 'v \<Rightarrow> ('k \<times> 'v) list \<Rightarrow> ('k \<times> 'v) list" where
  "mm_insert k v m = m @ [(k, v)]"

definition mm_equal_range :: "'k \<Rightarrow> ('k \<times> 'v) list \<Rightarrow> 'v list" where
  "mm_equal_range k m = map snd (filter (\<lambda>e. fst e = k) m)"

text \<open>\<^verbatim>\<open>erase(it)\<close> of the first entry of the key's range that holds the given value.\<close>

definition mm_erase_one :: "'k \<Rightarrow> 'v \<Rightarrow> ('k \<times> 'v) list \<Rightarrow> ('k \<times> 'v) list" where
  "mm_erase_one k v m = remove1 (k, v) m"

lemma mm_equal_range_insert:
  "mm_equal_range k (mm_insert j v m) = mm_equal_range k m @ (if j = k then [v] else [])"
  by (simp add: mm_equal_range_def mm_insert_def)

lemma mm_equal_range_in: "v \<in> set (mm_equal_range k m) \<longleftrightarrow> (k, v) \<in> set m"
  by (force simp: mm_equal_range_def)

lemma mm_equal_range_erase_other:
  "j \<noteq> k \<Longrightarrow> mm_equal_range k (mm_erase_one j v m) = mm_equal_range k m"
  by (induction m) (auto simp: mm_equal_range_def mm_erase_one_def)

lemma mm_equal_range_erase:
  "mm_equal_range k (mm_erase_one k v m) = remove1 v (mm_equal_range k m)"
  by (induction m) (auto simp: mm_equal_range_def mm_erase_one_def)

lemma mm_erase_insert: "(k, v) \<notin> set m \<Longrightarrow> mm_erase_one k v (mm_insert k v m) = m"
  by (simp add: mm_erase_one_def mm_insert_def remove1_append)

end
