(* ===== verification/Kes_Registry.thy ===== *)
theory Kes_Registry
  imports Kes_Property Kes_Containers
begin

text \<open>
  The property registry (\<^verbatim>\<open>src/kesrv/knownprops.cxx\<close>), the properties the server declares
  (\<^verbatim>\<open>exception.hxx\<close>, \<^verbatim>\<open>request.hxx\<close>, \<^verbatim>\<open>processprops.hxx\<close>) and \<^verbatim>\<open>Kes::initialize\<close>, which
  registers them. The registry has two indexes, by numeric id and by name; the invariant
  \<open>reg_inv\<close> says that they hold the same descriptions. Every operation runs under the registry's
  mutex, so a sequence of calls is a sequence of steps.
\<close>

section \<open>The registry\<close>

record registry =
  propsById :: "(u32, pinfo) umap"
  propsByName :: "(string, pinfo) umap"

definition empty_registry :: registry where
  "empty_registry = \<lparr>propsById = um_empty, propsByName = um_empty\<rparr>"

definition registerProperty :: "pinfo \<Rightarrow> registry \<Rightarrow> unit outcome \<times> registry" where
  "registerProperty p R =
     (case um_insert (pi_id p) p (propsById R) of
        (ids, False) \<Rightarrow>
          (Throw (KesExn (Exception (''Property with ID '' @ hex8 (pi_id p) @ '' already registered'') [])), R)
      | (ids, True) \<Rightarrow>
          (case um_insert (cstr (pi_idstr p)) p (propsByName R) of
             (names, False) \<Rightarrow>
               (Throw (KesExn (Exception (''Property with ID '' @ cstr (pi_idstr p) @ '' already registered'') [])),
                R\<lparr>propsById := ids\<rparr>)
           | (names, True) \<Rightarrow> (Ok (), \<lparr>propsById = ids, propsByName = names\<rparr>)))"

definition lookupProperty :: "registry \<Rightarrow> u32 \<Rightarrow> pinfo option" where
  "lookupProperty R i = um_find (propsById R) i"

definition lookupPropertyName :: "registry \<Rightarrow> string \<Rightarrow> pinfo option" where
  "lookupPropertyName R s = um_find (propsByName R) (cstr s)"

section \<open>The declared properties\<close>

definition DecodedError :: pinfo where
  "DecodedError = property_info TString ''decoded_error'' ''Error message'' StringFormatter TString"

definition PosixErrorCode :: pinfo where
  "PosixErrorCode = property_info TInt ''posix_error_code'' ''POSIX error code'' (IntegralFormatter TInt) TInt"

definition Request_Id :: pinfo where
  "Request_Id = property_info TInt ''request.id'' ''RequestId'' (IntegralFormatter TInt) TInt"

definition Request_Command :: pinfo where
  "Request_Command = property_info TString ''request.request'' ''Request'' StringFormatter TString"

definition Response_Status :: pinfo where
  "Response_Status = property_info TString ''response.status'' ''Status'' StringFormatter TString"

definition Response_Reason :: pinfo where
  "Response_Reason = property_info TString ''response.reason'' ''Reason'' StringFormatter TString"

definition Response_Version :: pinfo where
  "Response_Version = property_info TString ''response.srv_version'' ''Server Version'' StringFormatter TString"

definition PP_Process :: pinfo where
  "PP_Process = property_info TTable ''process.process'' ''Process Info'' NullFormatter TTable"

definition PP_DeletedProcess :: pinfo where
  "PP_DeletedProcess = property_info TInt ''process.deleted_process'' ''Deleted Process'' NullFormatter TInt"

definition PP_ProcessList :: pinfo where
  "PP_ProcessList = property_info TArray ''process.process_list'' ''Process List'' NullFormatter TProcess"

definition PP_DeletedProcessList :: pinfo where
  "PP_DeletedProcessList = property_info TArray ''process.deleted_process_list'' ''Deleted Process List'' NullFormatter TInt"

definition PP_Error :: pinfo where
  "PP_Error = property_info TString ''process.error'' ''__Error'' StringFormatter TString"

definition PP_Newcomer :: pinfo where
  "PP_Newcomer = property_info TBool ''process.newcomer'' ''__New'' BoolFormatter TBool"

definition PP_Pid :: pinfo where
  "PP_Pid = property_info TInt ''process.pid'' ''PID'' (IntegralFormatter TInt) TInt"

definition PP_PPid :: pinfo where
  "PP_PPid = property_info TInt ''process.ppid'' ''Parent PID'' (IntegralFormatter TInt) TInt"

definition PP_PGrp :: pinfo where
  "PP_PGrp = property_info TInt ''process.pgrp'' ''Process Group ID'' (IntegralFormatter TInt) TInt"

definition PP_Tpgid :: pinfo where
  "PP_Tpgid = property_info TInt ''process.tpgid'' ''Process Group ID of the Terminal'' (IntegralFormatter TInt) TInt"

definition PP_Session :: pinfo where
  "PP_Session = property_info TInt ''process.session'' ''Session ID'' (IntegralFormatter TInt) TInt"

definition PP_Ruid :: pinfo where
  "PP_Ruid = property_info TInt ''process.ruid'' ''User ID'' (IntegralFormatter TInt) TInt"

definition PP_StatComm :: pinfo where
  "PP_StatComm = property_info TString ''process.stat_comm'' ''Command Name'' StringFormatter TString"

definition PP_Comm :: pinfo where
  "PP_Comm = property_info TString ''process.comm'' ''Program Name'' StringFormatter TString"

definition PP_CmdLine :: pinfo where
  "PP_CmdLine = property_info TString ''process.cmdline'' ''Command Line'' StringFormatter TString"

definition PP_Exe :: pinfo where
  "PP_Exe = property_info TString ''process.exe'' ''Executable Name'' StringFormatter TString"

lemmas declared_defs =
  DecodedError_def
  PosixErrorCode_def
  Request_Id_def
  Request_Command_def
  Response_Status_def
  Response_Reason_def
  Response_Version_def
  PP_Process_def
  PP_DeletedProcess_def
  PP_ProcessList_def
  PP_DeletedProcessList_def
  PP_Error_def
  PP_Newcomer_def
  PP_Pid_def
  PP_PPid_def
  PP_PGrp_def
  PP_Tpgid_def
  PP_Session_def
  PP_Ruid_def
  PP_StatComm_def
  PP_Comm_def
  PP_CmdLine_def
  PP_Exe_def

text \<open>The numeric ids of the declared properties, computed once.\<close>

lemma declared_crc32 [simp]:
  "crc32 ''decoded_error'' = 0x184fa559"
  "crc32 ''posix_error_code'' = 0x23eb7320"
  "crc32 ''request.id'' = 0x174dbac2"
  "crc32 ''request.request'' = 0x71496cc6"
  "crc32 ''response.status'' = 0x5a6499ac"
  "crc32 ''response.reason'' = 0x1adc74bc"
  "crc32 ''response.srv_version'' = 0xcc025027"
  "crc32 ''process.process'' = 0xae9f534d"
  "crc32 ''process.deleted_process'' = 0x6328382e"
  "crc32 ''process.process_list'' = 0xa6fdda1d"
  "crc32 ''process.deleted_process_list'' = 0x2a0de614"
  "crc32 ''process.error'' = 0xcbff4fe4"
  "crc32 ''process.newcomer'' = 0x259a8785"
  "crc32 ''process.pid'' = 0xba111c57"
  "crc32 ''process.ppid'' = 0xcb317935"
  "crc32 ''process.pgrp'' = 0x61b4d327"
  "crc32 ''process.tpgid'' = 0x84154a11"
  "crc32 ''process.session'' = 0xf8c69e0f"
  "crc32 ''process.ruid'' = 0x67f37355"
  "crc32 ''process.stat_comm'' = 0xa8654f9"
  "crc32 ''process.comm'' = 0x835718a9"
  "crc32 ''process.cmdline'' = 0x2738643e"
  "crc32 ''process.exe'' = 0x84226e4a"
  by (simp_all add: crc32_eval)

section \<open>Registration of everything: \<^verbatim>\<open>Kes::initialize\<close>\<close>

fun registerAll :: "pinfo list \<Rightarrow> registry \<Rightarrow> unit outcome \<times> registry" where
  "registerAll [] R = (Ok (), R)"
| "registerAll (p # ps) R =
     (case registerProperty p R of
        (Ok _, R') \<Rightarrow> registerAll ps R'
      | (r, R') \<Rightarrow> (r, R'))"

definition exception_registerAll :: "registry \<Rightarrow> unit outcome \<times> registry" where
  "exception_registerAll = registerAll [DecodedError, PosixErrorCode]"

definition request_registerAll :: "registry \<Rightarrow> unit outcome \<times> registry" where
  "request_registerAll = registerAll [Request_Id, Request_Command]"

definition response_registerAll :: "registry \<Rightarrow> unit outcome \<times> registry" where
  "response_registerAll = registerAll [Response_Status, Response_Reason, Response_Version]"

definition process_registerAll :: "registry \<Rightarrow> unit outcome \<times> registry" where
  "process_registerAll = registerAll
     [PP_Process, PP_DeletedProcess, PP_ProcessList, PP_DeletedProcessList, PP_Error, PP_Pid, PP_PPid,
      PP_PGrp, PP_Tpgid, PP_Session, PP_StatComm, PP_Comm, PP_CmdLine, PP_Exe]"

definition and_then :: "(registry \<Rightarrow> unit outcome \<times> registry) \<Rightarrow> (registry \<Rightarrow> unit outcome \<times> registry) \<Rightarrow>
    registry \<Rightarrow> unit outcome \<times> registry" where
  "and_then f g R = (case f R of (Ok _, R') \<Rightarrow> g R' | (r, R') \<Rightarrow> (r, R'))"

text \<open>The Linux build, which includes the process properties.\<close>

definition initialize :: "registry \<Rightarrow> unit outcome \<times> registry" where
  "initialize =
     and_then exception_registerAll
       (and_then request_registerAll (and_then response_registerAll process_registerAll))"

section \<open>Correctness of the registry\<close>

definition wf_info :: "pinfo \<Rightarrow> bool" where
  "wf_info p \<longleftrightarrow> pi_id p = crc32 (pi_idstr p) \<and> NUL \<notin> set (pi_idstr p)"

definition reg_inv :: "registry \<Rightarrow> bool" where
  "reg_inv R \<longleftrightarrow>
     um_inv (propsById R) \<and> um_inv (propsByName R) \<and>
     (\<forall>i p. um_find (propsById R) i = Some p \<longrightarrow>
        pi_id p = i \<and> wf_info p \<and> um_find (propsByName R) (pi_idstr p) = Some p) \<and>
     (\<forall>s p. um_find (propsByName R) s = Some p \<longrightarrow>
        pi_idstr p = s \<and> um_find (propsById R) (pi_id p) = Some p)"

lemma reg_invD:
  assumes "reg_inv R"
  shows "um_inv (propsById R)" "um_inv (propsByName R)"
    and "um_find (propsById R) i = Some p \<Longrightarrow>
      pi_id p = i \<and> wf_info p \<and> um_find (propsByName R) (pi_idstr p) = Some p"
    and "um_find (propsByName R) s = Some p \<Longrightarrow>
      pi_idstr p = s \<and> um_find (propsById R) (pi_id p) = Some p"
  using assms by (simp_all add: reg_inv_def)

lemma reg_inv_empty: "reg_inv empty_registry"
  by (simp add: reg_inv_def empty_registry_def um.find_empty um.invar_empty)

lemma reg_name_fresh:
  assumes R: "reg_inv R" and p: "wf_info p" and new: "um_find (propsById R) (pi_id p) = None"
  shows "um_find (propsByName R) (pi_idstr p) = None"
proof (rule ccontr)
  assume "um_find (propsByName R) (pi_idstr p) \<noteq> None"
  then obtain q where q: "um_find (propsByName R) (pi_idstr p) = Some q" by auto
  then have "pi_idstr q = pi_idstr p" "um_find (propsById R) (pi_id q) = Some q"
    using reg_invD(4) [OF R] by auto
  moreover from this have "wf_info q" using reg_invD(3) [OF R] by blast
  ultimately show False using p new by (simp add: wf_info_def)
qed

lemma um_insert_cases:
  "um_insert k v m = (if um_find m k = None then (m @ [(k, v)], True) else (m, False))"
  by (simp add: um_insert_def split: option.split)

lemma registerProperty_new:
  assumes R: "reg_inv R" and p: "wf_info p" and new: "um_find (propsById R) (pi_id p) = None"
  shows "registerProperty p R =
    (Ok (), \<lparr>propsById = propsById R @ [(pi_id p, p)], propsByName = propsByName R @ [(pi_idstr p, p)]\<rparr>)"
  using reg_name_fresh [OF assms] p new
  by (simp add: registerProperty_def um_insert_cases wf_info_def)

lemma registerProperty_known:
  "um_find (propsById R) (pi_id p) \<noteq> None \<Longrightarrow> registerProperty p R =
    (Throw (KesExn (Exception (''Property with ID '' @ hex8 (pi_id p) @ '' already registered'') [])), R)"
  by (auto simp: registerProperty_def um_insert_cases)

lemma reg_inv_add:
  assumes R: "reg_inv R" and p: "wf_info p" and new: "um_find (propsById R) (pi_id p) = None"
  shows "reg_inv \<lparr>propsById = propsById R @ [(pi_id p, p)], propsByName = propsByName R @ [(pi_idstr p, p)]\<rparr>"
proof -
  have n: "um_find (propsByName R) (pi_idstr p) = None"
    by (rule reg_name_fresh [OF assms])
  have ids: "um_inv (propsById R @ [(pi_id p, p)])" and names: "um_inv (propsByName R @ [(pi_idstr p, p)])"
    using reg_invD(1,2) [OF R] um_inv_insert [of "propsById R" "pi_id p" p]
      um_inv_insert [of "propsByName R" "pi_idstr p" p] new n by (simp_all add: fst_um_insert)
  show ?thesis
    unfolding reg_inv_def
    using ids names reg_invD(3,4) [OF R] p new n
    by (auto simp: um_find_append split: option.splits if_splits)
qed

text \<open>
  C25. Registration is atomic and keeps the two indexes in agreement: for a description whose id is
  the checksum of its name, \<^verbatim>\<open>registerProperty\<close> either adds it under both keys, or throws and leaves
  the registry as it was; the second \<^verbatim>\<open>throw\<close>, which would leave the indexes different, is never
  reached.
\<close>

theorem registerProperty_atomic:
  assumes "reg_inv R" and "wf_info p"
  shows "case registerProperty p R of
      (Ok u, R') \<Rightarrow> lookupProperty R (pi_id p) = None \<and> reg_inv R' \<and>
        lookupProperty R' = (lookupProperty R)(pi_id p \<mapsto> p) \<and>
        (\<forall>s. lookupPropertyName R' s =
          (if cstr s = pi_idstr p then Some p else lookupPropertyName R s))
    | (r, R') \<Rightarrow> R' = R \<and> lookupProperty R (pi_id p) \<noteq> None \<and>
        r = Throw (KesExn (Exception (''Property with ID '' @ hex8 (pi_id p) @ '' already registered'') []))"
proof (cases "um_find (propsById R) (pi_id p)")
  case None
  note n = reg_name_fresh [OF assms None]
  have "lookupProperty \<lparr>propsById = propsById R @ [(pi_id p, p)], propsByName = propsByName R @ [(pi_idstr p, p)]\<rparr> =
      (lookupProperty R)(pi_id p \<mapsto> p)"
    using None by (auto simp: lookupProperty_def um_find_append fun_eq_iff split: option.split)
  then show ?thesis
    using None n by (simp add: registerProperty_new [OF assms None] reg_inv_add [OF assms None] lookupProperty_def
        lookupPropertyName_def um_find_append split: option.split)
next
  case (Some q)
  then show ?thesis by (simp add: registerProperty_known lookupProperty_def)
qed

lemma Request_Id_wf: "wf_info Request_Id"
  by (simp add: wf_info_def Request_Id_def)

lemma registerProperty_atomic_witness:
  "case registerProperty Request_Id empty_registry of
      (Ok u, R') \<Rightarrow> reg_inv R' \<and> lookupProperty R' (pi_id Request_Id) = Some Request_Id
    | (r, R') \<Rightarrow> False"
proof -
  have "lookupProperty empty_registry (pi_id Request_Id) = None"
    by (simp add: lookupProperty_def empty_registry_def um_empty_def)
  then show ?thesis
    using registerProperty_atomic [OF reg_inv_empty Request_Id_wf] by (auto split: prod.splits outcome.splits)
qed

lemmas initialize_defs = initialize_def and_then_def exception_registerAll_def request_registerAll_def
  response_registerAll_def process_registerAll_def

definition server_registry :: registry where
  "server_registry = snd (initialize empty_registry)"

definition startup_properties :: "pinfo list" where
  "startup_properties = [DecodedError, PosixErrorCode, Request_Id, Request_Command, Response_Status,
     Response_Reason, Response_Version, PP_Process, PP_DeletedProcess, PP_ProcessList,
     PP_DeletedProcessList, PP_Error, PP_Pid, PP_PPid, PP_PGrp, PP_Tpgid, PP_Session, PP_StatComm,
     PP_Comm, PP_CmdLine, PP_Exe]"

lemma registerAll_correct:
  assumes "reg_inv R" and "\<forall>p \<in> set ps. wf_info p" and "distinct (map pi_id ps)"
    and "\<forall>p \<in> set ps. um_find (propsById R) (pi_id p) = None"
  shows "registerAll ps R = (Ok (), \<lparr>propsById = propsById R @ map (\<lambda>p. (pi_id p, p)) ps,
      propsByName = propsByName R @ map (\<lambda>p. (pi_idstr p, p)) ps\<rparr>) \<and> reg_inv (snd (registerAll ps R))"
  using assms
proof (induction ps arbitrary: R)
  case Nil
  then show ?case by simp
next
  case (Cons p ps)
  let ?R = "\<lparr>propsById = propsById R @ [(pi_id p, p)], propsByName = propsByName R @ [(pi_idstr p, p)]\<rparr>"
  have new: "wf_info p" "um_find (propsById R) (pi_id p) = None" using Cons.prems by auto
  have "reg_inv ?R" by (rule reg_inv_add [OF Cons.prems(1) new])
  moreover have "\<forall>q \<in> set ps. um_find (propsById ?R) (pi_id q) = None"
    using Cons.prems(3,4) by (auto simp: um_find_append image_iff split: option.split)
  ultimately show ?case
    using Cons.IH [of ?R] Cons.prems by (auto simp: registerProperty_new [OF Cons.prems(1) new])
qed

lemma startup_wf: "\<forall>p \<in> set startup_properties. wf_info p"
  by (simp add: startup_properties_def declared_defs wf_info_def)

lemma startup_distinct: "distinct (map pi_id startup_properties)"
  by (simp add: startup_properties_def declared_defs)

lemma and_then_registerAll: "and_then (registerAll ps) (registerAll qs) = registerAll (ps @ qs)"
proof (rule ext)
  show "and_then (registerAll ps) (registerAll qs) R = registerAll (ps @ qs) R" for R
  proof (induction ps arbitrary: R)
    case Nil
    then show ?case by (simp add: and_then_def)
  next
    case (Cons p ps)
    note IH = Cons.IH [unfolded and_then_def, symmetric]
    show ?case by (auto simp: and_then_def IH split: prod.split outcome.split)
  qed
qed

lemma initialize_registerAll: "initialize = registerAll startup_properties"
  by (simp add: initialize_def exception_registerAll_def request_registerAll_def
      response_registerAll_def process_registerAll_def and_then_registerAll startup_properties_def)

lemma initialize_result:
  "initialize empty_registry = (Ok (), \<lparr>propsById = map (\<lambda>p. (pi_id p, p)) startup_properties,
      propsByName = map (\<lambda>p. (pi_idstr p, p)) startup_properties\<rparr>)"
  using registerAll_correct [OF reg_inv_empty startup_wf startup_distinct]
  by (simp add: initialize_registerAll empty_registry_def um_empty_def)

lemma server_registry_eq:
  "server_registry = \<lparr>propsById = map (\<lambda>p. (pi_id p, p)) startup_properties,
      propsByName = map (\<lambda>p. (pi_idstr p, p)) startup_properties\<rparr>"
  by (simp add: server_registry_def initialize_result)

lemma server_registry_inv: "reg_inv server_registry"
  using registerAll_correct [OF reg_inv_empty startup_wf startup_distinct]
  by (auto simp: server_registry_def initialize_registerAll empty_registry_def um_empty_def)

lemma server_registry_lookup [simp]:
  "p \<in> set startup_properties \<Longrightarrow> lookupProperty server_registry (pi_id p) = Some p"
  "p \<in> set startup_properties \<Longrightarrow> lookupPropertyName server_registry (pi_idstr p) = Some p"
proof -
  assume p: "p \<in> set startup_properties"
  then have "um_find (propsById server_registry) (pi_id p) = Some p"
    using um_in_find [OF reg_invD(1) [OF server_registry_inv]] by (simp add: server_registry_eq)
  moreover from this have "um_find (propsByName server_registry) (pi_idstr p) = Some p"
    using reg_invD(3) [OF server_registry_inv] by blast
  ultimately show "lookupProperty server_registry (pi_id p) = Some p"
    "lookupPropertyName server_registry (pi_idstr p) = Some p"
    using p startup_wf by (auto simp: lookupProperty_def lookupPropertyName_def wf_info_def)
qed

text \<open>
  C26. \<^verbatim>\<open>Kes::initialize\<close> succeeds on an empty registry (no two of the registered names share a
  checksum) and makes every registered property available under its id and its name; a second call
  throws and changes nothing. The declared properties \<^verbatim>\<open>process.newcomer\<close> and \<^verbatim>\<open>process.ruid\<close> are
  not among them.
\<close>

theorem initialize_correct:
  "fst (initialize empty_registry) = Ok () \<and> reg_inv server_registry \<and>
   (\<forall>p \<in> set startup_properties. lookupProperty server_registry (pi_id p) = Some p \<and>
      lookupPropertyName server_registry (pi_idstr p) = Some p) \<and>
   (\<exists>e. initialize server_registry = (Throw e, server_registry)) \<and>
   lookupProperty server_registry (pi_id PP_Newcomer) = None \<and>
   lookupProperty server_registry (pi_id PP_Ruid) = None"
proof -
  have "um_find (propsById server_registry) (pi_id DecodedError) \<noteq> None"
    using server_registry_lookup(1) [of DecodedError] by (simp add: lookupProperty_def startup_properties_def)
  then have "\<exists>e. initialize server_registry = (Throw e, server_registry)"
    by (simp add: initialize_registerAll startup_properties_def registerProperty_known)
  moreover have "lookupProperty server_registry (pi_id PP_Newcomer) = None"
    "lookupProperty server_registry (pi_id PP_Ruid) = None"
    by (simp_all add: server_registry_eq lookupProperty_def startup_properties_def declared_defs)
  ultimately show ?thesis
    by (simp add: initialize_result server_registry_inv)
qed

lemma initialize_correct_witness:
  "lookupProperty server_registry (pi_id PP_Pid) = Some PP_Pid"
  using initialize_correct by (simp add: startup_properties_def)

end
