(* ===== verification/Kes_PropertyBag.thy ===== *)
theory Kes_PropertyBag
  imports Kes_Registry
begin

text \<open>
  \<^verbatim>\<open>Kes::PropertyBag\<close> (\<^verbatim>\<open>include/kesrv/propertybag.hxx\<close>) and the helpers that fill one
  (\<^verbatim>\<open>include/kesrv/util/requestutil.hxx\<close>). A bag is a name and a variant of nothing, a property, an
  array of bags or a table of bags; the default constructor is the only one that leaves the variant
  empty, and it leaves the name empty too. The accessors are \<^verbatim>\<open>noexcept\<close> around
  \<^verbatim>\<open>std::get\<close>, so reading the wrong alternative terminates the process.
\<close>

section \<open>The data type\<close>

datatype bag =
    EmptyBag
  | PropBag string property
  | ArrayBag string "bag list"
  | TableBag string "(string \<times> bag) list"

fun bag_name :: "bag \<Rightarrow> string" where
  "bag_name EmptyBag = []"
| "bag_name (PropBag n p) = n"
| "bag_name (ArrayBag n a) = n"
| "bag_name (TableBag n t) = n"

fun isEmpty :: "bag \<Rightarrow> bool" where
  "isEmpty EmptyBag = True"
| "isEmpty _ = False"

fun isProperty :: "bag \<Rightarrow> bool" where
  "isProperty (PropBag n p) = True"
| "isProperty _ = False"

fun isArray :: "bag \<Rightarrow> bool" where
  "isArray (ArrayBag n a) = True"
| "isArray _ = False"

fun isTable :: "bag \<Rightarrow> bool" where
  "isTable (TableBag n t) = True"
| "isTable _ = False"

fun bag_property :: "bag \<Rightarrow> property outcome" where
  "bag_property (PropBag n p) = Ok p"
| "bag_property _ = Terminate"

fun bag_array :: "bag \<Rightarrow> bag list outcome" where
  "bag_array (ArrayBag n a) = Ok a"
| "bag_array _ = Terminate"

fun bag_table :: "bag \<Rightarrow> (string, bag) umap outcome" where
  "bag_table (TableBag n t) = Ok t"
| "bag_table _ = Terminate"

section \<open>Filling tables and arrays\<close>

text \<open>
  \<^verbatim>\<open>addToTable\<close> has an overload for a value, which is wrapped into a property of the declared id,
  and one for a ready-made bag, which keeps its own name. An existing entry is not replaced.
\<close>

definition addToTable :: "pinfo \<Rightarrow> bag \<Rightarrow> any_val \<Rightarrow> bag outcome" where
  "addToTable pr table val =
     (case table of
        TableBag n t \<Rightarrow>
          Ok (TableBag n (fst (um_insert (pi_idstr pr)
            (PropBag (pi_idstr pr) \<lparr>p_id = pi_id pr, p_value = val, p_info = None\<rparr>) t)))
      | _ \<Rightarrow> Terminate)"

definition addBagToTable :: "pinfo \<Rightarrow> bag \<Rightarrow> bag \<Rightarrow> bag outcome" where
  "addBagToTable pr table val =
     (case table of
        TableBag n t \<Rightarrow> Ok (TableBag n (fst (um_insert (pi_idstr pr) val t)))
      | _ \<Rightarrow> Terminate)"

definition addToArray :: "pinfo \<Rightarrow> bag \<Rightarrow> any_val \<Rightarrow> bag outcome" where
  "addToArray pr array val =
     (case array of
        ArrayBag n a \<Rightarrow> Ok (ArrayBag n (a @ [PropBag [] \<lparr>p_id = pi_id pr, p_value = val, p_info = None\<rparr>]))
      | _ \<Rightarrow> Terminate)"

definition addBagToArray :: "bag \<Rightarrow> bag \<Rightarrow> bag outcome" where
  "addBagToArray array val =
     (case array of ArrayBag n a \<Rightarrow> Ok (ArrayBag n (a @ [val])) | _ \<Rightarrow> Terminate)"

section \<open>Well-formed bags\<close>

text \<open>Every table, at every depth, has one entry per key.\<close>

fun bag_inv :: "bag \<Rightarrow> bool" where
  "bag_inv (ArrayBag n a) \<longleftrightarrow> (\<forall>b \<in> set a. bag_inv b)"
| "bag_inv (TableBag n t) \<longleftrightarrow> um_inv t \<and> (\<forall>e \<in> set t. bag_inv (snd e))"
| "bag_inv _ \<longleftrightarrow> True"

text \<open>The entry of a table under a key, absent when the bag is no table.\<close>

definition bag_find :: "bag \<Rightarrow> string \<Rightarrow> bag option" where
  "bag_find b k = (case b of TableBag n t \<Rightarrow> um_find t k | _ \<Rightarrow> None)"

lemma bag_find_TableBag [simp]: "bag_find (TableBag n t) k = um_find t k"
  by (simp add: bag_find_def)

lemma addToTable_TableBag [bag_simps]:
  "addToTable pr (TableBag n t) val =
     Ok (TableBag n (if um_find t (pi_idstr pr) = None
       then t @ [(pi_idstr pr, PropBag (pi_idstr pr) \<lparr>p_id = pi_id pr, p_value = val, p_info = None\<rparr>)]
       else t))"
  by (simp add: addToTable_def fst_um_insert)

lemma addBagToTable_TableBag [bag_simps]:
  "addBagToTable pr (TableBag n t) val =
     Ok (TableBag n (if um_find t (pi_idstr pr) = None then t @ [(pi_idstr pr, val)] else t))"
  by (simp add: addBagToTable_def fst_um_insert)

lemma addToArray_ArrayBag [bag_simps]:
  "addToArray pr (ArrayBag n a) val =
     Ok (ArrayBag n (a @ [PropBag [] \<lparr>p_id = pi_id pr, p_value = val, p_info = None\<rparr>]))"
  by (simp add: addToArray_def)

lemma addBagToArray_ArrayBag [bag_simps]:
  "addBagToArray (ArrayBag n a) val = Ok (ArrayBag n (a @ [val]))"
  by (simp add: addBagToArray_def)

lemma um_inv_snoc: "um_inv t \<Longrightarrow> um_find t k = None \<Longrightarrow> um_inv (t @ [(k, v)])"
  using um_inv_insert [of t k v] by (simp add: fst_um_insert)

text \<open>
  Filling a table keeps it well-formed, makes the new entry available, and never touches an
  entry that is already there; on anything but a table the call ends the process.
\<close>

lemma addToTable_correct:
  "(\<forall>n t. b = TableBag n t \<longrightarrow> bag_inv b \<longrightarrow>
      (\<exists>b'. addToTable pr b v = Ok b' \<and> isTable b' \<and> bag_inv b' \<and> bag_name b' = n \<and>
        (\<forall>k. bag_find b' k =
          (case bag_find b k of
             Some c \<Rightarrow> Some c
           | None \<Rightarrow> if k = pi_idstr pr
               then Some (PropBag k \<lparr>p_id = pi_id pr, p_value = v, p_info = None\<rparr>) else None)))) \<and>
   (\<not> isTable b \<longrightarrow> addToTable pr b v = Terminate)"
  by (cases b) (auto simp: bag_simps um_inv_snoc um_find_append addToTable_def fst_um_insert split: option.split)

lemma addToTable_correct_witness:
  "\<exists>b. addToTable Request_Id (TableBag ''t'' []) (AInt 5) = Ok b \<and> bag_inv b \<and>
     bag_find b ''request.id'' = Some (PropBag ''request.id'' \<lparr>p_id = pi_id Request_Id, p_value = AInt 5, p_info = None\<rparr>)"
proof -
  have "pi_idstr Request_Id = ''request.id''" "bag_inv (TableBag ''t'' [])"
    by (simp_all add: Request_Id_def um_inv_def)
  then show ?thesis
    using addToTable_correct [of "TableBag ''t'' []" Request_Id "AInt 5"] by auto
qed

end
