(* ===== verification/Kes_Itoa.thy ===== *)
theory Kes_Itoa
  imports Kes_Prelude
begin

unbundle bit_operations_syntax

text \<open>
  The integer printers the JSON writer uses (\<^verbatim>\<open>3rd_party/rapidjson/internal/itoa.h\<close>): two digits
  at a time from a 200-byte table, with the leading zeros suppressed by comparisons on the value.
  They are proved equal to the plain decimal notation \<open>show_nat\<close> and \<open>show_int\<close>.
\<close>

section \<open>The routines\<close>

definition cDigitsLut :: string where
  "cDigitsLut =
    ''0001020304050607080910111213141516171819'' @
    ''2021222324252627282930313233343536373839'' @
    ''4041424344454647484950515253545556575859'' @
    ''6061626364656667686970717273747576777879'' @
    ''8081828384858687888990919293949596979899''"

text \<open>\<^verbatim>\<open>if (value >= bound) *buffer++ = c;\<close>\<close>

definition put_if :: "bool \<Rightarrow> char \<Rightarrow> string" where
  "put_if b c = (if b then [c] else [])"

definition u32toa :: "u32 \<Rightarrow> string" where
  "u32toa w =
    (let value = unat w in
     if value < 10000 then
       (let d1 = value div 100 * 2; d2 = value mod 100 * 2 in
        put_if (value \<ge> 1000) (cDigitsLut ! d1) @
        put_if (value \<ge> 100) (cDigitsLut ! (d1 + 1)) @
        put_if (value \<ge> 10) (cDigitsLut ! d2) @
        [cDigitsLut ! (d2 + 1)])
     else if value < 100000000 then
       (let b = value div 10000; c = value mod 10000;
            d1 = b div 100 * 2; d2 = b mod 100 * 2;
            d3 = c div 100 * 2; d4 = c mod 100 * 2 in
        put_if (value \<ge> 10000000) (cDigitsLut ! d1) @
        put_if (value \<ge> 1000000) (cDigitsLut ! (d1 + 1)) @
        put_if (value \<ge> 100000) (cDigitsLut ! d2) @
        [cDigitsLut ! (d2 + 1),
         cDigitsLut ! d3, cDigitsLut ! (d3 + 1), cDigitsLut ! d4, cDigitsLut ! (d4 + 1)])
     else
       (let a = value div 100000000; value = value mod 100000000;
            b = value div 10000; c = value mod 10000;
            d1 = b div 100 * 2; d2 = b mod 100 * 2;
            d3 = c div 100 * 2; d4 = c mod 100 * 2 in
        (if a \<ge> 10 then [cDigitsLut ! (a * 2), cDigitsLut ! (a * 2 + 1)] else [digit_char a]) @
        [cDigitsLut ! d1, cDigitsLut ! (d1 + 1), cDigitsLut ! d2, cDigitsLut ! (d2 + 1),
         cDigitsLut ! d3, cDigitsLut ! (d3 + 1), cDigitsLut ! d4, cDigitsLut ! (d4 + 1)]))"

definition i32toa :: "i32 \<Rightarrow> string" where
  "i32toa value = (if sint value < 0 then CHR ''-'' # u32toa (NOT value + 1) else u32toa value)"

definition u64toa :: "u64 \<Rightarrow> string" where
  "u64toa w =
    (let value = unat w in
     if value < 100000000 then
       (if value < 10000 then
         (let d1 = value div 100 * 2; d2 = value mod 100 * 2 in
          put_if (value \<ge> 1000) (cDigitsLut ! d1) @
          put_if (value \<ge> 100) (cDigitsLut ! (d1 + 1)) @
          put_if (value \<ge> 10) (cDigitsLut ! d2) @
          [cDigitsLut ! (d2 + 1)])
       else
         (let b = value div 10000; c = value mod 10000;
              d1 = b div 100 * 2; d2 = b mod 100 * 2;
              d3 = c div 100 * 2; d4 = c mod 100 * 2 in
          put_if (value \<ge> 10000000) (cDigitsLut ! d1) @
          put_if (value \<ge> 1000000) (cDigitsLut ! (d1 + 1)) @
          put_if (value \<ge> 100000) (cDigitsLut ! d2) @
          [cDigitsLut ! (d2 + 1),
           cDigitsLut ! d3, cDigitsLut ! (d3 + 1), cDigitsLut ! d4, cDigitsLut ! (d4 + 1)]))
     else if value < 10000000000000000 then
       (let v0 = value div 100000000; v1 = value mod 100000000;
            b0 = v0 div 10000; c0 = v0 mod 10000;
            d1 = b0 div 100 * 2; d2 = b0 mod 100 * 2;
            d3 = c0 div 100 * 2; d4 = c0 mod 100 * 2;
            b1 = v1 div 10000; c1 = v1 mod 10000;
            d5 = b1 div 100 * 2; d6 = b1 mod 100 * 2;
            d7 = c1 div 100 * 2; d8 = c1 mod 100 * 2 in
        put_if (value \<ge> 1000000000000000) (cDigitsLut ! d1) @
        put_if (value \<ge> 100000000000000) (cDigitsLut ! (d1 + 1)) @
        put_if (value \<ge> 10000000000000) (cDigitsLut ! d2) @
        put_if (value \<ge> 1000000000000) (cDigitsLut ! (d2 + 1)) @
        put_if (value \<ge> 100000000000) (cDigitsLut ! d3) @
        put_if (value \<ge> 10000000000) (cDigitsLut ! (d3 + 1)) @
        put_if (value \<ge> 1000000000) (cDigitsLut ! d4) @
        [cDigitsLut ! (d4 + 1),
         cDigitsLut ! d5, cDigitsLut ! (d5 + 1), cDigitsLut ! d6, cDigitsLut ! (d6 + 1),
         cDigitsLut ! d7, cDigitsLut ! (d7 + 1), cDigitsLut ! d8, cDigitsLut ! (d8 + 1)])
     else
       (let a = value div 10000000000000000; value = value mod 10000000000000000;
            v0 = value div 100000000; v1 = value mod 100000000;
            b0 = v0 div 10000; c0 = v0 mod 10000;
            d1 = b0 div 100 * 2; d2 = b0 mod 100 * 2;
            d3 = c0 div 100 * 2; d4 = c0 mod 100 * 2;
            b1 = v1 div 10000; c1 = v1 mod 10000;
            d5 = b1 div 100 * 2; d6 = b1 mod 100 * 2;
            d7 = c1 div 100 * 2; d8 = c1 mod 100 * 2 in
        (if a < 10 then [digit_char a]
         else if a < 100 then [cDigitsLut ! (a * 2), cDigitsLut ! (a * 2 + 1)]
         else if a < 1000 then
           [digit_char (a div 100), cDigitsLut ! (a mod 100 * 2), cDigitsLut ! (a mod 100 * 2 + 1)]
         else
           [cDigitsLut ! (a div 100 * 2), cDigitsLut ! (a div 100 * 2 + 1),
            cDigitsLut ! (a mod 100 * 2), cDigitsLut ! (a mod 100 * 2 + 1)]) @
        [cDigitsLut ! d1, cDigitsLut ! (d1 + 1), cDigitsLut ! d2, cDigitsLut ! (d2 + 1),
         cDigitsLut ! d3, cDigitsLut ! (d3 + 1), cDigitsLut ! d4, cDigitsLut ! (d4 + 1),
         cDigitsLut ! d5, cDigitsLut ! (d5 + 1), cDigitsLut ! d6, cDigitsLut ! (d6 + 1),
         cDigitsLut ! d7, cDigitsLut ! (d7 + 1), cDigitsLut ! d8, cDigitsLut ! (d8 + 1)]))"

definition i64toa :: "i64 \<Rightarrow> string" where
  "i64toa value = (if sint value < 0 then CHR ''-'' # u64toa (NOT value + 1) else u64toa value)"

section \<open>Decimal notation\<close>

text \<open>\<open>pad w n\<close>: the last \<open>w\<close> decimal digits of \<open>n\<close>, leading zeros included.\<close>

fun pad :: "nat \<Rightarrow> nat \<Rightarrow> string" where
  "pad 0 n = []"
| "pad (Suc w) n = pad w (n div 10) @ [digit_char (n mod 10)]"

lemma pad_add: "pad (v + w) n = pad v (n div 10 ^ w) @ pad w n"
  by (induction w arbitrary: n) (simp_all add: div_mult2_eq)

lemma pad_mod: "pad w (n mod 10 ^ w) = pad w n"
proof (induction w arbitrary: n)
  case (Suc w)
  have "n mod 10 ^ Suc w div 10 = (n div 10) mod 10 ^ w"
    by (simp add: mod_mult2_eq div_mult2_eq)
  moreover have "n mod 10 ^ Suc w mod 10 = n mod 10"
    by (simp add: mod_mult2_eq)
  ultimately show ?case by (simp add: Suc.IH)
qed simp

lemma show_nat_small: "n < 10 \<Longrightarrow> show_nat n = [digit_char n]"
  by (simp add: show_nat.simps)

lemma show_nat_big: "n \<ge> 10 \<Longrightarrow> show_nat n = show_nat (n div 10) @ [digit_char (n mod 10)]"
  by (simp add: show_nat.simps [of n])

lemma show_nat_pad: "0 < n div 10 ^ w \<Longrightarrow> show_nat n = show_nat (n div 10 ^ w) @ pad w n"
proof (induction w arbitrary: n)
  case (Suc w)
  have "0 < n div 10 div 10 ^ w" using Suc.prems by (simp add: div_mult2_eq)
  moreover from this have "n \<ge> 10" by (metis div_less gr0I linorder_not_less div_0 less_irrefl)
  ultimately show ?case
    using Suc.IH [of "n div 10"] by (simp add: show_nat_big div_mult2_eq)
qed simp

lemma lut_pairs: "cDigitsLut = concat (map (pad 2) [0..<100])"
  by code_simp

lemma nth_concat_pairs:
  assumes "\<And>k. length (f k) = 2" and "k < n"
  shows "concat (map f [0..<n]) ! (k * 2) = f k ! 0" "concat (map f [0..<n]) ! (k * 2 + 1) = f k ! 1"
proof -
  have "length (concat (map f [0..<k])) = k * 2"
    using assms(1) by (induction k) auto
  moreover have "[0..<n] = [0..<k] @ k # [Suc k..<n]"
    using upt_add_eq_append [of 0 k "n - k"] upt_conv_Cons [OF assms(2)] assms(2) by simp
  then have "concat (map f [0..<n]) = concat (map f [0..<k]) @ f k @ concat (map f [Suc k..<n])"
    by simp
  ultimately show "concat (map f [0..<n]) ! (k * 2) = f k ! 0" "concat (map f [0..<n]) ! (k * 2 + 1) = f k ! 1"
    using assms(1) [of k] by (simp_all add: nth_append)
qed

lemma lut_nth:
  "k < 100 \<Longrightarrow> cDigitsLut ! (k * 2) = digit_char (k div 10)"
  "k < 100 \<Longrightarrow> cDigitsLut ! (k * 2 + 1) = digit_char (k mod 10)"
  using nth_concat_pairs [of "pad 2" k 100]
  by (simp_all add: lut_pairs numeral_2_eq_2)

text \<open>The digits of \<open>n\<close> without leading zeros, none for 0: what the guarded writes produce.\<close>

fun lead :: "nat \<Rightarrow> nat \<Rightarrow> string" where
  "lead 0 n = []"
| "lead (Suc w) n = lead w (n div 10) @ put_if (n > 0) (digit_char (n mod 10))"

lemma lead_show_nat: "n < 10 ^ w \<Longrightarrow> lead w n = (if n = 0 then [] else show_nat n)"
proof (induction w arbitrary: n)
  case (Suc w)
  have "n div 10 < 10 ^ w" using Suc.prems by (simp add: div_less_iff_less_mult mult.commute)
  then show ?case
    using Suc.IH [of "n div 10"] by (cases "n < 10") (simp_all add: put_if_def show_nat_small show_nat_big)
qed simp

lemma show_nat_lead: "n < 10 ^ Suc w \<Longrightarrow> show_nat n = lead w (n div 10) @ [digit_char (n mod 10)]"
  using lead_show_nat [of "n div 10" w]
  by (cases "n < 10") (simp_all add: show_nat_small show_nat_big div_less_iff_less_mult mult.commute)

lemma digit_mod: "digit_char (n mod 100 div 10) = digit_char (n div 10 mod 10)"
  "n mod 100 mod 10 = n mod (10 :: nat)"
  by (simp_all add: mod_mult2_eq [of n 10 10, simplified] mod_mod_cancel)

lemma lut_pair: "k < 100 \<Longrightarrow> [cDigitsLut ! (k * 2), cDigitsLut ! (k * 2 + 1)] = pad 2 k"
  by (simp only: lut_nth) (simp add: numeral_2_eq_2)

lemma four_digits:
  assumes "v < 10000"
  shows "put_if (v \<ge> 1000) (cDigitsLut ! (v div 100 * 2)) @ put_if (v \<ge> 100) (cDigitsLut ! (v div 100 * 2 + 1)) @
    put_if (v \<ge> 10) (cDigitsLut ! (v mod 100 * 2)) @ [cDigitsLut ! (v mod 100 * 2 + 1)] = show_nat v"
proof -
  have k: "v div 100 < 100" "v mod 100 < 100" "v div 1000 mod 10 = v div 1000" using assms by simp_all
  have "show_nat v = lead 3 (v div 10) @ [digit_char (v mod 10)]"
    using assms by (intro show_nat_lead) simp
  then show ?thesis
    by (simp only: lut_nth [OF k(1)] lut_nth [OF k(2)] digit_mod)
       (simp add: numeral_3_eq_3 div_mult2_eq [symmetric] div_greater_zero_iff k(3) del: div_mult2_eq)
qed

lemma four_pad:
  assumes "c < 10000"
  shows "[cDigitsLut ! (c div 100 * 2), cDigitsLut ! (c div 100 * 2 + 1),
    cDigitsLut ! (c mod 100 * 2), cDigitsLut ! (c mod 100 * 2 + 1)] = pad 4 c"
proof -
  have "pad 4 c = pad 2 (c div 100) @ pad 2 (c mod 100)"
    using pad_add [of 2 2 c] pad_mod [of 2 c] by simp
  then show ?thesis
    using assms lut_pair [of "c div 100"] lut_pair [of "c mod 100"] by simp
qed

lemma eight_pad:
  assumes "v < 100000000"
  shows "pad 8 v = pad 4 (v div 10000) @ pad 4 (v mod 10000)"
  using pad_add [of 4 4 v] pad_mod [of 4 v] by simp

text \<open>Five to eight digits: the upper four are trimmed against bounds on the whole value.\<close>

lemma eight_digits:
  assumes "v < 100000000" and "10000 \<le> v"
  shows "put_if (v \<ge> 10000000) (cDigitsLut ! (v div 10000 div 100 * 2)) @
    put_if (v \<ge> 1000000) (cDigitsLut ! (v div 10000 div 100 * 2 + 1)) @
    put_if (v \<ge> 100000) (cDigitsLut ! (v div 10000 mod 100 * 2)) @
    [cDigitsLut ! (v div 10000 mod 100 * 2 + 1)] @ pad 4 (v mod 10000) = show_nat v"
proof -
  have b: "v div 10000 < 10000" using assms by simp
  have "show_nat v = show_nat (v div 10000) @ pad 4 (v mod 10000)"
    using show_nat_pad [of v 4] pad_mod [of 4 v] assms(2) by (simp add: div_greater_zero_iff)
  moreover have "v div 10000 \<ge> 1000 \<longleftrightarrow> v \<ge> 10000000" "v div 10000 \<ge> 100 \<longleftrightarrow> v \<ge> 1000000"
    "v div 10000 \<ge> 10 \<longleftrightarrow> v \<ge> 100000"
    by (simp_all add: less_eq_div_iff_mult_less_eq)
  ultimately show ?thesis using four_digits [OF b] by simp
qed

lemma lead_7:
  "lead 7 n = put_if (n \<ge> 1000000) (digit_char (n div 1000000 mod 10)) @
     put_if (n \<ge> 100000) (digit_char (n div 100000 mod 10)) @
     put_if (n \<ge> 10000) (digit_char (n div 10000 mod 10)) @
     put_if (n \<ge> 1000) (digit_char (n div 1000 mod 10)) @
     put_if (n \<ge> 100) (digit_char (n div 100 mod 10)) @
     put_if (n \<ge> 10) (digit_char (n div 10 mod 10)) @
     put_if (n \<ge> 1) (digit_char (n mod 10))"
proof -
  have seven: "(7 :: nat) = Suc (Suc (Suc (Suc (Suc (Suc (Suc 0))))))" by simp
  show ?thesis
    by (simp only: seven lead.simps append.simps append_assoc)
       (simp add: div_mult2_eq [symmetric] div_greater_zero_iff Suc_le_eq del: div_mult2_eq)
qed

text \<open>Nine to sixteen digits.\<close>

lemma sixteen_digits:
  assumes "v < 10000000000000000" and "100000000 \<le> v"
  defines "u \<equiv> v div 100000000"
  shows "put_if (v \<ge> 1000000000000000) (cDigitsLut ! (u div 10000 div 100 * 2)) @
    put_if (v \<ge> 100000000000000) (cDigitsLut ! (u div 10000 div 100 * 2 + 1)) @
    put_if (v \<ge> 10000000000000) (cDigitsLut ! (u div 10000 mod 100 * 2)) @
    put_if (v \<ge> 1000000000000) (cDigitsLut ! (u div 10000 mod 100 * 2 + 1)) @
    put_if (v \<ge> 100000000000) (cDigitsLut ! (u mod 10000 div 100 * 2)) @
    put_if (v \<ge> 10000000000) (cDigitsLut ! (u mod 10000 div 100 * 2 + 1)) @
    put_if (v \<ge> 1000000000) (cDigitsLut ! (u mod 10000 mod 100 * 2)) @
    [cDigitsLut ! (u mod 10000 mod 100 * 2 + 1)] @ pad 8 (v mod 100000000) = show_nat v"
proof -
  have u: "u < 100000000" "0 < u" using assms by (simp_all add: u_def div_greater_zero_iff)
  have k: "u div 10000 div 100 < 100" "u div 10000 mod 100 < 100" "u div 100 mod 100 < 100" "u mod 100 < 100"
    using u by simp_all
  have m: "u div 10000000 mod 10 = u div 10000000" using u by simp
  have low: "u mod 10000 mod 100 = u mod 100" "u mod 10000 div 100 = u div 100 mod 100"
    by (simp_all add: mod_mod_cancel mod_mult2_eq [of u 100 100, simplified])
  have "show_nat v = show_nat u @ pad 8 (v mod 100000000)"
    using show_nat_pad [of v 8] pad_mod [of 8 v] u by (simp add: u_def)
  moreover have "show_nat u = lead 7 (u div 10) @ [digit_char (u mod 10)]"
    using u by (intro show_nat_lead) simp
  moreover have "v \<ge> 1000000000 \<longleftrightarrow> u \<ge> 10" "v \<ge> 10000000000 \<longleftrightarrow> u \<ge> 100" "v \<ge> 100000000000 \<longleftrightarrow> u \<ge> 1000"
    "v \<ge> 1000000000000 \<longleftrightarrow> u \<ge> 10000" "v \<ge> 10000000000000 \<longleftrightarrow> u \<ge> 100000"
    "v \<ge> 100000000000000 \<longleftrightarrow> u \<ge> 1000000" "v \<ge> 1000000000000000 \<longleftrightarrow> u \<ge> 10000000"
    by (simp_all add: u_def less_eq_div_iff_mult_less_eq)
  ultimately show ?thesis
    by (simp only: lut_nth [OF k(1)] lut_nth [OF k(2)] lut_nth [OF k(3)] lut_nth [OF k(4)] low digit_mod)
       (simp add: lead_7 div_mult2_eq [symmetric] less_eq_div_iff_mult_less_eq m del: div_mult2_eq)
qed

lemma two_digits:
  "a < 100 \<Longrightarrow> (if 10 \<le> a then [cDigitsLut ! (a * 2), cDigitsLut ! (a * 2 + 1)] else [digit_char a]) = show_nat a"
  using lut_nth [of a] by (cases "a < 10") (simp_all add: show_nat_small show_nat_big)

text \<open>The up to four digits above \<open>10 ^ 16\<close>.\<close>

lemma top_digits:
  assumes "a < 10000"
  shows "(if a < 10 then [digit_char a]
     else if a < 100 then [cDigitsLut ! (a * 2), cDigitsLut ! (a * 2 + 1)]
     else if a < 1000 then
       [digit_char (a div 100), cDigitsLut ! (a mod 100 * 2), cDigitsLut ! (a mod 100 * 2 + 1)]
     else
       [cDigitsLut ! (a div 100 * 2), cDigitsLut ! (a div 100 * 2 + 1),
        cDigitsLut ! (a mod 100 * 2), cDigitsLut ! (a mod 100 * 2 + 1)]) = show_nat a"
proof (cases "a < 100")
  case True
  then show ?thesis using two_digits [OF True] by (auto simp: show_nat_small)
next
  case False
  have "show_nat a = show_nat (a div 100) @ pad 2 (a mod 100)"
    using show_nat_pad [of a 2] pad_mod [of 2 a] False by (simp add: div_greater_zero_iff)
  moreover have "a div 100 < 100" "a div 100 < 10 \<longleftrightarrow> a < 1000"
    using assms by (simp_all add: div_less_iff_less_mult)
  ultimately show ?thesis
    using False two_digits [of "a div 100"] lut_pair [of "a mod 100"] by (auto simp: show_nat_small not_less)
qed

lemma u32toa_show: "u32toa w = show_nat (unat w)"
proof -
  define v where "v = unat w"
  have bound: "v < 4294967296" using unsigned_less [of w] by (simp add: v_def)
  consider "v < 10000" | "10000 \<le> v" "v < 100000000" | "100000000 \<le> v" by linarith
  then show ?thesis
  proof cases
    case 1
    then show ?thesis using four_digits [OF 1] by (simp add: u32toa_def Let_def flip: v_def)
  next
    case 2
    then show ?thesis
      using eight_digits [OF 2(2,1)] four_pad [of "v mod 10000"]
      by (simp add: u32toa_def Let_def flip: v_def)
  next
    case 3
    let ?a = "v div 100000000" and ?u = "v mod 100000000"
    have a: "?a < 100" "0 < ?a" using 3 bound by (simp_all add: div_greater_zero_iff)
    have "show_nat v = show_nat ?a @ pad 8 ?u"
      using show_nat_pad [of v 8] pad_mod [of 8 v] a by simp
    moreover note two_digits [OF a(1)]
    moreover have "pad 8 ?u = pad 4 (?u div 10000) @ pad 4 (?u mod 10000)"
      by (rule eight_pad) simp
    ultimately show ?thesis
      using 3 four_pad [of "?u div 10000"] four_pad [of "?u mod 10000"]
      by (simp add: u32toa_def Let_def flip: v_def)
  qed
qed

lemma u64toa_show: "u64toa w = show_nat (unat w)"
proof -
  define v where "v = unat w"
  have bound: "v < 18446744073709551616" using unsigned_less [of w] by (simp add: v_def)
  let ?u = "v mod 100000000"
  have u: "pad 8 ?u = pad 4 (?u div 10000) @ pad 4 (?u mod 10000)"
    by (rule eight_pad) simp
  have ub: "?u div 10000 < 10000" "?u mod 10000 < 10000" by (simp_all add: div_less_iff_less_mult)
  note u4 = four_pad [OF ub(1)] four_pad [OF ub(2)]
  consider "v < 10000" | "10000 \<le> v" "v < 100000000"
    | "100000000 \<le> v" "v < 10000000000000000" | "10000000000000000 \<le> v" by linarith
  then show ?thesis
  proof cases
    case 1
    then show ?thesis using four_digits [OF 1] by (simp add: u64toa_def Let_def flip: v_def)
  next
    case 2
    then show ?thesis
      using eight_digits [OF 2(2,1)] four_pad [of "v mod 10000"]
      by (simp add: u64toa_def Let_def flip: v_def)
  next
    case 3
    then show ?thesis
      by (simp add: u64toa_def Let_def sixteen_digits [OF 3(2,1), symmetric] u
          u4 [symmetric] flip: v_def)
  next
    case 4
    define a where "a = v div 10000000000000000"
    define t where "t = v mod 10000000000000000"
    have a: "a < 10000" "0 < a" using 4 bound by (simp_all add: a_def div_greater_zero_iff)
    have tb: "t div 100000000 < 100000000" "t mod 100000000 < 100000000"
      "t div 100000000 div 10000 < 10000" "t mod 100000000 div 10000 < 10000"
      "t div 100000000 mod 10000 < 10000" "t mod 100000000 mod 10000 < 10000"
      by (simp_all add: t_def div_less_iff_less_mult)
    have "show_nat v = show_nat a @ pad 16 t"
      using show_nat_pad [of v 16] pad_mod [of 16 v] a by (simp add: a_def t_def)
    moreover have "pad 16 t = pad 8 (t div 100000000) @ pad 8 (t mod 100000000)"
      using pad_add [of 8 8 t] pad_mod [of 8 t] by simp
    ultimately have "show_nat v = show_nat a @
        pad 4 (t div 100000000 div 10000) @ pad 4 (t div 100000000 mod 10000) @
        pad 4 (t mod 100000000 div 10000) @ pad 4 (t mod 100000000 mod 10000)"
      by (simp add: eight_pad [OF tb(1)] eight_pad [OF tb(2)])
    then show ?thesis
      using 4 by (simp add: u64toa_def Let_def top_digits [OF a(1), symmetric]
          four_pad [OF tb(3), symmetric] four_pad [OF tb(4), symmetric]
          four_pad [OF tb(5), symmetric] four_pad [OF tb(6), symmetric] flip: v_def a_def t_def)
  qed
qed

text \<open>The magnitude of a negative value: \<^verbatim>\<open>~u + 1\<close> read as unsigned.\<close>

lemma unat_negated:
  fixes w :: "'a::len word"
  assumes "sint w < 0"
  shows "unat (NOT w + 1) = nat (- sint w)"
proof -
  have "NOT w + 1 = - w" by (simp add: minus_eq_not_plus_1)
  also have "\<dots> = word_of_int (- sint w)" by simp
  finally have w: "NOT w + 1 = word_of_int (- sint w)" .
  have "- sint w \<le> 2 ^ (LENGTH('a) - 1)" using sint_ge [of w] by simp
  also have "\<dots> < 2 ^ LENGTH('a)" by (rule power_strict_increasing) simp_all
  finally have "uint (NOT w + 1) = - sint w"
    using assms by (simp only: w uint_word_of_int) simp
  then show ?thesis by (metis nat_uint_eq)
qed

lemma nat_sint:
  fixes x :: "'a::len word"
  assumes "\<not> sint x < 0"
  shows "nat (sint x) = unat x"
proof -
  have "x = word_of_int (sint x)" by simp
  moreover have "sint x < 2 ^ LENGTH('a)"
    using sint_lt [of x] by (rule less_le_trans) (rule power_increasing, simp_all)
  ultimately have "uint x = sint x"
    using assms by (metis linorder_not_less mod_pos_pos_trivial uint_word_of_int)
  then show ?thesis by (metis nat_uint_eq)
qed

text \<open>The longest texts: the sizes of the scratch buffers the callers keep.\<close>

lemma length_show_nat: "n < 10 ^ Suc k \<Longrightarrow> length (show_nat n) \<le> Suc k"
proof (induction k arbitrary: n)
  case 0
  then show ?case by (subst show_nat.simps) simp
next
  case (Suc k)
  have "n div 10 < 10 ^ Suc k" using Suc.prems by (simp add: less_mult_imp_div_less)
  then show ?case using Suc.IH [of "n div 10"] by (subst show_nat.simps) simp
qed

lemma length_toa:
  "length (u32toa u) \<le> 10" "length (i32toa i) \<le> 11" "length (u64toa v) \<le> 20" "length (i64toa j) \<le> 21"
proof -
  have "unat u < 10 ^ Suc 9" for u :: u32
  proof -
    have "unat u < 4294967296" using unsigned_less [of u] by simp
    then show ?thesis by simp
  qed
  then have n: "length (u32toa u) \<le> 10" for u
    using length_show_nat [of "unat u" 9] by (simp add: u32toa_show)
  have "unat v < 10 ^ Suc 19" for v :: u64
  proof -
    have "unat v < 18446744073709551616" using unsigned_less [of v] by simp
    then show ?thesis by simp
  qed
  then have m: "length (u64toa v) \<le> 20" for v
    using length_show_nat [of "unat v" 19] by (simp add: u64toa_show)
  show "length (u32toa u) \<le> 10" "length (u64toa v) \<le> 20" by (rule n, rule m)
  show "length (i32toa i) \<le> 11" "length (i64toa j) \<le> 21"
    using n [of i] n [of "NOT i + 1"] m [of j] m [of "NOT j + 1"] by (simp_all add: i32toa_def i64toa_def)
qed

text \<open>
  C24. The two-digits-at-a-time printers of the JSON writer produce the decimal notation of their
  argument, at both widths and for every value: no leading zeros, a sign exactly for negative
  numbers, and the most negative value included.
\<close>

theorem itoa_decimal:
  "u32toa u = show_nat (unat u) \<and> i32toa i = show_int (sint i) \<and>
   u64toa v = show_nat (unat v) \<and> i64toa j = show_int (sint j)"
  by (simp add: u32toa_show u64toa_show i32toa_def i64toa_def show_int_def unat_negated nat_sint)

end
