(* ===== verification/Kes_Json.thy ===== *)
theory Kes_Json
  imports Kes_Itoa
begin

text \<open>
  JSON values as the server reads them (\<^verbatim>\<open>rapidjson::Value\<close>: \<^verbatim>\<open>3rd_party/rapidjson/document.h\<close>) and
  the event writer it prints them with (\<^verbatim>\<open>3rd_party/rapidjson/writer.h\<close>, over a
  \<^verbatim>\<open>StringBuffer\<close>). \<open>render\<close> is the specification: the text of a value, without white space. The
  lemmas show that one value written as a sequence of writer calls appends exactly its text.
\<close>

section \<open>Values\<close>

text \<open>
  A number is kept as \<open>JInt\<close> when the parser stored it as an integer (so it lies in the union of
  the \<^verbatim>\<open>int64_t\<close> and \<^verbatim>\<open>uint64_t\<close> ranges) and as \<open>JDouble\<close>, a bit pattern, otherwise. The type
  flags set by the integer constructors say which C types hold the number.
\<close>

datatype json =
    JNull
  | JBool bool
  | JInt int
  | JDouble u64
  | JStr string
  | JArr "json list"
  | JObj "(string \<times> json) list"

fun IsArray :: "json \<Rightarrow> bool" where
  "IsArray (JArr js) = True" | "IsArray _ = False"

fun IsObject :: "json \<Rightarrow> bool" where
  "IsObject (JObj ms) = True" | "IsObject _ = False"

fun IsInt :: "json \<Rightarrow> bool" where
  "IsInt (JInt n) \<longleftrightarrow> - (2 ^ 31) \<le> n \<and> n < 2 ^ 31" | "IsInt _ = False"

fun IsUint :: "json \<Rightarrow> bool" where
  "IsUint (JInt n) \<longleftrightarrow> 0 \<le> n \<and> n < 2 ^ 32" | "IsUint _ = False"

fun IsInt64 :: "json \<Rightarrow> bool" where
  "IsInt64 (JInt n) \<longleftrightarrow> - (2 ^ 63) \<le> n \<and> n < 2 ^ 63" | "IsInt64 _ = False"

fun IsUint64 :: "json \<Rightarrow> bool" where
  "IsUint64 (JInt n) \<longleftrightarrow> 0 \<le> n \<and> n < 2 ^ 64" | "IsUint64 _ = False"

section \<open>The writer\<close>

datatype level = Level (valueCount: nat) (inArray: bool)

record jwriter =
  jw_os :: string
  jw_stack :: "level list"
  jw_hasRoot :: bool

definition jw_init :: jwriter where
  "jw_init = \<lparr>jw_os = [], jw_stack = [], jw_hasRoot = False\<rparr>"

definition jw_put :: "string \<Rightarrow> jwriter \<Rightarrow> jwriter" where
  "jw_put s w = w\<lparr>jw_os := jw_os w @ s\<rparr>"

text \<open>
  \<^verbatim>\<open>Prefix\<close>: the separator before a value and the count of values at its level. The assertions of
  the library are off in a release build and have no effect here.
\<close>

definition jw_Prefix :: "jwriter \<Rightarrow> jwriter" where
  "jw_Prefix w =
     (case jw_stack w of
        [] \<Rightarrow> w\<lparr>jw_hasRoot := True\<rparr>
      | Level n arr # ls \<Rightarrow>
          (jw_put (if n > 0 then (if arr then '','' else if n mod 2 = 0 then '','' else '':'') else []) w)
            \<lparr>jw_stack := Level (Suc n) arr # ls\<rparr>)"

definition hexDigits :: string where
  "hexDigits = ''0123456789ABCDEF''"

definition escape :: string where
  "escape =
     ''uuuuuuuubtnufruu'' @ replicate 16 CHR ''u'' @
     [NUL, NUL, CHR 0x22, NUL, NUL, NUL, NUL, NUL, NUL, NUL, NUL, NUL, NUL, NUL, NUL, NUL] @
     replicate 32 NUL @
     [NUL, NUL, NUL, NUL, NUL, NUL, NUL, NUL, NUL, NUL, NUL, NUL, CHR 0x5C, NUL, NUL, NUL] @
     replicate 160 NUL"

text \<open>The source and target encodings are both UTF-8 without validation: other bytes are copied.\<close>

definition write_char :: "char \<Rightarrow> string" where
  "write_char c =
     (let e = escape ! of_char c in
      if e \<noteq> NUL then
        [CHR 0x5C, e] @
        (if e = CHR ''u'' then [CHR ''0'', CHR ''0'', hexDigits ! (of_char c div 16), hexDigits ! (of_char c mod 16)]
         else [])
      else [c])"

definition WriteString :: "string \<Rightarrow> string" where
  "WriteString s = [CHR 0x22] @ concat (map write_char s) @ [CHR 0x22]"

definition jw_String :: "string \<Rightarrow> jwriter \<Rightarrow> jwriter" where
  "jw_String s w = jw_put (WriteString s) (jw_Prefix w)"

definition jw_Key :: "string \<Rightarrow> jwriter \<Rightarrow> jwriter" where
  "jw_Key s w = jw_String s w"

definition jw_Null :: "jwriter \<Rightarrow> jwriter" where
  "jw_Null w = jw_put ''null'' (jw_Prefix w)"

definition jw_Bool :: "bool \<Rightarrow> jwriter \<Rightarrow> jwriter" where
  "jw_Bool b w = jw_put (if b then ''true'' else ''false'') (jw_Prefix w)"

definition jw_Int :: "i32 \<Rightarrow> jwriter \<Rightarrow> jwriter" where
  "jw_Int i w = jw_put (i32toa i) (jw_Prefix w)"

definition jw_Uint :: "u32 \<Rightarrow> jwriter \<Rightarrow> jwriter" where
  "jw_Uint u w = jw_put (u32toa u) (jw_Prefix w)"

definition jw_Int64 :: "i64 \<Rightarrow> jwriter \<Rightarrow> jwriter" where
  "jw_Int64 i w = jw_put (i64toa i) (jw_Prefix w)"

definition jw_Uint64 :: "u64 \<Rightarrow> jwriter \<Rightarrow> jwriter" where
  "jw_Uint64 u w = jw_put (u64toa u) (jw_Prefix w)"

definition jw_push :: "bool \<Rightarrow> jwriter \<Rightarrow> jwriter" where
  "jw_push arr w = w\<lparr>jw_stack := Level 0 arr # jw_stack w\<rparr>"

definition jw_pop :: "jwriter \<Rightarrow> jwriter" where
  "jw_pop w = w\<lparr>jw_stack := tl (jw_stack w)\<rparr>"

definition jw_StartObject :: "jwriter \<Rightarrow> jwriter" where
  "jw_StartObject w = jw_put ''{'' (jw_push False (jw_Prefix w))"

definition jw_EndObject :: "jwriter \<Rightarrow> jwriter" where
  "jw_EndObject w = jw_put ''}'' (jw_pop w)"

definition jw_StartArray :: "jwriter \<Rightarrow> jwriter" where
  "jw_StartArray w = jw_put ''['' (jw_push True (jw_Prefix w))"

definition jw_EndArray :: "jwriter \<Rightarrow> jwriter" where
  "jw_EndArray w = jw_put '']'' (jw_pop w)"

text \<open>\<^verbatim>\<open>StringBuffer::GetString\<close> gives a C string: the text up to the first NUL byte.\<close>

definition jw_GetString :: "jwriter \<Rightarrow> string" where
  "jw_GetString w = cstr (jw_os w)"

section \<open>The text of a value\<close>

fun commas :: "string list \<Rightarrow> string" where
  "commas [] = []"
| "commas [s] = s"
| "commas (s # t # ss) = s @ '','' @ commas (t # ss)"

lemma size_member: "(k, j) \<in> set ms \<Longrightarrow> size j < Suc (size_list (size_prod (\<lambda>x. 0) size) ms)"
  by (induction ms) auto

text \<open>Doubles are printed by \<open>dtoa\<close>, which no part of the server calls.\<close>

function render :: "(u64 \<Rightarrow> string) \<Rightarrow> json \<Rightarrow> string" where
  "render dtoa JNull = ''null''"
| "render dtoa (JBool b) = (if b then ''true'' else ''false'')"
| "render dtoa (JInt n) = show_int n"
| "render dtoa (JDouble d) = dtoa d"
| "render dtoa (JStr s) = WriteString s"
| "render dtoa (JArr js) = ''['' @ commas (map (render dtoa) js) @ '']''"
| "render dtoa (JObj ms) = ''{'' @ commas (map (\<lambda>m. WriteString (fst m) @ '':'' @ render dtoa (snd m)) ms) @ ''}''"
  by pat_completeness auto
termination
proof (relation "measure (\<lambda>(d, j). size j)")
  show "((dtoa, j), dtoa, JArr js) \<in> measure (\<lambda>(d, j). size j)" if "j \<in> set js"
    for dtoa :: "u64 \<Rightarrow> string" and j js
    using that by (induction js) auto
  show "((dtoa, snd m), dtoa, JObj ms) \<in> measure (\<lambda>(d, j). size j)" if "m \<in> set ms"
    for dtoa :: "u64 \<Rightarrow> string" and m ms
    using that size_member [of "fst m" "snd m" ms] by simp
qed simp

definition member_text :: "(u64 \<Rightarrow> string) \<Rightarrow> string \<times> json \<Rightarrow> string" where
  "member_text dtoa m = WriteString (fst m) @ '':'' @ render dtoa (snd m)"

lemma length_WriteString: "length (WriteString s) \<le> 6 * length s + 2"
proof -
  have "length (concat (map write_char s)) \<le> 6 * length s"
    by (induction s) (auto simp: write_char_def Let_def)
  then show ?thesis by (simp add: WriteString_def)
qed

section \<open>Writer calls append texts\<close>

text \<open>A text written as one value at the current level.\<close>

definition put_value :: "string \<Rightarrow> jwriter \<Rightarrow> jwriter" where
  "put_value s w = jw_put s (jw_Prefix w)"

lemma scalar_puts [writer_simps]:
  "jw_String s w = put_value (WriteString s) w"
  "jw_Key s w = put_value (WriteString s) w"
  "jw_Null w = put_value ''null'' w"
  "jw_Bool b w = put_value (if b then ''true'' else ''false'') w"
  "jw_Int i w = put_value (show_int (sint i)) w"
  "jw_Uint u w = put_value (show_nat (unat u)) w"
  "jw_Int64 j w = put_value (show_int (sint j)) w"
  "jw_Uint64 v w = put_value (show_nat (unat v)) w"
  by (simp_all add: jw_String_def jw_Key_def jw_Null_def jw_Bool_def jw_Int_def jw_Uint_def
      jw_Int64_def jw_Uint64_def put_value_def u32toa_show u64toa_show i32toa_def i64toa_def
      show_int_def unat_negated nat_sint)

lemma jw_put_put [simp]: "jw_put s (jw_put t w) = jw_put (t @ s) w"
  by (simp add: jw_put_def)

lemma jw_put_Nil [simp]: "jw_put [] w = w"
  by (simp add: jw_put_def)

text \<open>
  Values written one after the other inside an array or object, starting at an empty level, and the
  closing bracket that removes the level.
\<close>

lemma jw_stack_put [simp]: "jw_stack (jw_put s w) = jw_stack w"
  by (simp add: jw_put_def)

definition at_level :: "nat \<Rightarrow> bool \<Rightarrow> jwriter \<Rightarrow> bool" where
  "at_level n arr w \<longleftrightarrow> (\<exists>ls. jw_stack w = Level n arr # ls)"

definition bump :: "nat \<Rightarrow> jwriter \<Rightarrow> jwriter" where
  "bump k w = w\<lparr>jw_stack := (case jw_stack w of Level n arr # ls \<Rightarrow> Level (n + k) arr # ls | [] \<Rightarrow> [])\<rparr>"

lemma at_level_put [simp]: "at_level n arr (jw_put s w) = at_level n arr w"
  by (simp add: at_level_def)

lemma at_level_bump: "at_level n arr w \<Longrightarrow> at_level (n + k) arr (bump k w)"
  by (auto simp: at_level_def bump_def)

lemma bump_put [simp]: "bump k (jw_put s w) = jw_put s (bump k w)"
  by (simp add: bump_def jw_put_def)

lemma bump_bump [simp]: "bump j (bump k w) = bump (k + j) w"
  by (auto simp: bump_def split: list.split level.split)

lemma bump_0 [simp]: "bump 0 w = w"
  by (auto simp: bump_def split: list.split level.split)

lemma put_value_array:
  "at_level n True w \<Longrightarrow> put_value s w = jw_put ((if n > 0 then '','' else []) @ s) (bump 1 w)"
  by (auto simp: at_level_def put_value_def jw_Prefix_def bump_def jw_put_def)

lemma put_value_key:
  "at_level n False w \<Longrightarrow> even n \<Longrightarrow> put_value s w = jw_put ((if n > 0 then '','' else []) @ s) (bump 1 w)"
  by (auto simp: at_level_def put_value_def jw_Prefix_def bump_def jw_put_def)

lemma put_value_member:
  "at_level n False w \<Longrightarrow> odd n \<Longrightarrow> put_value s w = jw_put ('':'' @ s) (bump 1 w)"
  by (auto simp: at_level_def put_value_def jw_Prefix_def bump_def jw_put_def odd_pos)

lemma at_level_push [simp]: "at_level 0 arr (jw_push arr w)"
  by (simp add: at_level_def jw_push_def)

lemma pop_bump_push [simp]: "jw_pop (bump k (jw_push arr w)) = w"
  by (simp add: jw_pop_def bump_def jw_push_def)

lemma jw_pop_put [simp]: "jw_pop (jw_put s w) = jw_put s (jw_pop w)"
  by (simp add: jw_pop_def jw_put_def)

text \<open>Texts joined from position \<open>n\<close> on: a comma before every text but the first of the level.\<close>

fun joined :: "bool \<Rightarrow> string list \<Rightarrow> string" where
  "joined first [] = []"
| "joined first (s # ss) = (if first then [] else '','') @ s @ joined False ss"

lemma joined_commas: "joined True ss = commas ss"
proof -
  have "joined False (s # ss) = '','' @ commas (s # ss)" for s ss
    by (induction ss arbitrary: s) auto
  then show ?thesis by (cases ss; cases "tl ss") auto
qed

lemma container_text:
  "jw_EndArray (jw_put s (bump k (jw_StartArray w))) = put_value (''['' @ s @ '']'') w"
  "jw_EndObject (jw_put s (bump k (jw_StartObject w))) = put_value (''{'' @ s @ ''}'') w"
  by (simp_all add: jw_EndArray_def jw_StartArray_def jw_EndObject_def jw_StartObject_def put_value_def)

lemma at_level_start [simp]: "at_level 0 True (jw_StartArray w)" "at_level 0 False (jw_StartObject w)"
  by (simp_all add: jw_StartArray_def jw_StartObject_def)

section \<open>No NUL byte is ever written\<close>

lemma hexDigits_no_nul: "k < 16 \<Longrightarrow> hexDigits ! k \<noteq> NUL"
proof -
  assume "k < 16"
  then have "hexDigits ! k \<in> set hexDigits" by (intro nth_mem) (simp add: hexDigits_def)
  moreover have "NUL \<notin> set hexDigits" by (simp add: hexDigits_def)
  ultimately show ?thesis by metis
qed

lemma write_char_no_nul: "NUL \<notin> set (write_char c)"
proof -
  have h: "hexDigits ! (of_char c div 16) \<noteq> NUL" "hexDigits ! (of_char c mod 16) \<noteq> NUL"
    by (rule hexDigits_no_nul, simp add: div_less_iff_less_mult)+
  have "escape ! of_char NUL = CHR ''u''"
    by (simp add: escape_def)
  then have "escape ! of_char c = NUL \<Longrightarrow> c \<noteq> NUL" by auto
  then show ?thesis using h [symmetric] by (auto simp: write_char_def Let_def)
qed

lemma WriteString_no_nul: "NUL \<notin> set (WriteString s)"
  by (auto simp: WriteString_def write_char_no_nul)

lemma digit_char_no_nul: "d < 10 \<Longrightarrow> digit_char d \<noteq> NUL"
  by (simp add: digit_char_def char_of_eq_iff take_bit_eq_mod)

lemma show_nat_no_nul: "NUL \<notin> set (show_nat n)"
  by (induction n rule: show_nat.induct)
    (subst show_nat.simps, auto simp: digit_char_no_nul [symmetric])

lemma show_int_no_nul: "NUL \<notin> set (show_int i)"
  by (simp add: show_int_def show_nat_no_nul)

lemma commas_no_nul: "(\<forall>s \<in> set ss. NUL \<notin> set s) \<Longrightarrow> NUL \<notin> set (commas ss)"
  by (induction ss rule: commas.induct) auto

lemma render_no_nul:
  assumes "\<And>d. NUL \<notin> set (dtoa d)"
  shows "NUL \<notin> set (render dtoa j)"
  using assms
proof (induction dtoa j rule: render.induct)
  case (6 dtoa js)
  then show ?case by (auto intro!: commas_no_nul)
next
  case (7 dtoa ms)
  then show ?case by (auto intro!: commas_no_nul simp: WriteString_no_nul)
qed (simp_all add: show_int_no_nul WriteString_no_nul)

end
