(* ===== verification/Kes_BagJson.thy ===== *)
theory Kes_BagJson
  imports Kes_PropertyBag Kes_Json
begin

text \<open>
  Property bags from JSON and back (\<^verbatim>\<open>src/kesrv/propertybag.cxx\<close>). Conversion from JSON reports
  every mismatch to an error handler; the handler is a function on its own state \<open>'s\<close> and decides
  whether the conversion goes on (the offending value becomes an empty property, array or bag) or is
  aborted by an exception.
\<close>

section \<open>Error handlers\<close>

datatype CallbackResult = Continue | Abort

type_synonym 's error_handler = "string \<Rightarrow> 's \<Rightarrow> CallbackResult \<times> 's"

text \<open>
  The surroundings of a conversion: the property registry, the implementation's
  \<^verbatim>\<open>type_info::name()\<close> (in one message), and the printed form of a double.
\<close>

record env =
  env_reg :: registry
  env_type_name :: "ctype \<Rightarrow> string"

definition handleError :: "'s error_handler \<Rightarrow> string \<Rightarrow> 's \<Rightarrow> unit outcome \<times> 's" where
  "handleError eh message s =
     (case eh message s of
        (Abort, s') \<Rightarrow> (Throw (KesExn (Exception message [])), s')
      | (Continue, s') \<Rightarrow> (Ok (), s'))"

text \<open>\<^verbatim>\<open>handleError(...); return dflt;\<close>\<close>

definition fail_with :: "'s error_handler \<Rightarrow> string \<Rightarrow> 'a \<Rightarrow> 's \<Rightarrow> 'a outcome \<times> 's" where
  "fail_with eh message dflt s = (case handleError eh message s of (r, s') \<Rightarrow> (omap (\<lambda>_. dflt) r, s'))"

section \<open>From JSON\<close>

definition json_int :: "json \<Rightarrow> 'a::len word" where
  "json_int v = (case v of JInt n \<Rightarrow> word_of_int n | _ \<Rightarrow> 0)"

text \<open>
  The scalar readers of \<^verbatim>\<open>propertyFromJsonValue\<close> and \<^verbatim>\<open>arrayItemFromJson\<close> test the same types in the
  same order; \<open>Inr\<close> gives the value, \<open>Inl\<close> the words that end the complaint.
\<close>

fun scalar_from_json :: "ctype \<Rightarrow> json \<Rightarrow> string + any_val" where
  "scalar_from_json TBool v = (case v of JBool b \<Rightarrow> Inr (ABool b) | _ \<Rightarrow> Inl (''a '' @ quoted ''bool''))"
| "scalar_from_json TInt v = (if IsInt v then Inr (AInt (json_int v)) else Inl (''an '' @ quoted ''int''))"
| "scalar_from_json TInt64 v =
     (if IsInt64 v then Inr (AInt64 (json_int v)) else Inl (''an '' @ quoted ''int64_t''))"
| "scalar_from_json TUInt v =
     (if IsUint v then Inr (AUInt (json_int v)) else Inl (''an '' @ quoted ''unsigned int''))"
| "scalar_from_json TUInt64 v =
     (if IsUint64 v then Inr (AUInt64 (json_int v)) else Inl (''an '' @ quoted ''uint64_t''))"
| "scalar_from_json TDouble v = (case v of JDouble d \<Rightarrow> Inr (ADouble d) | _ \<Rightarrow> Inl (''a '' @ quoted ''double''))"
| "scalar_from_json TString v =
     (case v of JStr t \<Rightarrow> Inr (AString t) | _ \<Rightarrow> Inl (''an '' @ quoted ''std::string''))"
| "scalar_from_json _ v = Inl []"

definition known_scalar :: "ctype \<Rightarrow> bool" where
  "known_scalar ty \<longleftrightarrow> ty \<in> {TBool, TInt, TInt64, TUInt, TUInt64, TDouble, TString}"

definition propertyFromJsonValue ::
    "env \<Rightarrow> 's error_handler \<Rightarrow> string \<Rightarrow> json \<Rightarrow> 's \<Rightarrow> property outcome \<times> 's" where
  "propertyFromJsonValue E eh name v s =
     (if IsArray v then
        fail_with eh (''Property '' @ quoted name @ '' is an array while a scalar expected'') default_property s
      else if IsObject v then
        fail_with eh (''Property '' @ quoted name @ '' is an object while a scalar expected'') default_property s
      else
        (case lookupPropertyName (env_reg E) name of
           None \<Rightarrow> fail_with eh (''Unsupported property '' @ quoted name) default_property s
         | Some info \<Rightarrow>
             if known_scalar (pi_type info) then
               (case scalar_from_json (pi_type info) v of
                  Inl words \<Rightarrow>
                    fail_with eh (''Property '' @ quoted name @ '' is not '' @ words) default_property s
                | Inr val \<Rightarrow> (Ok \<lparr>p_id = pi_id info, p_value = val, p_info = Some info\<rparr>, s))
             else
               fail_with eh (''Property '' @ quoted name @ '' is of an unsupported type '' @
                 quoted (env_type_name E (pi_type info))) default_property s))"

text \<open>
  The complaint about a double item says ``an'', the one about a double property ``a''.
\<close>

definition item_words :: "ctype \<Rightarrow> string \<Rightarrow> string" where
  "item_words ty words = (if ty = TDouble then ''an '' @ quoted ''double'' else words)"

definition itemFromJsonScalar ::
    "env \<Rightarrow> 's error_handler \<Rightarrow> string \<Rightarrow> ctype \<Rightarrow> nat \<Rightarrow> json \<Rightarrow> 's \<Rightarrow> bag outcome \<times> 's" where
  "itemFromJsonScalar E eh arrayName ty index v s =
     (let item = ''Array '' @ quoted arrayName @ '' item #'' @ show_nat index in
      if known_scalar ty then
        (case scalar_from_json ty v of
           Inl words \<Rightarrow> fail_with eh (item @ '' is not '' @ item_words ty words) EmptyBag s
         | Inr val \<Rightarrow> (Ok (PropBag [] \<lparr>p_id = InvalidPropId, p_value = val, p_info = None\<rparr>), s))
      else
        fail_with eh (item @ '' is of an unsupported type '' @ quoted (env_type_name E ty)) EmptyBag s)"

text \<open>
  \<open>bagFromJson\<close> is \<^verbatim>\<open>propertyBagFromJsonValue\<close>, with \<^verbatim>\<open>arrayFromJsonValue\<close> in its array case;
  \<open>itemsFromJson\<close> is its loop over the items of the array, with \<open>arrayItemFromJson\<close> as its body;
  \<open>tableFromJson\<close> is the loop of \<^verbatim>\<open>tableFromJsonValue\<close>. The name of a member reaches the recursive
  call as a C string, its key in the table is the whole string.
\<close>

function (sequential)
  bagFromJson :: "env \<Rightarrow> 's error_handler \<Rightarrow> string \<Rightarrow> json \<Rightarrow> 's \<Rightarrow> bag outcome \<times> 's"
and
  itemsFromJson ::
    "env \<Rightarrow> 's error_handler \<Rightarrow> string \<Rightarrow> ctype \<Rightarrow> nat \<Rightarrow> json list \<Rightarrow> bag list \<Rightarrow> 's \<Rightarrow> bag list outcome \<times> 's"
and
  arrayItemFromJson ::
    "env \<Rightarrow> 's error_handler \<Rightarrow> string \<Rightarrow> ctype \<Rightarrow> nat \<Rightarrow> json \<Rightarrow> 's \<Rightarrow> bag outcome \<times> 's"
and
  tableFromJson ::
    "env \<Rightarrow> 's error_handler \<Rightarrow> (string \<times> json) list \<Rightarrow> (string, bag) umap \<Rightarrow> 's \<Rightarrow>
     (string, bag) umap outcome \<times> 's"
where
  "bagFromJson E eh name (JObj ms) s =
     (case tableFromJson E eh ms um_empty s of (r, s') \<Rightarrow> (omap (TableBag name) r, s'))"
| "bagFromJson E eh name (JArr js) s =
     (case
        (case lookupPropertyName (env_reg E) name of
           None \<Rightarrow> fail_with eh (''Unsupported property '' @ quoted name) [] s
         | Some info \<Rightarrow>
             if pi_type info \<noteq> TArray then
               fail_with eh (''Property '' @ quoted name @ '' is not a '' @ quoted ''PropertyBag::Array'') [] s
             else itemsFromJson E eh name (pi_base info) 0 js [] s)
      of (r, s') \<Rightarrow> (omap (ArrayBag name) r, s'))"
| "bagFromJson E eh name v s =
     (case propertyFromJsonValue E eh name v s of (r, s') \<Rightarrow> (omap (PropBag name) r, s'))"
| "itemsFromJson E eh arrayName ty index [] acc s = (Ok acc, s)"
| "itemsFromJson E eh arrayName ty index (v # vs) acc s =
     (case arrayItemFromJson E eh arrayName ty index v s of
        (Ok item, s') \<Rightarrow> itemsFromJson E eh arrayName ty (Suc index) vs (acc @ [item]) s'
      | (Throw e, s') \<Rightarrow> (Throw e, s')
      | (Terminate, s') \<Rightarrow> (Terminate, s')
      | (UB, s') \<Rightarrow> (UB, s'))"
| "arrayItemFromJson E eh arrayName ty index (JArr js) s =
     fail_with eh (''Array '' @ quoted arrayName @ '' item #'' @ show_nat index @
       '' is an array while a scalar expected'') EmptyBag s"
| "arrayItemFromJson E eh arrayName ty index (JObj ms) s = bagFromJson E eh [] (JObj ms) s"
| "arrayItemFromJson E eh arrayName ty index v s = itemFromJsonScalar E eh arrayName ty index v s"
| "tableFromJson E eh [] table s = (Ok table, s)"
| "tableFromJson E eh ((memberName, v) # ms) table s =
     (case bagFromJson E eh (cstr memberName) v s of
        (Ok member, s') \<Rightarrow> tableFromJson E eh ms (fst (um_insert memberName member table)) s'
      | (Throw e, s') \<Rightarrow> (Throw e, s')
      | (Terminate, s') \<Rightarrow> (Terminate, s')
      | (UB, s') \<Rightarrow> (UB, s'))"
  by pat_completeness auto
termination
  by (relation "measure (case_sum
        (case_sum (\<lambda>(E, eh, n, v, s). 2 * size v)
                  (\<lambda>(E, eh, n, ty, i, js, acc, s). 2 * size_list size js))
        (case_sum (\<lambda>(E, eh, n, ty, i, v, s). 2 * size v + 1)
                  (\<lambda>(E, eh, ms, t, s). 2 * size_list (size_prod (\<lambda>x. 0) size) ms)))") auto

text \<open>
  \<^verbatim>\<open>propertyBagFromJson\<close>: parse, then convert the root under the empty name. \<open>parse\<close> is the
  library's in-situ parser: a message and an offset, or the document.
\<close>

definition propertyBagFromJson ::
    "(string \<Rightarrow> (string \<times> nat) + json) \<Rightarrow> env \<Rightarrow> 's error_handler \<Rightarrow> string \<Rightarrow> 's \<Rightarrow> bag outcome \<times> 's" where
  "propertyBagFromJson parse E eh text s =
     (case parse text of
        Inl (err, offset) \<Rightarrow>
          (Throw (KesExn (Exception (''Failed to parse JSON: ['' @ err @ ''] at '' @ show_nat offset) [])), s)
      | Inr doc \<Rightarrow> bagFromJson E eh [] doc s)"

section \<open>To JSON\<close>

text \<open>
  The type that selects the writer call: that of the attached description, else of the registered
  one, else of the value. A type without a branch (a double among them) writes nothing.
\<close>

definition effective_type :: "registry \<Rightarrow> property \<Rightarrow> ctype" where
  "effective_type R p =
     (case p_info p of
        Some i \<Rightarrow> pi_type i
      | None \<Rightarrow> (case lookupProperty R (p_id p) of Some i \<Rightarrow> pi_type i | None \<Rightarrow> any_type (p_value p)))"

definition propertyToJson :: "registry \<Rightarrow> bag \<Rightarrow> jwriter \<Rightarrow> jwriter outcome" where
  "propertyToJson R b w =
     obind (bag_property b) (\<lambda>p.
       if \<not> has_value (p_value p)
       then Throw (KesExn (Exception (''Property '' @ hex8 (p_id p) @ '' has no value'') []))
       else
         (case effective_type R p of
            TBool \<Rightarrow> omap (\<lambda>x. jw_Bool x w) (any_cast_bool (p_value p))
          | TInt \<Rightarrow> omap (\<lambda>x. jw_Int x w) (any_cast_int (p_value p))
          | TUInt \<Rightarrow> omap (\<lambda>x. jw_Uint x w) (any_cast_uint (p_value p))
          | TInt64 \<Rightarrow> omap (\<lambda>x. jw_Int64 x w) (any_cast_int64 (p_value p))
          | TUInt64 \<Rightarrow> omap (\<lambda>x. jw_Uint64 x w) (any_cast_uint64 (p_value p))
          | TString \<Rightarrow> omap (\<lambda>x. jw_String x w) (any_cast_string (p_value p))
          | _ \<Rightarrow> Ok w))"

definition write_name :: "string \<Rightarrow> jwriter \<Rightarrow> jwriter" where
  "write_name n w = (if n \<noteq> [] then jw_Key n w else w)"

text \<open>
  \<open>bagToJson\<close> is the recursive \<^verbatim>\<open>propertyBagToJson\<close>, with \<^verbatim>\<open>arrayToJson\<close> and \<^verbatim>\<open>tableToJson\<close> in its
  branches; \<open>itemsToJson\<close> is the loop of both: empty bags are skipped, and the entries of a table
  are printed under the name they carry, not under their key.
\<close>

function (sequential)
  bagToJson :: "registry \<Rightarrow> bag \<Rightarrow> jwriter \<Rightarrow> jwriter outcome"
and
  itemsToJson :: "registry \<Rightarrow> bag list \<Rightarrow> jwriter \<Rightarrow> jwriter outcome"
and
  entriesToJson :: "registry \<Rightarrow> (string \<times> bag) list \<Rightarrow> jwriter \<Rightarrow> jwriter outcome"
where
  "bagToJson R (ArrayBag n a) w =
     omap jw_EndArray (itemsToJson R a (jw_StartArray (write_name n w)))"
| "bagToJson R (TableBag n t) w =
     omap jw_EndObject (entriesToJson R t (jw_StartObject (write_name n w)))"
| "bagToJson R b w = propertyToJson R b (write_name (bag_name b) w)"
| "itemsToJson R [] w = Ok w"
| "itemsToJson R (b # bs) w =
     (if isEmpty b then itemsToJson R bs w else obind (bagToJson R b w) (itemsToJson R bs))"
| "entriesToJson R [] w = Ok w"
| "entriesToJson R ((k, b) # es) w =
     (if isEmpty b then entriesToJson R es w else obind (bagToJson R b w) (entriesToJson R es))"
  by pat_completeness auto
termination
  by (relation "measure (case_sum (\<lambda>(R, b, w). size b)
        (case_sum (\<lambda>(R, bs, w). size_list size bs)
                  (\<lambda>(R, es, w). size_list (size_prod (\<lambda>x. 0) size) es)))") auto

definition propertyBagToJson :: "registry \<Rightarrow> bag \<Rightarrow> string outcome" where
  "propertyBagToJson R b = omap jw_GetString (bagToJson R b jw_init)"

section \<open>Handlers that let the conversion go on\<close>

definition returns :: "'a outcome \<times> 's \<Rightarrow> bool" where
  "returns r \<longleftrightarrow> is_ok (fst r)"

lemma returns_iff: "returns r \<longleftrightarrow> (\<exists>x s. r = (Ok x, s))"
  by (cases r) (auto simp: returns_def is_ok_iff)

lemma returns_Ok [simp]: "returns (Ok x, s)"
  by (simp add: returns_def)

lemma returns_map [simp]: "returns (case r of (x, s) \<Rightarrow> (omap f x, s)) = returns r"
  by (cases r; cases "fst r") (auto simp: returns_def)

locale continuing_handler =
  fixes eh :: "'s error_handler"
  assumes continues: "fst (eh m s) = Continue"
begin

lemma fail_with_returns [simp]: "returns (fail_with eh m d s)"
  using continues [of m s] by (auto simp: fail_with_def handleError_def split: prod.split)

lemma propertyFromJsonValue_returns [simp]: "returns (propertyFromJsonValue E eh name v s)"
  by (auto simp: propertyFromJsonValue_def split: option.split sum.split)

lemma itemFromJsonScalar_returns [simp]: "returns (itemFromJsonScalar E eh name ty i v s)"
  by (auto simp: itemFromJsonScalar_def Let_def split: sum.split)

text \<open>Every document is accepted: a mismatch leaves an empty property, array or bag.\<close>

lemma FromJson_returns:
  "h = eh \<Longrightarrow> returns (bagFromJson E h name j s)"
  "h = eh \<Longrightarrow> returns (itemsFromJson E h name ty i js acc s)"
  "h = eh \<Longrightarrow> returns (arrayItemFromJson E h name ty i j s)"
  "h = eh \<Longrightarrow> returns (tableFromJson E h ms table s)"
proof (induction E h name j s and E h name ty i js acc s and E h name ty i j s and E h ms table s
    rule: bagFromJson_itemsFromJson_arrayItemFromJson_tableFromJson.induct)
  case (5 E eh arrayName ty index v vs acc s)
  then obtain b s' where "arrayItemFromJson E eh arrayName ty index v s = (Ok b, s')"
    unfolding returns_iff by blast
  then show ?case using 5 by simp
next
  case (10 E eh memberName v ms table s)
  then obtain b s' where "bagFromJson E eh (cstr memberName) v s = (Ok b, s')"
    unfolding returns_iff by blast
  then show ?case using 10 by simp
qed (auto split: option.split)

lemmas bagFromJson_returns = FromJson_returns(1) [OF refl]

end

section \<open>Documents that survive the round trip\<close>

text \<open>
  A document conforms to a registry when every member and every array is named by a registered
  property of the right type, member names are distinct, non-empty and free of NUL bytes, and there
  is neither a \<^verbatim>\<open>null\<close> nor a double in it.
\<close>

definition scalar_ok :: "ctype \<Rightarrow> json \<Rightarrow> bool" where
  "scalar_ok ty v \<longleftrightarrow> known_scalar ty \<and> ty \<noteq> TDouble \<and> \<not> isl (scalar_from_json ty v)"

definition type_of_name :: "registry \<Rightarrow> string \<Rightarrow> ctype" where
  "type_of_name R name = (case lookupPropertyName R name of None \<Rightarrow> TVoid | Some i \<Rightarrow> pi_type i)"

definition base_of_name :: "registry \<Rightarrow> string \<Rightarrow> ctype" where
  "base_of_name R name = (case lookupPropertyName R name of None \<Rightarrow> TVoid | Some i \<Rightarrow> pi_base i)"

definition key_ok :: "string \<Rightarrow> bool" where
  "key_ok k \<longleftrightarrow> k \<noteq> [] \<and> NUL \<notin> set k"

function (sequential)
  conforming :: "registry \<Rightarrow> string \<Rightarrow> json \<Rightarrow> bool"
and
  conforming_items :: "registry \<Rightarrow> ctype \<Rightarrow> json list \<Rightarrow> bool"
and
  conforming_item :: "registry \<Rightarrow> ctype \<Rightarrow> json \<Rightarrow> bool"
and
  conforming_members :: "registry \<Rightarrow> (string \<times> json) list \<Rightarrow> bool"
where
  "conforming R name (JObj ms) = conforming_members R ms"
| "conforming R name (JArr js) =
     (type_of_name R name = TArray \<and> conforming_items R (base_of_name R name) js)"
| "conforming R name v = scalar_ok (type_of_name R name) v"
| "conforming_items R ty [] = True"
| "conforming_items R ty (v # vs) = (conforming_item R ty v \<and> conforming_items R ty vs)"
| "conforming_item R ty (JArr js) = False"
| "conforming_item R ty (JObj ms) = conforming_members R ms"
| "conforming_item R ty v = scalar_ok ty v"
| "conforming_members R [] = True"
| "conforming_members R ((k, v) # ms) =
     (key_ok k \<and> k \<notin> fst ` set ms \<and> conforming R k v \<and> conforming_members R ms)"
  by pat_completeness auto
termination
  by (relation "measure (case_sum
        (case_sum (\<lambda>(R, n, v). size v) (\<lambda>(R, ty, js). size_list size js))
        (case_sum (\<lambda>(R, ty, v). size v) (\<lambda>(R, ms). size_list (size_prod (\<lambda>x. 0) size) ms)))") auto

lemma json_int_sint:
  "- (2 ^ 31) \<le> n \<Longrightarrow> n < 2 ^ 31 \<Longrightarrow> sint (json_int (JInt n) :: i32) = n"
  "- (2 ^ 63) \<le> n \<Longrightarrow> n < 2 ^ 63 \<Longrightarrow> sint (json_int (JInt n) :: i64) = n"
  by (simp_all add: json_int_def sint_sbintrunc' signed_take_bit_int_eq_self)

lemma json_int_uint:
  "0 \<le> n \<Longrightarrow> n < 2 ^ 32 \<Longrightarrow> uint (json_int (JInt n) :: u32) = n"
  "0 \<le> n \<Longrightarrow> n < 2 ^ 64 \<Longrightarrow> uint (json_int (JInt n) :: u64) = n"
  by (simp_all add: json_int_def uint_word_of_int)

lemma json_int_unat:
  "0 \<le> n \<Longrightarrow> n < 2 ^ 32 \<Longrightarrow> show_nat (unat (json_int (JInt n) :: u32)) = show_int n"
  "0 \<le> n \<Longrightarrow> n < 2 ^ 64 \<Longrightarrow> show_nat (unat (json_int (JInt n) :: u64)) = show_int n"
  by (metis json_int_uint unat_eq_nat_uint not_less show_int_def)+

lemma IsX_JInt:
  "IsInt v \<longleftrightarrow> (\<exists>n. v = JInt n \<and> - (2 ^ 31) \<le> n \<and> n < 2 ^ 31)"
  "IsUint v \<longleftrightarrow> (\<exists>n. v = JInt n \<and> 0 \<le> n \<and> n < 2 ^ 32)"
  "IsInt64 v \<longleftrightarrow> (\<exists>n. v = JInt n \<and> - (2 ^ 63) \<le> n \<and> n < 2 ^ 63)"
  "IsUint64 v \<longleftrightarrow> (\<exists>n. v = JInt n \<and> 0 \<le> n \<and> n < 2 ^ 64)"
  by (cases v; simp)+

text \<open>A scalar read at its type has that type, and is printed as it was.\<close>

lemma scalar_roundtrip:
  assumes "scalar_ok ty v" and "scalar_from_json ty v = Inr val"
    and "p_value p = val" and "effective_type R p = ty"
  shows "propertyToJson R (PropBag n p) w = Ok (put_value (render dtoa v) w)"
  using assms(1,2,4)
  by (cases "(ty, v)" rule: scalar_from_json.cases; cases v)
    (auto simp: assms(3) scalar_ok_def known_scalar_def propertyToJson_def has_value_def any_cast_defs
      writer_simps IsX_JInt json_int_sint json_int_unat split: if_splits)

lemma scalar_value:
  assumes "scalar_ok ty v"
  obtains val where "scalar_from_json ty v = Inr val" and "any_type val = ty" and "known_scalar ty"
proof -
  obtain val where val: "scalar_from_json ty v = Inr val" and "known_scalar ty"
    using assms by (cases "scalar_from_json ty v") (auto simp: scalar_ok_def)
  moreover have "any_type val = ty"
    using val by (cases "(ty, v)" rule: scalar_from_json.cases; cases v) (auto split: if_splits)
  ultimately show thesis using that by blast
qed

lemma scalar_no_nul:
  "scalar_ok ty v \<Longrightarrow> NUL \<notin> set (render dtoa v)"
  by (cases "(ty, v)" rule: scalar_from_json.cases; cases v)
    (auto simp: scalar_ok_def known_scalar_def show_int_no_nul WriteString_no_nul IsX_JInt split: if_splits)

text \<open>
  Reading: every part of a conforming document gives a bag without a call of the handler; what the
  bag is printed as is stated at the same time, for a writer at any level.
\<close>

definition reads_back :: "registry \<Rightarrow> (u64 \<Rightarrow> string) \<Rightarrow> string \<Rightarrow> json \<Rightarrow> bag \<Rightarrow> bool" where
  "reads_back R dtoa name j b \<longleftrightarrow> \<not> isEmpty b \<and> NUL \<notin> set (render dtoa j) \<and>
     (\<forall>w. bagToJson R b w = Ok (put_value (render dtoa j) (write_name name w)))"

definition items_read_back :: "registry \<Rightarrow> (u64 \<Rightarrow> string) \<Rightarrow> json list \<Rightarrow> bag list \<Rightarrow> bool" where
  "items_read_back R dtoa js bs \<longleftrightarrow> (\<forall>j \<in> set js. NUL \<notin> set (render dtoa j)) \<and>
     (\<forall>n w. at_level n True w \<longrightarrow>
        itemsToJson R bs w = Ok (jw_put (joined (n = 0) (map (render dtoa) js)) (bump (length js) w)))"

definition members_read_back ::
    "registry \<Rightarrow> (u64 \<Rightarrow> string) \<Rightarrow> (string \<times> json) list \<Rightarrow> (string \<times> bag) list \<Rightarrow> bool" where
  "members_read_back R dtoa ms es \<longleftrightarrow> (\<forall>m \<in> set ms. NUL \<notin> set (render dtoa (snd m))) \<and>
     (\<forall>n w. at_level n False w \<longrightarrow> even n \<longrightarrow>
        entriesToJson R es w =
          Ok (jw_put (joined (n = 0) (map (member_text dtoa) ms)) (bump (2 * length ms) w)))"

lemma write_name_Nil [simp]: "write_name [] w = w"
  by (simp add: write_name_def)

lemma items_read_back_Cons:
  assumes "reads_back R dtoa [] j b" and "items_read_back R dtoa js bs"
  shows "items_read_back R dtoa (j # js) (b # bs)"
proof -
  have "itemsToJson R (b # bs) w =
      Ok (jw_put (joined (n = 0) (map (render dtoa) (j # js))) (bump (length (j # js)) w))"
    if w: "at_level n True w" for n w
    using assms at_level_bump [OF w, of 1]
    by (simp add: reads_back_def items_read_back_def put_value_array [OF w])
  then show ?thesis using assms by (simp add: reads_back_def items_read_back_def)
qed

lemma members_read_back_Cons:
  assumes k: "key_ok k" and "reads_back R dtoa k j b" and "members_read_back R dtoa ms es"
  shows "members_read_back R dtoa ((k, j) # ms) ((k, b) # es)"
proof -
  have "entriesToJson R ((k, b) # es) w =
      Ok (jw_put (joined (n = 0) (map (member_text dtoa) ((k, j) # ms))) (bump (2 * length ((k, j) # ms)) w))"
    if w: "at_level n False w" and n: "even n" for n w
  proof -
    have w1: "at_level (n + 1) False (bump 1 w)" and w2: "at_level (n + 2) False (bump 2 w)"
      using at_level_bump [OF w] by blast+
    have "bagToJson R b w = Ok (jw_put ((if n > 0 then '','' else []) @ member_text dtoa (k, j)) (bump 2 w))"
      using assms(2) k n put_value_member [of "n + 1"] w1
      by (simp add: reads_back_def write_name_def key_ok_def writer_simps put_value_key [OF w n]
          member_text_def numeral_2_eq_2 [symmetric])
    then show ?thesis
      using assms(2,3) w2 n by (simp add: reads_back_def members_read_back_def)
  qed
  then show ?thesis using assms by (simp add: reads_back_def members_read_back_def)
qed

lemma reads_back_array:
  assumes "items_read_back R dtoa js bs"
  shows "reads_back R dtoa name (JArr js) (ArrayBag name bs)"
proof -
  have "NUL \<notin> set (commas (map (render dtoa) js))"
    using assms by (intro commas_no_nul) (auto simp: items_read_back_def)
  moreover have "itemsToJson R bs (jw_StartArray w) =
      Ok (jw_put (commas (map (render dtoa) js)) (bump (length js) (jw_StartArray w)))" for w
    using conjunct2 [OF assms [unfolded items_read_back_def], rule_format, OF at_level_start(1) [of w]]
    by (simp add: joined_commas)
  ultimately show ?thesis by (simp add: reads_back_def container_text)
qed

lemma reads_back_object:
  assumes "members_read_back R dtoa ms es"
  shows "reads_back R dtoa name (JObj ms) (TableBag name es)"
proof -
  have "NUL \<notin> set (commas (map (member_text dtoa) ms))"
    using assms by (intro commas_no_nul) (auto simp: members_read_back_def member_text_def WriteString_no_nul)
  moreover have "entriesToJson R es (jw_StartObject w) =
      Ok (jw_put (commas (map (member_text dtoa) ms)) (bump (2 * length ms) (jw_StartObject w)))" for w
    using conjunct2 [OF assms [unfolded members_read_back_def], rule_format, OF at_level_start(2) [of w]]
    by (simp add: joined_commas)
  ultimately show ?thesis by (simp add: reads_back_def container_text member_text_def [abs_def])
qed

lemma conforming_scalar:
  assumes ok: "scalar_ok (type_of_name (env_reg E) name) v"
  shows "\<exists>p. propertyFromJsonValue E eh name v s = (Ok p, s) \<and>
    (\<forall>w. propertyToJson (env_reg E) (PropBag name p) w = Ok (put_value (render dtoa v) w))"
proof -
  obtain info where info: "lookupPropertyName (env_reg E) name = Some info"
      "scalar_ok (pi_type info) v"
    using ok by (cases "lookupPropertyName (env_reg E) name")
      (auto simp: type_of_name_def scalar_ok_def known_scalar_def)
  then obtain val where val: "scalar_from_json (pi_type info) v = Inr val" "known_scalar (pi_type info)"
    by (metis scalar_value)
  let ?p = "\<lparr>p_id = pi_id info, p_value = val, p_info = Some info\<rparr>"
  have "\<not> IsArray v" "\<not> IsObject v"
    using val by (cases v; auto simp: known_scalar_def)+
  then have "propertyFromJsonValue E eh name v s = (Ok ?p, s)"
    using info val by (simp add: propertyFromJsonValue_def)
  moreover have "propertyToJson (env_reg E) (PropBag name ?p) w = Ok (put_value (render dtoa v) w)" for w
    using scalar_roundtrip [OF info(2) val(1), of ?p "env_reg E"] by (simp add: effective_type_def)
  ultimately show ?thesis by blast
qed

lemma conforming_scalar_item:
  assumes ok: "scalar_ok ty v" and R: "lookupProperty (env_reg E) InvalidPropId = None"
  shows "\<exists>p. itemFromJsonScalar E eh name ty i v s = (Ok (PropBag [] p), s) \<and>
    (\<forall>w. propertyToJson (env_reg E) (PropBag [] p) w = Ok (put_value (render dtoa v) w))"
proof -
  obtain val where val: "scalar_from_json ty v = Inr val" "any_type val = ty" "known_scalar ty"
    using ok by (rule scalar_value)
  let ?p = "\<lparr>p_id = InvalidPropId, p_value = val, p_info = None\<rparr>"
  have "itemFromJsonScalar E eh name ty i v s = (Ok (PropBag [] ?p), s)"
    using val by (simp add: itemFromJsonScalar_def)
  moreover have "propertyToJson (env_reg E) (PropBag [] ?p) w = Ok (put_value (render dtoa v) w)" for w
    using scalar_roundtrip [OF ok val(1), of ?p "env_reg E"] val(2) R by (simp add: effective_type_def)
  ultimately show ?thesis by blast
qed

lemma bag_scalar:
  "\<not> IsArray v \<Longrightarrow> \<not> IsObject v \<Longrightarrow> bagFromJson E eh name v s =
    (case propertyFromJsonValue E eh name v s of (r, s') \<Rightarrow> (omap (PropBag name) r, s'))"
  by (cases v) auto

lemma reads_back_scalar:
  assumes "scalar_ok (type_of_name (env_reg E) name) v" and "\<not> IsArray v" and "\<not> IsObject v"
  shows "\<exists>b. bagFromJson E eh name v s = (Ok b, s) \<and> reads_back (env_reg E) dtoa name v b"
proof -
  obtain p where "propertyFromJsonValue E eh name v s = (Ok p, s)"
    "\<forall>w. propertyToJson (env_reg E) (PropBag name p) w = Ok (put_value (render dtoa v) w)"
    using conforming_scalar [OF assms(1), of eh s dtoa] by blast
  then have "bagFromJson E eh name v s = (Ok (PropBag name p), s)"
      "reads_back (env_reg E) dtoa name v (PropBag name p)"
    using assms scalar_no_nul by (auto simp: bag_scalar reads_back_def)
  then show ?thesis by blast
qed

lemma reads_back_item:
  assumes ok: "scalar_ok ty v" and R: "lookupProperty (env_reg E) InvalidPropId = None"
  shows "\<exists>b. itemFromJsonScalar E eh name ty i v s = (Ok b, s) \<and> reads_back (env_reg E) dtoa [] v b"
  using conforming_scalar_item [OF assms, of eh name i s dtoa] scalar_no_nul [OF ok]
  by (auto simp: reads_back_def)

text \<open>The whole document, by induction on the calls of the reader.\<close>

lemma conforming_reads_back:
  "R = env_reg E \<Longrightarrow> lookupProperty R InvalidPropId = None \<Longrightarrow> conforming R name j \<Longrightarrow>
    \<exists>b. bagFromJson E eh name j s = (Ok b, s) \<and> reads_back R dtoa name j b"
  "R = env_reg E \<Longrightarrow> lookupProperty R InvalidPropId = None \<Longrightarrow> conforming_items R ty js \<Longrightarrow>
    \<exists>bs. itemsFromJson E eh name ty i js acc s = (Ok (acc @ bs), s) \<and> items_read_back R dtoa js bs"
  "R = env_reg E \<Longrightarrow> lookupProperty R InvalidPropId = None \<Longrightarrow> conforming_item R ty j \<Longrightarrow>
    \<exists>b. arrayItemFromJson E eh name ty i j s = (Ok b, s) \<and> reads_back R dtoa [] j b"
  "R = env_reg E \<Longrightarrow> lookupProperty R InvalidPropId = None \<Longrightarrow> conforming_members R ms \<Longrightarrow>
    fst ` set table \<inter> fst ` set ms = {} \<Longrightarrow>
    \<exists>es. tableFromJson E eh ms table s = (Ok (table @ es), s) \<and> members_read_back R dtoa ms es"
proof (induction R name j and R ty js and R ty j and R ms arbitrary: s and name i acc s and name i s and table s
    rule: conforming_conforming_items_conforming_item_conforming_members.induct)
  case (1 R name ms s)
  obtain es where "tableFromJson E eh ms um_empty s = (Ok es, s)" "members_read_back R dtoa ms es"
    using "1.IH" [of um_empty s] "1.prems" by (auto simp: um_empty_def)
  then show ?case using reads_back_object by auto
next
  case (2 R name js s)
  then obtain info where info: "lookupPropertyName R name = Some info" "pi_type info = TArray"
      "base_of_name R name = pi_base info"
    by (cases "lookupPropertyName R name") (auto simp: type_of_name_def base_of_name_def)
  obtain bs where "itemsFromJson E eh name (pi_base info) 0 js [] s = (Ok bs, s)"
      "items_read_back R dtoa js bs"
    using "2.IH" [of name 0 "[]" s] "2.prems" info by auto
  then show ?case using reads_back_array [of R dtoa js bs name] info "2.prems" by auto
next
  case (5 R ty v vs name i acc s)
  obtain b where b: "arrayItemFromJson E eh name ty i v s = (Ok b, s)" "reads_back R dtoa [] v b"
    using "5.IH"(1) [of name i s] "5.prems" by auto
  moreover obtain bs where "itemsFromJson E eh name ty (Suc i) vs (acc @ [b]) s = (Ok ((acc @ [b]) @ bs), s)"
      "items_read_back R dtoa vs bs"
    using "5.IH"(2) [of name "Suc i" "acc @ [b]" s] "5.prems" by auto
  ultimately show ?case using items_read_back_Cons [of R dtoa v b vs bs] by auto
next
  case (7 R ty ms name i s)
  obtain es where "tableFromJson E eh ms um_empty s = (Ok es, s)" "members_read_back R dtoa ms es"
    using "7.IH" [of um_empty s] "7.prems" by (auto simp: um_empty_def)
  then show ?case using reads_back_object [of R dtoa ms es "[]"] by auto
next
  case (10 R k v ms table s)
  then have k: "key_ok k" "cstr k = k" by (auto simp: key_ok_def)
  have fresh: "um_find table k = None" using 10 by (auto simp: um_find_None)
  obtain b where b: "bagFromJson E eh k v s = (Ok b, s)" "reads_back R dtoa k v b"
    using "10.IH"(1) [of s] "10.prems" by auto
  obtain es where "tableFromJson E eh ms (table @ [(k, b)]) s = (Ok ((table @ [(k, b)]) @ es), s)"
      "members_read_back R dtoa ms es"
    using "10.IH"(2) [of "table @ [(k, b)]" s] "10.prems" by auto
  then show ?case
    using members_read_back_Cons [OF k(1) b(2)] b fresh k(2) by (auto simp: fst_um_insert)
qed (auto simp: items_read_back_def members_read_back_def simp del: bagFromJson.simps
    intro!: reads_back_scalar reads_back_item)


section \<open>Bags that come from JSON are well typed\<close>

definition typed_property :: "registry \<Rightarrow> property \<Rightarrow> bool" where
  "typed_property R p \<longleftrightarrow>
     (if has_value (p_value p) then effective_type R p = any_type (p_value p) else p = default_property)"

fun typed_bag :: "registry \<Rightarrow> bag \<Rightarrow> bool" where
  "typed_bag R EmptyBag \<longleftrightarrow> True"
| "typed_bag R (PropBag n p) \<longleftrightarrow> typed_property R p"
| "typed_bag R (ArrayBag n a) \<longleftrightarrow> (\<forall>b \<in> set a. typed_bag R b)"
| "typed_bag R (TableBag n t) \<longleftrightarrow> (\<forall>e \<in> set t. typed_bag R (snd e))"

lemma fail_with_result: "fail_with eh m d s = (Ok x, s') \<Longrightarrow> x = d"
  by (auto simp: fail_with_def handleError_def split: prod.splits CallbackResult.splits)

lemma scalar_type: "scalar_from_json ty v = Inr val \<Longrightarrow> any_type val = ty"
  by (cases "(ty, v)" rule: scalar_from_json.cases; cases v) (auto split: if_splits)

lemma property_typed:
  assumes "propertyFromJsonValue E eh name v s = (Ok p, s')"
  shows "typed_property (env_reg E) p"
  using assms
  by (auto simp: propertyFromJsonValue_def typed_property_def default_property_def has_value_def
      effective_type_def known_scalar_def dest!: fail_with_result scalar_type split: if_splits option.splits sum.splits)

lemma item_typed:
  assumes "itemFromJsonScalar E eh name ty i v s = (Ok b, s')"
    and "lookupProperty (env_reg E) InvalidPropId = None"
  shows "typed_bag (env_reg E) b \<and> bag_inv b"
  using assms
  by (auto simp: itemFromJsonScalar_def Let_def typed_property_def has_value_def known_scalar_def
      effective_type_def dest!: fail_with_result scalar_type split: if_splits sum.splits)

lemma case_outcome_Ok:
  "(case r of (Ok x, s') \<Rightarrow> f x s' | (Throw e, s') \<Rightarrow> (Throw e, s') | (Terminate, s') \<Rightarrow> (Terminate, s')
      | (UB, s') \<Rightarrow> (UB, s')) = (Ok y, t) \<longleftrightarrow> (\<exists>x s'. r = (Ok x, s') \<and> f x s' = (Ok y, t))"
  by (cases r; cases "fst r") auto

lemma case_omap_Ok:
  "(case r of (x, s') \<Rightarrow> (omap f x, s')) = (Ok y, t) \<longleftrightarrow> (\<exists>x. r = (Ok x, t) \<and> y = f x)"
  by (cases r; cases "fst r") auto

abbreviation good_bag :: "registry \<Rightarrow> bag \<Rightarrow> bool" where
  "good_bag R b \<equiv> typed_bag R b \<and> bag_inv b"

lemma FromJson_good:
  assumes "lookupProperty (env_reg E) InvalidPropId = None"
  shows "F = E \<Longrightarrow> bagFromJson F eh name j s = (Ok b, s') \<Longrightarrow> good_bag (env_reg E) b"
    and "F = E \<Longrightarrow> itemsFromJson F eh name ty i js acc s = (Ok bs, s') \<Longrightarrow>
      \<forall>b \<in> set acc. good_bag (env_reg E) b \<Longrightarrow> \<forall>b \<in> set bs. good_bag (env_reg E) b"
    and "F = E \<Longrightarrow> arrayItemFromJson F eh name ty i j s = (Ok b, s') \<Longrightarrow> good_bag (env_reg E) b"
    and "F = E \<Longrightarrow> tableFromJson F eh ms table s = (Ok t, s') \<Longrightarrow> um_inv table \<Longrightarrow>
      \<forall>e \<in> set table. good_bag (env_reg E) (snd e) \<Longrightarrow>
      um_inv t \<and> (\<forall>e \<in> set t. good_bag (env_reg E) (snd e))"
proof (induction F eh name j s and F eh name ty i js acc s and F eh name ty i j s and F eh ms table s
    arbitrary: b s' and bs s' and b s' and t s'
    rule: bagFromJson_itemsFromJson_arrayItemFromJson_tableFromJson.induct)
  case (1 F eh name ms s)
  then show ?case by (auto simp: case_omap_Ok um_empty_def)
next
  case (2 F eh name js s)
  then show ?case
    by (cases "lookupPropertyName (env_reg F) name")
      (auto simp: case_omap_Ok split: if_splits dest!: fail_with_result)
next
  case (5 F eh arrayName ty index v vs acc s)
  obtain b s1 where b: "arrayItemFromJson F eh arrayName ty index v s = (Ok b, s1)"
      "itemsFromJson F eh arrayName ty (Suc index) vs (acc @ [b]) s1 = (Ok bs, s')"
    using "5.prems" by (auto simp: case_outcome_Ok)
  then have "good_bag (env_reg E) b" using "5.IH"(1) "5.prems"(1) by blast
  then have "\<forall>b \<in> set (acc @ [b]). good_bag (env_reg E) b"
    using "5.prems"(3) by auto
  then show ?case
    by (rule "5.IH"(2) [OF b(1) [symmetric] refl "5.prems"(1) b(2)])
next
  case (10 F eh memberName v ms table s)
  obtain m s1 where m: "bagFromJson F eh (cstr memberName) v s = (Ok m, s1)"
      "tableFromJson F eh ms (fst (um_insert memberName m table)) s1 = (Ok t, s')"
    using "10.prems" by (auto simp: case_outcome_Ok)
  then have "good_bag (env_reg E) m" using "10.IH"(1) "10.prems"(1) by blast
  then have "\<forall>e \<in> set (fst (um_insert memberName m table)). good_bag (env_reg E) (snd e)"
    using "10.prems"(4) by (auto simp: fst_um_insert)
  then show ?case
    by (rule "10.IH"(2) [OF m(1) [symmetric] refl "10.prems"(1) m(2) um_inv_insert [OF "10.prems"(3)]])
qed (use assms in \<open>auto simp: case_omap_Ok dest!: fail_with_result dest: property_typed item_typed\<close>)

text \<open>Printing a well-typed bag fails in one way only: a property without a value.\<close>

definition no_value_error :: exn where
  "no_value_error = KesExn (Exception (''Property '' @ hex8 InvalidPropId @ '' has no value'') [])"

definition prints_or_no_value :: "'a outcome \<Rightarrow> bool" where
  "prints_or_no_value r \<longleftrightarrow> is_ok r \<or> r = Throw no_value_error"

lemma prints_Ok [simp]: "prints_or_no_value (Ok x)"
  by (simp add: prints_or_no_value_def)

lemma prints_omap [simp]: "prints_or_no_value (omap f r) = prints_or_no_value r"
  by (cases r) (auto simp: prints_or_no_value_def)

lemma prints_obind: "prints_or_no_value r \<Longrightarrow> (\<And>x. prints_or_no_value (f x)) \<Longrightarrow> prints_or_no_value (obind r f)"
  by (cases r) (auto simp: prints_or_no_value_def)

lemma typed_property_prints:
  assumes "typed_property R p"
  shows "prints_or_no_value (propertyToJson R (PropBag n p) w)"
proof (cases "has_value (p_value p)")
  case False
  then have "p = default_property" using assms by (simp add: typed_property_def)
  then show ?thesis
    by (simp add: propertyToJson_def default_property_def has_value_def prints_or_no_value_def no_value_error_def)
next
  case True
  then have "effective_type R p = any_type (p_value p)" using assms by (simp add: typed_property_def)
  then show ?thesis using True
    by (cases "p_value p") (simp_all add: propertyToJson_def any_cast_defs)
qed

lemma ToJson_prints:
  "typed_bag R b \<Longrightarrow> \<not> isEmpty b \<Longrightarrow> prints_or_no_value (bagToJson R b w)"
  "\<forall>b \<in> set bs. typed_bag R b \<Longrightarrow> prints_or_no_value (itemsToJson R bs w)"
  "\<forall>e \<in> set es. typed_bag R (snd e) \<Longrightarrow> prints_or_no_value (entriesToJson R es w)"
  by (induction R b w and R bs w and R es w rule: bagToJson_itemsToJson_entriesToJson.induct)
    (auto simp: typed_property_prints intro!: prints_obind)

text \<open>
  C6. Whatever the handler answers, a bag that comes out of the reader has one entry per key in
  every table, and printing it never reads a value at a wrong type: it prints, or reports the
  valueless property that a tolerated mismatch left behind. The root is never empty.
\<close>

theorem json_bag_sound:
  assumes "lookupProperty (env_reg E) InvalidPropId = None"
    and "propertyBagFromJson parse E eh text s = (Ok b, s')"
  shows "bag_inv b \<and> \<not> isEmpty b \<and>
    (is_ok (propertyBagToJson (env_reg E) b) \<or> propertyBagToJson (env_reg E) b = Throw no_value_error)"
proof -
  obtain j where j: "bagFromJson E eh [] j s = (Ok b, s')"
    using assms(2) by (auto simp: propertyBagFromJson_def split: sum.splits)
  have good: "good_bag (env_reg E) b"
    by (rule FromJson_good(1) [OF assms(1) refl j])
  have root: "\<not> isEmpty b"
    using j by (cases j) (auto simp: case_omap_Ok)
  have "prints_or_no_value (propertyBagToJson (env_reg E) b)"
    using ToJson_prints(1) good root by (simp add: propertyBagToJson_def)
  then show ?thesis using good root by (simp add: prints_or_no_value_def)
qed

section \<open>The server's registry\<close>

definition server_env :: env where
  "server_env = \<lparr>env_reg = server_registry, env_type_name = (\<lambda>_. [])\<rparr>"

lemma server_env_reg [simp]: "env_reg server_env = server_registry"
  by (simp add: server_env_def)

lemma InvalidPropId_free [simp]: "lookupProperty server_registry InvalidPropId = None"
  by (simp add: server_registry_eq lookupProperty_def startup_properties_def declared_defs InvalidPropId_def)

lemma server_names [simp]:
  "lookupPropertyName server_registry ''request.id'' = Some Request_Id"
  "lookupPropertyName server_registry ''request.request'' = Some Request_Command"
  "lookupPropertyName server_registry ''process.process_list'' = Some PP_ProcessList"
  "lookupPropertyName server_registry ''process.pid'' = Some PP_Pid"
  using server_registry_lookup(2) [of Request_Id] server_registry_lookup(2) [of Request_Command]
    server_registry_lookup(2) [of PP_ProcessList] server_registry_lookup(2) [of PP_Pid]
  by (simp_all add: startup_properties_def declared_defs)

definition sample_document :: json where
  "sample_document = JObj [(''request.id'', JInt 7), (''request.request'', JStr ''list_processes''),
     (''process.process_list'', JArr [JObj [(''process.pid'', JInt 42)]])]"

lemma sample_conforming: "conforming server_registry [] sample_document"
  by (simp add: sample_document_def type_of_name_def base_of_name_def key_ok_def scalar_ok_def known_scalar_def
      Request_Id_def Request_Command_def PP_ProcessList_def PP_Pid_def)


lemma json_bag_sound_witness:
  "bag_inv (TableBag [] []) \<and> \<not> isEmpty (TableBag [] []) \<and>
    (is_ok (propertyBagToJson server_registry (TableBag [] [])) \<or>
     propertyBagToJson server_registry (TableBag [] []) = Throw no_value_error)"
  using json_bag_sound [of server_env "\<lambda>_. Inr (JObj [])" "\<lambda>m s. (Abort, s)" "''{}''" "()" "TableBag [] []" "()"]
  by (simp add: propertyBagFromJson_def um_empty_def)

end
