(* ===== verification/Kes_Requests.thy ===== *)
theory Kes_Requests
  imports Kes_BagJson
begin

text \<open>
  The two messages the library composes itself (\<^verbatim>\<open>src/kesrv/util/requestutil.cxx\<close>): a simple
  request and a failure response. Names and texts come in as C strings.
\<close>

definition Success :: string where
  "Success = ''success''"

definition Fail :: string where
  "Fail = ''fail''"

definition simple :: "i32 \<Rightarrow> string \<Rightarrow> string" where
  "simple rid command =
     jw_GetString
       (jw_EndObject
         (jw_String (cstr command) (jw_Key (pi_idstr Request_Command)
           (jw_Int rid (jw_Key (pi_idstr Request_Id) (jw_StartObject jw_init))))))"

definition fail :: "i32 \<Rightarrow> string \<Rightarrow> string" where
  "fail rid reason =
     jw_GetString
       (jw_EndObject
         (jw_String (cstr reason) (jw_Key (pi_idstr Response_Reason)
           (jw_String Fail (jw_Key (pi_idstr Response_Status)
             (jw_Int rid (jw_Key (pi_idstr Request_Id) (jw_StartObject jw_init))))))))"

section \<open>Their texts\<close>

definition request_json :: "i32 \<Rightarrow> string \<Rightarrow> json" where
  "request_json rid command = JObj [(''request.id'', JInt (sint rid)), (''request.request'', JStr command)]"

definition fail_json :: "i32 \<Rightarrow> string \<Rightarrow> json" where
  "fail_json rid reason =
     JObj [(''request.id'', JInt (sint rid)), (''response.status'', JStr Fail), (''response.reason'', JStr reason)]"

text \<open>Members written in sequence between the brackets of an object.\<close>

definition put_member :: "string \<times> string \<Rightarrow> jwriter \<Rightarrow> jwriter" where
  "put_member m w = put_value (snd m) (put_value (fst m) w)"

lemma put_members:
  "at_level n False w \<Longrightarrow> even n \<Longrightarrow> fold put_member ms w =
     jw_put (joined (n = 0) (map (\<lambda>m. fst m @ '':'' @ snd m) ms)) (bump (2 * length ms) w)"
proof (induction ms arbitrary: n w)
  case (Cons m ms)
  have w1: "at_level (n + 1) False (bump 1 w)" and w2: "at_level (n + 2) False (bump 2 w)"
    using at_level_bump [OF Cons.prems(1)] by blast+
  have "put_member m w = jw_put ((if n > 0 then '','' else []) @ fst m @ '':'' @ snd m) (bump 2 w)"
    using put_value_member [of "n + 1"] w1 Cons.prems(2)
    by (simp add: put_member_def put_value_key [OF Cons.prems] numeral_2_eq_2 [symmetric])
  then show ?case using Cons.IH [of "n + 2" "jw_put s (bump 2 w)" for s] w2 Cons.prems(2) by simp
qed simp

lemma object_text:
  "jw_EndObject (fold put_member ms (jw_StartObject w)) =
     put_value (''{'' @ commas (map (\<lambda>m. fst m @ '':'' @ snd m) ms) @ ''}'') w"
  using put_members [OF at_level_start(2)] by (simp add: joined_commas container_text)

lemma GetString_value: "NUL \<notin> set s \<Longrightarrow> jw_GetString (put_value s jw_init) = s"
  by (simp add: jw_GetString_def put_value_def jw_put_def jw_Prefix_def jw_init_def)

lemma cstr_twice [simp]: "cstr (cstr s) = cstr s"
  by (simp add: cstr_no_nul)

lemma message_no_nul: "NUL \<notin> set (render (\<lambda>_. []) j)"
  by (rule render_no_nul) simp

lemma simple_text: "simple rid command = render (\<lambda>_. []) (request_json rid (cstr command))"
proof -
  have m: "jw_String (cstr command) (jw_Key (pi_idstr Request_Command)
           (jw_Int rid (jw_Key (pi_idstr Request_Id) (jw_StartObject jw_init)))) =
      fold put_member [(WriteString ''request.id'', show_int (sint rid)),
        (WriteString ''request.request'', WriteString (cstr command))] (jw_StartObject jw_init)"
    by (simp add: writer_simps put_member_def Request_Id_def Request_Command_def)
  have "simple rid command = jw_GetString (put_value (render (\<lambda>_. []) (request_json rid (cstr command))) jw_init)"
    by (simp only: simple_def m object_text) (simp add: request_json_def)
  then show ?thesis by (simp only: GetString_value message_no_nul not_False_eq_True)
qed

lemma fail_text: "fail rid reason = render (\<lambda>_. []) (fail_json rid (cstr reason))"
proof -
  have m: "jw_String (cstr reason) (jw_Key (pi_idstr Response_Reason)
           (jw_String Fail (jw_Key (pi_idstr Response_Status)
             (jw_Int rid (jw_Key (pi_idstr Request_Id) (jw_StartObject jw_init)))))) =
      fold put_member [(WriteString ''request.id'', show_int (sint rid)),
        (WriteString ''response.status'', WriteString Fail),
        (WriteString ''response.reason'', WriteString (cstr reason))] (jw_StartObject jw_init)"
    by (simp add: writer_simps put_member_def Request_Id_def Response_Reason_def Response_Status_def)
  have "fail rid reason = jw_GetString (put_value (render (\<lambda>_. []) (fail_json rid (cstr reason))) jw_init)"
    by (simp only: fail_def m object_text) (simp add: fail_json_def)
  then show ?thesis by (simp only: GetString_value message_no_nul not_False_eq_True)
qed

section \<open>What the server reads from a simple request\<close>

lemma sint_bounds: "- (2 ^ 31) \<le> sint (i :: i32)" "sint (i :: i32) < 2 ^ 31"
  using sint_range_size [of i] by (simp_all add: word_size)

definition request_table :: "i32 \<Rightarrow> string \<Rightarrow> bag" where
  "request_table rid command =
     TableBag [] [(''request.id'', PropBag ''request.id''
         \<lparr>p_id = pi_id Request_Id, p_value = AInt rid, p_info = Some Request_Id\<rparr>),
       (''request.request'', PropBag ''request.request''
         \<lparr>p_id = pi_id Request_Command, p_value = AString command, p_info = Some Request_Command\<rparr>)]"

lemma request_read:
  "bagFromJson server_env eh [] (request_json rid command) s = (Ok (request_table rid command), s)"
  using sint_bounds [of rid]
  by (simp add: request_json_def request_table_def propertyFromJsonValue_def fst_um_insert um_empty_def
      known_scalar_def json_int_def) (simp add: Request_Id_def Request_Command_def known_scalar_def)

text \<open>
  The messages of the library are the texts of the intended documents: \<^verbatim>\<open>Request::simple\<close> is a
  request that the server's reader turns into a table with exactly the id and the command (up to the
  first NUL byte), and \<^verbatim>\<open>Response::fail\<close> is the text of a response with the id, the status
  \<^verbatim>\<open>fail\<close> and the reason. Neither contains a NUL byte.
\<close>

lemma messages_correct:
  "simple rid command = render (\<lambda>_. []) (request_json rid (cstr command)) \<and>
   fail rid reason = render (\<lambda>_. []) (fail_json rid (cstr reason)) \<and>
   NUL \<notin> set (simple rid command) \<and> NUL \<notin> set (fail rid reason) \<and>
   bagFromJson server_env eh [] (request_json rid (cstr command)) s = (Ok (request_table rid (cstr command)), s)"
  by (simp only: simple_text fail_text message_no_nul request_read not_False_eq_True simp_thms)

end
