(* ===== verification/Kes_RequestProcessor.thy ===== *)
theory Kes_RequestProcessor
  imports Kes_World Kes_Requests
begin

text \<open>
  The request processor of the server (\<^verbatim>\<open>src/kexplorer-server/requestprocessor.cxx\<close>): handlers
  registered under command names, dispatch of a request text to the handlers of its command, and the
  notification of all handlers when a session starts or ends.

  A handler is a value of type \<open>'h\<close> (the pointer); its virtual methods are the fields of a
  \<open>vtable\<close>, acting on the world that holds the handlers' states.
\<close>

section \<open>Handlers\<close>

record ('h, 'w) vtable =
  vt_process :: "'h \<Rightarrow> u32 \<Rightarrow> string \<Rightarrow> i32 \<Rightarrow> bag \<Rightarrow> bag \<Rightarrow> 'w \<Rightarrow> (bool \<times> bag) outcome \<times> 'w"
  vt_startSession :: "'h \<Rightarrow> u32 \<Rightarrow> 'w \<Rightarrow> 'w"
  vt_endSession :: "'h \<Rightarrow> u32 \<Rightarrow> 'w \<Rightarrow> 'w"
  vt_address :: "'h \<Rightarrow> string"

type_synonym 'h handlers = "(string \<times> 'h) list"

definition registerHandler ::
    "('h, 'z world_scheme) vtable \<Rightarrow> string \<Rightarrow> 'h \<Rightarrow> 'h handlers \<times> 'z world_scheme \<Rightarrow>
     'h handlers \<times> 'z world_scheme" where
  "registerHandler V key h st =
     (case st of (hs, w) \<Rightarrow>
        (mm_insert (cstr key) h hs,
         world_log Info (''RequestProcessor: registered handler '' @ vt_address V h @ '' for '' @ cstr key) w))"

definition unregisterHandler ::
    "('h, 'z world_scheme) vtable \<Rightarrow> string \<Rightarrow> 'h \<Rightarrow> 'h handlers \<times> 'z world_scheme \<Rightarrow>
     'h handlers \<times> 'z world_scheme" where
  "unregisterHandler V key h st =
     (case st of (hs, w) \<Rightarrow>
        if h \<in> set (mm_equal_range (cstr key) hs)
        then (mm_erase_one (cstr key) h hs,
              world_log Info (''RequestProcessor: unregistered handler '' @ vt_address V h @ '' for '' @ cstr key) w)
        else (hs, world_log Error (''RequestProcessor: no handlers registered for '' @ cstr key) w))"

text \<open>
  \<^verbatim>\<open>%d\<close> of an unsigned id. Both loops run over the entries of the map, so a handler is told once for
  each command it serves.
\<close>

definition show_d :: "u32 \<Rightarrow> string" where
  "show_d i = show_int (sint i)"

definition startSession ::
    "('h, 'z world_scheme) vtable \<Rightarrow> u32 \<Rightarrow> 'h handlers \<Rightarrow> 'z world_scheme \<Rightarrow> 'z world_scheme" where
  "startSession V sid hs w =
     fold (\<lambda>e. vt_startSession V (snd e) sid) hs
       (world_log Info (''RequestProcessor: session '' @ show_d sid @ '' started'') w)"

definition endSession ::
    "('h, 'z world_scheme) vtable \<Rightarrow> u32 \<Rightarrow> 'h handlers \<Rightarrow> 'z world_scheme \<Rightarrow> 'z world_scheme" where
  "endSession V sid hs w =
     world_log Info (''RequestProcessor: session '' @ show_d sid @ '' finished'')
       (fold (\<lambda>e. vt_endSession V (snd e) sid) hs w)"

section \<open>The error handler of the reader\<close>

record json_error_handler =
  jeh_errors :: bool
  jeh_message :: string

definition jeh_init :: json_error_handler where
  "jeh_init = \<lparr>jeh_errors = False, jeh_message = []\<rparr>"

definition jeh_handle :: "(json_error_handler \<times> 'z world_scheme) error_handler" where
  "jeh_handle message st =
     (case st of (h, w) \<Rightarrow>
        (Continue, (h\<lparr>jeh_errors := True, jeh_message := message\<rparr>, world_log Warning (cstr message) w)))"

interpretation jeh: continuing_handler jeh_handle
  by unfold_locales (simp add: jeh_handle_def split: prod.split)

section \<open>Processing a request\<close>

fun handlers_loop ::
    "('h, 'w) vtable \<Rightarrow> u32 \<Rightarrow> string \<Rightarrow> i32 \<Rightarrow> bag \<Rightarrow> 'h list \<Rightarrow> bool \<Rightarrow> bag \<Rightarrow> 'w \<Rightarrow>
     (bool \<times> bag) outcome \<times> 'w" where
  "handlers_loop V sid key rid request [] found response w = (Ok (found, response), w)"
| "handlers_loop V sid key rid request (h # hs) found response w =
     sbind (vt_process V h sid (cstr key) rid request response w)
       (\<lambda>(found', response') w'. handlers_loop V sid key rid request hs found' response' w')"

definition find_id :: "(string, bag) umap \<Rightarrow> i32 outcome" where
  "find_id t =
     (case um_find t (pi_idstr Request_Id) of
        None \<Rightarrow> Ok 0
      | Some b \<Rightarrow> obind (bag_property b) (\<lambda>p. any_cast_int (p_value p)))"

definition rp_fail :: "i32 \<Rightarrow> string \<Rightarrow> string \<Rightarrow> 'z world_scheme \<Rightarrow> string outcome \<times> 'z world_scheme" where
  "rp_fail rid complaint reason w =
     (Ok (fail rid reason), world_log Error (''RequestProcessor: '' @ complaint) w)"

text \<open>The part of \<^verbatim>\<open>process\<close> that runs once the command is known.\<close>

definition rp_dispatch ::
    "env \<Rightarrow> ('h, 'z world_scheme) vtable \<Rightarrow> 'h handlers \<Rightarrow> u32 \<Rightarrow> string \<Rightarrow> i32 \<Rightarrow> bag \<Rightarrow> 'z world_scheme \<Rightarrow>
     string outcome \<times> 'z world_scheme" where
  "rp_dispatch E V hs sid key rid request w =
     sbind (handlers_loop V sid key rid request (mm_equal_range key hs) False (TableBag [] []) w)
       (\<lambda>(handlerFound, response) w.
          if \<not> handlerFound then rp_fail rid ''unsupported request'' ''Unsupported request'' w
          else
            sbind (propertyBagToJson (env_reg E) response, w)
              (\<lambda>out w. (Ok out, LogDebug (CHR 0x0A # ''<- '' @ out @ [CHR 0x0A]) w)))"

definition rp_request ::
    "env \<Rightarrow> ('h, 'z world_scheme) vtable \<Rightarrow> 'h handlers \<Rightarrow> u32 \<Rightarrow> bag \<Rightarrow> 'z world_scheme \<Rightarrow>
     string outcome \<times> 'z world_scheme" where
  "rp_request E V hs sid request w =
     (case request of
        TableBag n t \<Rightarrow>
          sbind (find_id t, w)
            (\<lambda>rid w.
               case um_find t (pi_idstr Request_Command) of
                 None \<Rightarrow> rp_fail rid (quoted ''request'' @ '' key not found'') ''Unsupported request'' w
               | Some (PropBag m p) \<Rightarrow>
                   sbind (any_cast_string (p_value p), w)
                     (\<lambda>key w. rp_dispatch E V hs sid key rid request w)
               | Some _ \<Rightarrow> rp_fail rid ''ill-formed reuest'' ''Ill-formed request'' w)
      | _ \<Rightarrow> rp_fail 0 ''request is not a JSON object'' ''Not a JSON object'' w)"

definition rp_body ::
    "(string \<Rightarrow> (string \<times> nat) + json) \<Rightarrow> env \<Rightarrow> ('h, 'z world_scheme) vtable \<Rightarrow> 'h handlers \<Rightarrow> u32 \<Rightarrow>
     string \<Rightarrow> 'z world_scheme \<Rightarrow> string outcome \<times> 'z world_scheme" where
  "rp_body parse E V hs sid request w =
     (case propertyBagFromJson parse E jeh_handle request
             (jeh_init, LogDebug (CHR 0x0A # ''-> '' @ cstr request @ [CHR 0x0A]) w) of
        (r, (_, w')) \<Rightarrow> sbind (r, w') (\<lambda>parsed w. rp_request E V hs sid parsed w))"

text \<open>
  \<^verbatim>\<open>process\<close>: the \<^verbatim>\<open>catch\<close> clause answers any exception; a \<^verbatim>\<open>std::terminate\<close> is not caught.
\<close>

definition rp_process ::
    "(string \<Rightarrow> (string \<times> nat) + json) \<Rightarrow> env \<Rightarrow> ('h, 'z world_scheme) vtable \<Rightarrow> 'h handlers \<Rightarrow> u32 \<Rightarrow>
     string \<Rightarrow> 'z world_scheme \<Rightarrow> string outcome \<times> 'z world_scheme" where
  "rp_process parse E V hs sid request w =
     (case rp_body parse E V hs sid request w of
        (Throw e, w') \<Rightarrow> rp_fail 0 (what e) (what e) w'
      | r \<Rightarrow> r)"

section \<open>Registration\<close>

text \<open>
  Registration is a multiset of (command, handler) pairs: a registered handler is the last of its
  command's range, other commands are not affected, unregistering undoes registering up to order, and
  unregistering a handler that is not registered for the command changes nothing.
\<close>

lemma registration:
  "(case registerHandler V key h (hs, w) of (hs', w') \<Rightarrow>
      mm_equal_range (cstr key) hs' = mm_equal_range (cstr key) hs @ [h] \<and>
      (\<forall>k. k \<noteq> cstr key \<longrightarrow> mm_equal_range k hs' = mm_equal_range k hs) \<and>
      mset (fst (unregisterHandler V key h (hs', w'))) = mset hs) \<and>
   (case unregisterHandler V key h (hs, w) of (hs', w') \<Rightarrow>
      mm_equal_range (cstr key) hs' = remove1 h (mm_equal_range (cstr key) hs) \<and>
      (\<forall>k. k \<noteq> cstr key \<longrightarrow> mm_equal_range k hs' = mm_equal_range k hs) \<and>
      (h \<notin> set (mm_equal_range (cstr key) hs) \<longrightarrow> hs' = hs))"
  by (auto simp: registerHandler_def unregisterHandler_def mm_equal_range_insert mm_equal_range_in
      mm_equal_range_erase mm_equal_range_erase_other remove1_idem)
    (auto simp: mm_insert_def mm_erase_one_def)

definition silent_vtable :: "(nat, world) vtable" where
  "silent_vtable = \<lparr>vt_process = \<lambda>h sid key rid req resp w. (Ok (True, resp), w),
     vt_startSession = \<lambda>h sid w. w, vt_endSession = \<lambda>h sid w. w, vt_address = \<lambda>h. []\<rparr>"

lemma registration_witness:
  "fst (unregisterHandler silent_vtable ''stop'' 3 ([(''stop'', 1), (''x'', 2)], \<lparr>w_level = Info, w_log = []\<rparr>)) =
     [(''stop'', 1), (''x'', 2)] \<and>
   mm_equal_range ''x'' (fst (registerHandler silent_vtable ''stop'' 3
     ([(''stop'', 1), (''x'', 2)], \<lparr>w_level = Info, w_log = []\<rparr>))) = [2]"
  using registration [where V = silent_vtable and key = "''stop''" and h = 3 and hs = "[(''stop'', 1), (''x'', 2)]"
      and w = "\<lparr>w_level = Info, w_log = []\<rparr>"]
  by (auto simp: mm_equal_range_def split: prod.splits)

section \<open>The shape of what the reader returns\<close>

definition string_of :: "bag \<Rightarrow> string option" where
  "string_of b = (case b of PropBag n p \<Rightarrow> (case p_value p of AString k \<Rightarrow> Some k | _ \<Rightarrow> None) | _ \<Rightarrow> None)"

definition same_shape :: "json \<Rightarrow> bag \<Rightarrow> bool" where
  "same_shape v b \<longleftrightarrow> isArray b = IsArray v \<and> isTable b = IsObject v \<and>
     isProperty b = (\<not> IsArray v \<and> \<not> IsObject v) \<and> (\<forall>k. string_of b = Some k \<longrightarrow> v = JStr k)"

lemma scalar_from_json_string: "scalar_from_json ty v = Inr (AString k) \<Longrightarrow> v = JStr k"
  by (cases ty; cases v) (auto split: if_splits)

lemma fail_with_value: "fail_with eh m d s = (Ok x, s') \<Longrightarrow> x = d"
  by (cases "fst (handleError eh m s)") (auto simp: fail_with_def split: prod.splits)

lemma propertyFromJsonValue_string:
  "propertyFromJsonValue E eh name v s = (Ok p, s') \<Longrightarrow> p_value p = AString k \<Longrightarrow> v = JStr k"
  by (auto simp: propertyFromJsonValue_def default_property_def scalar_from_json_string
      dest!: fail_with_value split: if_splits option.splits sum.splits)

lemma bagFromJson_shape: "bagFromJson E eh name v s = (Ok b, s') \<Longrightarrow> same_shape v b"
  by (cases v)
     (auto simp: case_omap_Ok same_shape_def string_of_def dest: propertyFromJsonValue_string split: any_val.splits)

lemma tableFromJson_shape:
  "tableFromJson E eh ms t s = (Ok t', s') \<Longrightarrow>
     (case um_find t k of
        Some b \<Rightarrow> um_find t' k = Some b
      | None \<Rightarrow> rel_option same_shape (map_of ms k) (um_find t' k))"
proof (induction ms arbitrary: t s)
  case (Cons m ms)
  obtain key v where m: "m = (key, v)" by (cases m)
  obtain b s1 where b: "bagFromJson E eh (cstr key) v s = (Ok b, s1)"
      "tableFromJson E eh ms (fst (um_insert key b t)) s1 = (Ok t', s')"
    using Cons.prems by (auto simp: m case_outcome_Ok)
  show ?case
    using Cons.IH [OF b(2)] bagFromJson_shape [OF b(1)]
    by (auto simp: m fst_um_insert um_find_append split: option.splits if_splits)
qed (auto split: option.split)

text \<open>A request whose id is an array or an object.\<close>

definition structured_id :: "json \<Rightarrow> bool" where
  "structured_id j =
     (case j of
        JObj ms \<Rightarrow> (case map_of ms (pi_idstr Request_Id) of
          None \<Rightarrow> False | Some v \<Rightarrow> IsArray v \<or> IsObject v)
      | _ \<Rightarrow> False)"

text \<open>The command a document asks for, if it is written as a request.\<close>

definition asks :: "(string \<Rightarrow> bool) \<Rightarrow> (string \<times> nat) + json \<Rightarrow> bool" where
  "asks P r =
     (case r of
        Inr (JObj ms) \<Rightarrow> (case map_of ms (pi_idstr Request_Command) of Some (JStr k) \<Rightarrow> P (cstr k) | _ \<Rightarrow> False)
      | _ \<Rightarrow> False)"

definition kills :: "(string \<times> nat) + json \<Rightarrow> bool" where
  "kills r = (case r of Inl _ \<Rightarrow> False | Inr j \<Rightarrow> structured_id j)"

lemma id_value_safe: "isProperty b \<Longrightarrow> safe (obind (bag_property b) (\<lambda>p. any_cast_int (p_value p)))"
  by (cases b) (auto simp: any_cast_int_def split: any_val.split)

lemma id_value_kills: "\<not> isProperty b \<Longrightarrow> obind (bag_property b) f = Terminate"
  by (cases b) auto

lemma id_value_no_UB: "obind (bag_property b) (\<lambda>p. any_cast_int (p_value p)) \<noteq> UB"
  by (cases b) (auto simp: any_cast_int_def split: any_val.split)

lemma find_id_safe:
  "find_id t = Terminate \<longleftrightarrow> (\<exists>b. um_find t (pi_idstr Request_Id) = Some b \<and> \<not> isProperty b)"
  "find_id t \<noteq> UB"
  using id_value_safe id_value_kills id_value_no_UB
  by (auto simp: find_id_def safe_def split: option.splits)

lemma bagFromJson_id:
  assumes "bagFromJson E eh [] j s = (Ok b, s')"
  shows "structured_id j \<longleftrightarrow> (\<exists>n t. b = TableBag n t \<and> find_id t = Terminate)"
proof (cases j)
  case (JObj ms)
  then obtain t where t: "b = TableBag [] t" "tableFromJson E eh ms um_empty s = (Ok t, s')"
    using assms by (auto simp: case_omap_Ok)
  have "rel_option same_shape (map_of ms (pi_idstr Request_Id)) (um_find t (pi_idstr Request_Id))"
    using tableFromJson_shape [OF t(2), of "pi_idstr Request_Id"] by (simp add: um_empty_def)
  then show ?thesis
    using JObj t(1) by (auto simp: structured_id_def find_id_safe same_shape_def elim: option.rel_cases)
next
  case (JArr js)
  then show ?thesis using assms by (auto simp: structured_id_def case_omap_Ok)
qed (use assms in \<open>auto simp: structured_id_def case_omap_Ok\<close>)

lemma bagFromJson_command:
  assumes "bagFromJson E eh [] j s = (Ok (TableBag n t), s')"
    and "um_find t (pi_idstr Request_Command) = Some (PropBag m p)" and "any_cast_string (p_value p) = Ok k" and "P (cstr k)"
  shows "asks P (Inr j)"
proof (cases j)
  case (JObj ms)
  then have t: "tableFromJson E eh ms um_empty s = (Ok t, s')" using assms(1) by (auto simp: case_omap_Ok)
  have "rel_option same_shape (map_of ms (pi_idstr Request_Command)) (um_find t (pi_idstr Request_Command))"
    using tableFromJson_shape [OF t, of "pi_idstr Request_Command"] by (simp add: um_empty_def)
  moreover have "string_of (PropBag m p) = Some k"
    using assms(3) by (auto simp: string_of_def any_cast_string_def split: any_val.splits)
  ultimately have "map_of ms (pi_idstr Request_Command) = Some (JStr k)"
    using assms(2) by (auto simp: same_shape_def elim: option.rel_cases)
  then show ?thesis using JObj assms(4) by (simp add: asks_def)
qed (use assms in \<open>auto simp: case_omap_Ok\<close>)

lemma ToJson_safe:
  "\<not> isEmpty b \<Longrightarrow> safe (bagToJson R b w)"
  "safe (itemsToJson R bs w)"
  "safe (entriesToJson R es w)"
proof (induction R b w and R bs w and R es w rule: bagToJson_itemsToJson_entriesToJson.induct)
  case "3_2"
  then show ?case
    by (auto simp: propertyToJson_def any_cast_defs split: ctype.split any_val.split)
qed (auto intro!: safe_obind)

lemma propertyBagToJson_safe: "\<not> isEmpty b \<Longrightarrow> safe (propertyBagToJson R b)"
  by (simp add: propertyBagToJson_def ToJson_safe)

section \<open>The state of the error handler through the reader\<close>

lemma snd_fail_with [simp]: "snd (fail_with eh m d s) = snd (eh m s)"
  by (simp add: fail_with_def handleError_def split: prod.split CallbackResult.split)

lemma propertyFromJsonValue_keeps:
  assumes "P s" and "\<And>m s. P s \<Longrightarrow> P (snd (eh m s))"
  shows "P (snd (propertyFromJsonValue E eh name v s))"
  using assms
    by (auto simp: propertyFromJsonValue_def split: option.split sum.split)

lemma itemFromJsonScalar_keeps:
  assumes "P s" and "\<And>m s. P s \<Longrightarrow> P (snd (eh m s))"
  shows "P (snd (itemFromJsonScalar E eh name ty i v s))"
  using assms
    by (auto simp: itemFromJsonScalar_def Let_def split: sum.split)

lemma snd_case_omap [simp]: "snd (case r of (x, s) \<Rightarrow> (omap f x, s)) = snd r"
  by (simp split: prod.split)

lemma snd_case_outcome:
  "P (snd r) \<Longrightarrow> (\<And>x s. r = (Ok x, s) \<Longrightarrow> P s \<Longrightarrow> P (snd (f x s))) \<Longrightarrow>
   P (snd (case r of (Ok x, s) \<Rightarrow> f x s | (Throw e, s) \<Rightarrow> (Throw e, s) | (Terminate, s) \<Rightarrow> (Terminate, s)
      | (UB, s) \<Rightarrow> (UB, s)))"
  by (cases r; cases "fst r") auto

lemma FromJson_keeps:
  assumes step: "\<And>m s. P s \<Longrightarrow> P (snd (eh m s))"
  shows "h = eh \<Longrightarrow> P s \<Longrightarrow> P (snd (bagFromJson E h name j s))"
    and "h = eh \<Longrightarrow> P s \<Longrightarrow> P (snd (itemsFromJson E h name ty i js acc s))"
    and "h = eh \<Longrightarrow> P s \<Longrightarrow> P (snd (arrayItemFromJson E h name ty i j s))"
    and "h = eh \<Longrightarrow> P s \<Longrightarrow> P (snd (tableFromJson E h ms table s))"
proof (induction E h name j s and E h name ty i js acc s and E h name ty i j s and E h ms table s
    rule: bagFromJson_itemsFromJson_arrayItemFromJson_tableFromJson.induct)
  case (2 E h name js s)
  have "lookupPropertyName (env_reg E) name = Some info \<Longrightarrow> pi_type info = TArray \<Longrightarrow>
      P (snd (itemsFromJson E h name (pi_base info) 0 js [] s))" for info
    using 2 by simp
  then show ?case
    using step [OF 2(3)] unfolding bagFromJson.simps snd_case_omap 2(2) by (simp split: option.split)
next
  case (5 E h arrayName ty index v vs acc s)
  then show ?case
    unfolding itemsFromJson.simps by (intro snd_case_outcome [where P = P]) simp_all
next
  case (10 E h memberName v ms table s)
  then show ?case
    unfolding tableFromJson.simps by (intro snd_case_outcome [where P = P]) simp_all
qed (simp_all add: step itemFromJsonScalar_keeps [where P = P and eh = eh]
    propertyFromJsonValue_keeps [where P = P and eh = eh])

section \<open>The contract of the handlers\<close>

text \<open>
  What the processor relies on: a handler given two tables keeps the response a table, does not end
  the process, is undefined for \<open>risky\<close> commands only, and keeps the invariant of the world, which does not
  depend on the log.
\<close>

locale request_handlers =
  fixes V :: "('h, 'z world_scheme) vtable"
    and inv :: "'z world_scheme \<Rightarrow> bool"
    and risky :: "string \<Rightarrow> bool"
  assumes log_inv [simp]: "inv (world_log lvl m w) = inv w"
    and process_inv: "inv w \<Longrightarrow> isTable request \<Longrightarrow> isTable response \<Longrightarrow>
      inv (snd (vt_process V h sid key rid request response w))"
    and process_lives: "inv w \<Longrightarrow> isTable request \<Longrightarrow> isTable response \<Longrightarrow>
      fst (vt_process V h sid key rid request response w) \<noteq> Terminate"
    and process_table: "inv w \<Longrightarrow> isTable request \<Longrightarrow> isTable response \<Longrightarrow>
      fst (vt_process V h sid key rid request response w) = Ok (found, response') \<Longrightarrow> isTable response'"
    and process_defined: "inv w \<Longrightarrow> isTable request \<Longrightarrow> isTable response \<Longrightarrow>
      fst (vt_process V h sid key rid request response w) = UB \<Longrightarrow> risky key"
    and start_inv: "inv w \<Longrightarrow> inv (vt_startSession V h sid w)"
    and end_inv: "inv w \<Longrightarrow> inv (vt_endSession V h sid w)"
begin

lemma LogDebug_inv [simp]: "inv (LogDebug m w) = inv w"
  by (simp add: LogDebug_def)

lemma sessions_inv:
  "inv w \<Longrightarrow> inv (startSession V sid hs w)"
  "inv w \<Longrightarrow> inv (endSession V sid hs w)"
proof -
  have "inv w \<Longrightarrow> inv (fold (\<lambda>e. vt_startSession V (snd e) sid) hs w)"
    "inv w \<Longrightarrow> inv (fold (\<lambda>e. vt_endSession V (snd e) sid) hs w)" for w
    by (induction hs arbitrary: w) (auto simp: start_inv end_inv)
  then show "inv w \<Longrightarrow> inv (startSession V sid hs w)" "inv w \<Longrightarrow> inv (endSession V sid hs w)"
    by (simp_all add: startSession_def endSession_def)
qed

lemma loop_correct:
  assumes "inv w" and "isTable request" and "isTable response"
    and "handlers_loop V sid key rid request hs found response w = (r, w')"
  shows "inv w' \<and> r \<noteq> Terminate \<and> (r = UB \<longrightarrow> risky (cstr key)) \<and> (\<forall>f resp. r = Ok (f, resp) \<longrightarrow> isTable resp)"
  using assms
proof (induction hs arbitrary: found response w)
  case (Cons h hs)
  obtain r1 w1 where p: "vt_process V h sid (cstr key) rid request response w = (r1, w1)"
    by (cases "vt_process V h sid (cstr key) rid request response w")
  have w1: "inv w1" "r1 \<noteq> Terminate" "r1 = UB \<Longrightarrow> risky (cstr key)" "\<And>f resp. r1 = Ok (f, resp) \<Longrightarrow> isTable resp"
    using process_defined [OF Cons.prems(1-3), of h sid "cstr key" rid] process_inv [OF Cons.prems(1-3), of h sid "cstr key" rid]
      process_lives [OF Cons.prems(1-3), of h sid "cstr key" rid]
      process_table [OF Cons.prems(1-3), of h sid "cstr key" rid] p by auto
  show ?case
  proof (cases r1)
    case (Ok x)
    then obtain f resp where x: "r1 = Ok (f, resp)" by (cases x) auto
    show ?thesis
      using Cons.IH [OF w1(1) Cons.prems(2) w1(4) [OF x], of f] Cons.prems(4) p x by simp
  qed (use Cons.prems(4) p w1 in auto)
qed auto

lemma dispatch_correct:
  assumes "inv w" and "isTable request" and "rp_dispatch E V hs sid key rid request w = (r, w')"
  shows "inv w' \<and> r \<noteq> Terminate \<and> (r = UB \<longrightarrow> risky (cstr key))"
proof -
  obtain r1 w1 where l: "handlers_loop V sid key rid request (mm_equal_range key hs) False (TableBag [] []) w = (r1, w1)"
    by (cases "handlers_loop V sid key rid request (mm_equal_range key hs) False (TableBag [] []) w")
  have w1: "inv w1" "r1 \<noteq> Terminate" "r1 = UB \<Longrightarrow> risky (cstr key)" "\<And>f resp. r1 = Ok (f, resp) \<Longrightarrow> isTable resp"
    using loop_correct [OF assms(1,2) _ l] by simp_all
  show ?thesis
  proof (cases r1)
    case (Ok x)
    then obtain f resp where x: "r1 = Ok (f, resp)" by (cases x) auto
    have "safe (propertyBagToJson (env_reg E) resp)"
      using w1(4) [OF x] by (intro propertyBagToJson_safe) (cases resp; simp)
    then show ?thesis
      using assms(3) w1(1) x l by (auto simp: rp_dispatch_def rp_fail_def elim!: safe_cases split: if_splits)
  qed (use assms(3) l w1 in \<open>auto simp: rp_dispatch_def\<close>)
qed

lemma request_correct:
  assumes "inv w" and "rp_request E V hs sid request w = (r, w')"
  shows "inv w' \<and> (r = Terminate \<longleftrightarrow> (\<exists>n t. request = TableBag n t \<and> find_id t = Terminate)) \<and>
    (r = UB \<longrightarrow> (\<exists>n t m p key. request = TableBag n t \<and> um_find t (pi_idstr Request_Command) = Some (PropBag m p) \<and>
       any_cast_string (p_value p) = Ok key \<and> risky (cstr key)))"
proof (cases request)
  case (TableBag n t)
  show ?thesis
  proof (cases "find_id t")
    case (Ok rid)
    show ?thesis
    proof (cases "um_find t (pi_idstr Request_Command)")
      case (Some b)
      show ?thesis
      proof (cases b)
        case (PropBag m p)
        show ?thesis
        proof (cases "any_cast_string (p_value p)")
          case (Ok key)
          have d: "rp_dispatch E V hs sid key rid request w = (r, w')"
            using assms(2) TableBag Some PropBag Ok \<open>find_id t = outcome.Ok rid\<close> by (simp add: rp_request_def)
          then show ?thesis
            using dispatch_correct [OF assms(1) _ d] TableBag \<open>find_id t = outcome.Ok rid\<close> Some PropBag Ok by auto
        qed (use assms TableBag \<open>find_id t = outcome.Ok rid\<close> Some PropBag in
            \<open>auto simp: rp_request_def any_cast_string_def split: any_val.splits\<close>)
      qed (use assms TableBag Ok Some in \<open>auto simp: rp_request_def rp_fail_def\<close>)
    qed (use assms TableBag Ok in \<open>auto simp: rp_request_def rp_fail_def\<close>)
  qed (use assms TableBag find_id_safe(2) in \<open>auto simp: rp_request_def\<close>)
qed (use assms in \<open>auto simp: rp_request_def rp_fail_def\<close>)

text \<open>
  A request never raises an exception out of the processor, keeps the invariant, ends the process
  exactly when its id is an array or an object, and is undefined only if it asks for a risky command.
\<close>

lemma process_correct:
  assumes "inv w" and "rp_process parse E V hs sid text w = (r, w')"
  shows "inv w' \<and> (\<forall>e. r \<noteq> Throw e) \<and> (r = Terminate \<longleftrightarrow> kills (parse text)) \<and>
    (r = UB \<longrightarrow> asks risky (parse text))"
proof -
  define w0 where "w0 = LogDebug (CHR 0x0A # ''-> '' @ cstr text @ [CHR 0x0A]) w"
  have w0: "inv w0" using assms(1) by (simp add: w0_def)
  have catch: "rp_process parse E V hs sid text w = (r, w') \<Longrightarrow>
      rp_body parse E V hs sid text w = (q, v) \<Longrightarrow> inv v \<Longrightarrow> (q = Terminate \<longleftrightarrow> kills (parse text)) \<Longrightarrow>
      (q = UB \<longrightarrow> asks risky (parse text)) \<Longrightarrow>
      inv w' \<and> (\<forall>e. r \<noteq> Throw e) \<and> (r = Terminate \<longleftrightarrow> kills (parse text)) \<and> (r = UB \<longrightarrow> asks risky (parse text))" for q v
    by (cases q) (auto simp: rp_process_def rp_fail_def)
  show ?thesis
  proof (cases "parse text")
    case (Inl e)
    obtain m i where "e = (m, i)" by (cases e)
    then show ?thesis
      using catch [OF assms(2), of _ w0] Inl w0
      by (auto simp: rp_body_def propertyBagFromJson_def w0_def kills_def)
  next
    case (Inr j)
    have keep: "inv (snd s) \<Longrightarrow> inv (snd (snd (jeh_handle m s)))" for m s
      by (cases s) (simp add: jeh_handle_def)
    have inv1: "inv (snd (snd (bagFromJson E jeh_handle [] j (jeh_init, w0))))"
      using FromJson_keeps(1) [where P = "\<lambda>s. inv (snd s)" and eh = jeh_handle, OF keep refl, of "(jeh_init, w0)"] w0 by simp
    obtain b s1 where b: "bagFromJson E jeh_handle [] j (jeh_init, w0) = (Ok b, s1)"
      using jeh.bagFromJson_returns [of E "[]" j "(jeh_init, w0)"] by (auto simp: returns_iff)
    obtain q v where q: "rp_request E V hs sid b (snd s1) = (q, v)"
      by (cases "rp_request E V hs sid b (snd s1)")
    have "inv (snd s1)" using inv1 b by simp
    then have c: "inv v" "q = Terminate \<longleftrightarrow> kills (parse text)"
      using request_correct [OF _ q] bagFromJson_id [OF b] Inr by (simp_all add: kills_def)
    have u: "asks risky (parse text)" if ub: "q = UB"
    proof -
      obtain n t m p key where "b = TableBag n t" "um_find t (pi_idstr Request_Command) = Some (PropBag m p)"
          "any_cast_string (p_value p) = Ok key" "risky (cstr key)"
        using request_correct [OF \<open>inv (snd s1)\<close> q, THEN conjunct2, THEN conjunct2, THEN mp, OF ub]
        by (elim exE conjE)
      from bagFromJson_command [OF b [unfolded this(1)] this(2,3), of risky, OF this(4)] show ?thesis unfolding Inr .
    qed
    have "rp_body parse E V hs sid text w = (q, v)"
      using Inr b q by (cases s1) (simp add: rp_body_def propertyBagFromJson_def w0_def)
    from catch [OF assms(2) this c] u show ?thesis by simp
  qed
qed

end

section \<open>Commands nobody serves, and the answer of several handlers\<close>

lemma request_process:
  assumes "parse text = Inr (request_json rid command)"
  shows "rp_process parse server_env V hs sid text w =
    (case rp_dispatch server_env V hs sid command rid (request_table rid command)
        (LogDebug (CHR 0x0A # ''-> '' @ cstr text @ [CHR 0x0A]) w) of
       (Throw e, w') \<Rightarrow> rp_fail 0 (what e) (what e) w'
     | r \<Rightarrow> r)"
  using assms
  by (simp add: rp_process_def rp_body_def propertyBagFromJson_def request_read rp_request_def
      request_table_def find_id_def any_cast_int_def any_cast_string_def Request_Id_def Request_Command_def)

text \<open>
  A well-formed request for a command without a handler is answered with the failure text that
  carries the id of the request; nothing but the log changes.
\<close>

lemma unknown_command:
  assumes "parse text = Inr (request_json rid command)" and "command \<notin> fst ` set hs"
  shows "fst (rp_process parse server_env V hs sid text w) = Ok (fail rid ''Unsupported request'') \<and>
    same_but_log (snd (rp_process parse server_env V hs sid text w)) w"
proof -
  have "mm_equal_range command hs = []"
    using assms(2) by (force simp: mm_equal_range_def filter_empty_conv)
  then show ?thesis
    by (simp add: request_process [of parse "text", OF assms(1)] rp_dispatch_def rp_fail_def)
qed

lemma unknown_command_witness:
  "fst (rp_process (\<lambda>_. Inr (request_json 5 ''reboot'')) server_env silent_vtable [(''stop'', 1)] 0 ''text''
     \<lparr>w_level = Info, w_log = []\<rparr>) = Ok (fail 5 ''Unsupported request'')"
  using unknown_command [of "\<lambda>_. Inr (request_json 5 ''reboot'')" "''text''" 5 "''reboot''" "[(''stop'', 1)]"
      silent_vtable 0 "\<lparr>w_level = Info, w_log = []\<rparr>"] by simp

lemma sbind_Ok [simp]: "sbind r (\<lambda>x w. (Ok x, w)) = r"
  by (cases r; cases "fst r") auto

lemma sbind_assoc: "sbind (sbind r f) g = sbind r (\<lambda>x w. sbind (f x w) g)"
  by (cases r; cases "fst r") auto

lemma sbind_cong: "(\<And>x w. f x w = g x w) \<Longrightarrow> sbind r f = sbind r g"
  by (cases r; cases "fst r") auto

lemma handlers_loop_Nil: "handlers_loop V sid key rid request [] = (\<lambda>found response w. (Ok (found, response), w))"
  by (intro ext) simp

lemma handlers_loop_snoc:
  "handlers_loop V sid key rid request (hs @ [h]) found response w =
     sbind (handlers_loop V sid key rid request hs found response w)
       (\<lambda>(f, resp) w'. vt_process V h sid (cstr key) rid request resp w')"
proof (induction hs arbitrary: found response w)
  case Nil
  show ?case by (simp add: handlers_loop_Nil case_prod_unfold)
next
  case (Cons g hs)
  then show ?case
    by (auto simp: sbind_assoc case_prod_unfold intro!: sbind_cong)
qed

text \<open>
  When several handlers serve a command, all of them run in order on the same response, but only
  the flag of the last one counts: if it declines, the answer is a failure although an earlier
  handler has already carried the command out.
\<close>

lemma last_handler_decides:
  assumes "mm_equal_range key hs = gs @ [h]"
    and "handlers_loop V sid key rid request gs False (TableBag [] []) w = (Ok (found, response), w1)"
    and "vt_process V h sid (cstr key) rid request response w1 = (Ok (False, response2), w2)"
  shows "rp_dispatch E V hs sid key rid request w =
    (Ok (fail rid ''Unsupported request''), world_log Error ''RequestProcessor: unsupported request'' w2)"
  using assms by (simp add: rp_dispatch_def handlers_loop_snoc rp_fail_def)

definition moody_vtable :: "(nat, world) vtable" where
  "moody_vtable = silent_vtable\<lparr>vt_process := (\<lambda>h sid key rid req resp w. (Ok (h = 1, resp), w))\<rparr>"

lemma last_handler_decides_witness:
  "rp_dispatch server_env moody_vtable [(''stop'', 1), (''stop'', 2)] 0 ''stop'' 3 (TableBag [] [])
     \<lparr>w_level = Info, w_log = []\<rparr> =
   (Ok (fail 3 ''Unsupported request''),
    world_log Error ''RequestProcessor: unsupported request'' \<lparr>w_level = Info, w_log = []\<rparr>)"
  using last_handler_decides [of "''stop''" "[(''stop'', 1), (''stop'', 2)]" "[1]" 2 moody_vtable 0 3 "TableBag [] []"
      "\<lparr>w_level = Info, w_log = []\<rparr>" True "TableBag [] []" "\<lparr>w_level = Info, w_log = []\<rparr>" "TableBag [] []"
      "\<lparr>w_level = Info, w_log = []\<rparr>" server_env]
  by (simp add: mm_equal_range_def moody_vtable_def)

section \<open>Notifications\<close>

text \<open>
  A handler registered for several commands is notified several times; a handler whose reaction is
  idempotent, and independent of that of the others, cannot tell.
\<close>

locale session_listeners =
  fixes notify :: "'h \<Rightarrow> 'w \<Rightarrow> 'w"
  assumes idem: "notify h (notify h w) = notify h w"
    and commute: "notify g (notify h w) = notify h (notify g w)"
begin

lemma notify_again: "h \<in> set hs \<Longrightarrow> fold notify hs (notify h w) = fold notify hs w"
proof (induction hs arbitrary: w)
  case (Cons g hs)
  show ?case
  proof (cases "g = h")
    case False
    then have "fold notify hs (notify h (notify g w)) = fold notify hs (notify g w)"
      using Cons by simp
    then show ?thesis by (simp add: commute [of g h])
  qed (simp add: idem)
qed simp

lemma notify_remdups: "fold notify hs w = fold notify (remdups hs) w"
proof (induction hs arbitrary: w)
  case (Cons h hs)
  then show ?case using notify_again [of h hs w] by simp
qed simp

end

end
