(* ===== verification/Kes_BagText.thy ===== *)
theory Kes_BagText
  imports Kes_BagJson
begin

text \<open>
  What a bag put together by the server is printed as. The document of a bag takes the members of an
  object from the names the entries carry, which is what the writer prints, not from their keys.
\<close>

fun val_json :: "any_val \<Rightarrow> json" where
  "val_json (ABool b) = JBool b"
| "val_json (AInt i) = JInt (sint i)"
| "val_json (AInt64 i) = JInt (sint i)"
| "val_json (AUInt u) = JInt (uint u)"
| "val_json (AUInt64 u) = JInt (uint u)"
| "val_json (AString s) = JStr s"
| "val_json _ = JNull"

fun json_of_bag :: "bag \<Rightarrow> json" where
  "json_of_bag EmptyBag = JNull"
| "json_of_bag (PropBag n p) = val_json (p_value p)"
| "json_of_bag (ArrayBag n a) = JArr (map json_of_bag a)"
| "json_of_bag (TableBag n t) = JObj (map (\<lambda>e. (bag_name (snd e), json_of_bag (snd e))) t)"

definition prints_value :: "registry \<Rightarrow> property \<Rightarrow> bool" where
  "prints_value R p \<longleftrightarrow> any_type (p_value p) \<in> {TBool, TInt, TInt64, TUInt, TUInt64, TString} \<and>
     effective_type R p = any_type (p_value p)"

fun prints :: "registry \<Rightarrow> bag \<Rightarrow> bool" where
  "prints R EmptyBag \<longleftrightarrow> False"
| "prints R (PropBag n p) \<longleftrightarrow> prints_value R p"
| "prints R (ArrayBag n a) \<longleftrightarrow> (\<forall>b \<in> set a. prints R b \<and> bag_name b = [])"
| "prints R (TableBag n t) \<longleftrightarrow> (\<forall>e \<in> set t. prints R (snd e) \<and> key_ok (bag_name (snd e)))"

lemma show_int_uint: "show_int (uint u) = show_nat (unat u)"
  by (simp only: show_int_def unat_eq_nat_uint uint_lt_0 if_False)

lemma prints_value_text:
  assumes "prints_value R p"
  shows "propertyToJson R (PropBag n p) w = Ok (put_value (render dtoa (val_json (p_value p))) w)"
    and "NUL \<notin> set (render dtoa (val_json (p_value p)))"
  using assms
  by (cases "p_value p";
      simp add: prints_value_def propertyToJson_def has_value_def any_cast_defs writer_simps show_int_uint
        show_nat_no_nul show_int_no_nul WriteString_no_nul)+

lemma items_read_back_all:
  "\<forall>b \<in> set bs. reads_back R dtoa [] (f b) b \<Longrightarrow> items_read_back R dtoa (map f bs) bs"
proof (induction bs)
  case Nil
  then show ?case by (simp add: items_read_back_def)
next
  case (Cons b bs)
  then show ?case using items_read_back_Cons by simp
qed

lemma members_read_back_all:
  "\<forall>e \<in> set es. key_ok (g e) \<and> reads_back R dtoa (g e) (f e) (snd e) \<Longrightarrow>
     members_read_back R dtoa (map (\<lambda>e. (g e, f e)) es) es"
proof (induction es)
  case Nil
  then show ?case by (simp add: members_read_back_def)
next
  case (Cons e es)
  then have "members_read_back R dtoa ((g e, f e) # map (\<lambda>e. (g e, f e)) es) ((g e, snd e) # es)"
    by (intro members_read_back_Cons) auto
  then show ?case by (cases e) (simp add: members_read_back_def)
qed

lemma prints_reads_back: "prints R b \<Longrightarrow> reads_back R dtoa (bag_name b) (json_of_bag b) b"
proof (induction b rule: json_of_bag.induct)
  case (2 n p)
  then show ?case using prints_value_text by (simp add: reads_back_def)
next
  case (3 n a)
  then show ?case by (simp add: reads_back_array items_read_back_all)
next
  case (4 n t)
  then have "members_read_back R dtoa (map (\<lambda>e. (bag_name (snd e), json_of_bag (snd e))) t) t"
    by (intro members_read_back_all) auto
  then show ?case by (simp add: reads_back_object)
qed simp

lemma prints_text:
  assumes "prints R b" and "bag_name b = []"
  shows "propertyBagToJson R b = Ok (render dtoa (json_of_bag b))"
  using prints_reads_back [OF assms(1), of dtoa] assms(2)
  by (simp add: reads_back_def propertyBagToJson_def jw_GetString_def put_value_def jw_put_def
      jw_Prefix_def jw_init_def)

end
