(* ===== verification/Kes_GlobalCmd.thy ===== *)
theory Kes_GlobalCmd
  imports Kes_RequestProcessor Kes_BagText
begin

text \<open>
  The handler of the commands \<^verbatim>\<open>stop\<close> and \<^verbatim>\<open>version\<close>
  (\<^verbatim>\<open>src/kexplorer-server/globalcmdhandler.cxx\<close>) and the state of the condition variable it
  signals (\<^verbatim>\<open>include/kesrv/condition.hxx\<close>).
\<close>

section \<open>The exit condition\<close>

record condition =
  c_signaled :: bool
  c_autoReset :: bool

definition Condition :: "bool \<Rightarrow> bool \<Rightarrow> condition" where
  "Condition autoReset initiallySignaled = \<lparr>c_signaled = initiallySignaled, c_autoReset = autoReset\<rparr>"

definition condition_set :: "condition \<Rightarrow> condition" where
  "condition_set c = c\<lparr>c_signaled := True\<rparr>"

definition condition_reset :: "condition \<Rightarrow> condition" where
  "condition_reset c = c\<lparr>c_signaled := False\<rparr>"

record gc_world = world +
  gc_exitCondition :: condition

section \<open>Filling tables\<close>

text \<open>Several \<^verbatim>\<open>addToTable\<close> calls in a row.\<close>

fun add_values :: "(pinfo \<times> any_val) list \<Rightarrow> bag \<Rightarrow> bag outcome" where
  "add_values [] table = Ok table"
| "add_values ((pr, v) # vs) table = obind (addToTable pr table v) (add_values vs)"

definition entry :: "pinfo \<times> any_val \<Rightarrow> string \<times> bag" where
  "entry pv = (pi_idstr (fst pv), PropBag (pi_idstr (fst pv)) \<lparr>p_id = pi_id (fst pv), p_value = snd pv, p_info = None\<rparr>)"

lemma fst_entry [simp]: "fst (entry pv) = pi_idstr (fst pv)"
  by (simp add: entry_def)

lemma bag_name_entry [simp]: "bag_name (snd (entry pv)) = pi_idstr (fst pv)"
  by (simp add: entry_def)

lemma add_values_fresh:
  assumes "distinct (map (pi_idstr \<circ> fst) vs)" and "\<forall>pv \<in> set vs. um_find t (pi_idstr (fst pv)) = None"
  shows "add_values vs (TableBag n t) = Ok (TableBag n (t @ map entry vs))"
  using assms
proof (induction vs arbitrary: t)
  case (Cons pv vs)
  then have "add_values vs (TableBag n (t @ [entry pv])) = Ok (TableBag n (t @ map entry (pv # vs)))"
    by (subst Cons.IH) (auto simp: entry_def um_find_append image_iff comp_def split: option.split)
  then show ?case using Cons.prems by (cases pv) (simp add: addToTable_TableBag entry_def)
qed simp

definition member_json :: "pinfo \<times> any_val \<Rightarrow> string \<times> json" where
  "member_json pv = (pi_idstr (fst pv), val_json (snd pv))"

lemma json_of_entry [simp]: "json_of_bag (snd (entry pv)) = val_json (snd pv)"
  by (simp add: entry_def)

definition typed_value :: "registry \<Rightarrow> pinfo \<times> any_val \<Rightarrow> bool" where
  "typed_value R pv \<longleftrightarrow> any_type (snd pv) = pi_type (fst pv) \<and>
     pi_type (fst pv) \<in> {TBool, TInt, TInt64, TUInt, TUInt64, TString} \<and> key_ok (pi_idstr (fst pv)) \<and>
     (lookupProperty R (pi_id (fst pv)) = None \<or> lookupProperty R (pi_id (fst pv)) = Some (fst pv))"

lemma prints_entry: "typed_value R pv \<Longrightarrow> prints R (snd (entry pv)) \<and> key_ok (bag_name (snd (entry pv)))"
  by (auto simp: typed_value_def entry_def prints_value_def effective_type_def)

lemma server_prop_lookup:
  "p \<in> set startup_properties \<Longrightarrow> lookupProperty server_registry (pi_id p) = None \<or>
     lookupProperty server_registry (pi_id p) = Some p"
  by simp

section \<open>The handler\<close>

definition s_commands :: "string list" where
  "s_commands = [''stop'', ''version'']"

definition gc_create ::
    "('h, 'z world_scheme) vtable \<Rightarrow> 'h \<Rightarrow> 'h handlers \<times> 'z world_scheme \<Rightarrow> 'h handlers \<times> 'z world_scheme" where
  "gc_create V this st = fold (\<lambda>cmd. registerHandler V cmd this) s_commands st"

definition gc_destroy ::
    "('h, 'z world_scheme) vtable \<Rightarrow> 'h \<Rightarrow> 'h handlers \<times> 'z world_scheme \<Rightarrow> 'h handlers \<times> 'z world_scheme" where
  "gc_destroy V this st = fold (\<lambda>cmd. unregisterHandler V cmd this) s_commands st"

text \<open>\<^verbatim>\<open>KES_VERSION_STR\<close> is generated by the build; the copyright sign is two bytes in UTF-8.\<close>

definition KES_APPLICATION_NAME :: string where
  "KES_APPLICATION_NAME = ''KernelExplorer''"

definition KES_COPYRIGHT :: string where
  "KES_COPYRIGHT = ''Copyright '' @ [CHR 0xC2, CHR 0xA9] @ '' 2023 Lee Oswald''"

definition version_text :: "string \<Rightarrow> string" where
  "version_text version = KES_APPLICATION_NAME @ '' '' @ version @ '' '' @ KES_COPYRIGHT"

definition gc_process ::
    "string \<Rightarrow> u32 \<Rightarrow> string \<Rightarrow> i32 \<Rightarrow> bag \<Rightarrow> bag \<Rightarrow> 'z gc_world_scheme \<Rightarrow> (bool \<times> bag) outcome \<times> 'z gc_world_scheme" where
  "gc_process version sid key rid request response w =
     (if key = ''stop'' then
        sbind (add_values [(Request_Id, AInt rid), (Response_Status, AString Success)] response,
               world_log Info ''GlobalCmdHandler: [stop] command received'' w)
          (\<lambda>response w. (Ok (True, response), w\<lparr>gc_exitCondition := condition_set (gc_exitCondition w)\<rparr>))
      else if key = ''version'' then
        sbind (add_values [(Request_Id, AInt rid), (Response_Status, AString Success),
                 (Response_Version, AString (version_text version))] response,
               world_log Info ''GlobalCmdHandler: [version] command received'' w)
          (\<lambda>response w. (Ok (True, response), w))
      else
        (Ok (False, response), world_log Error (''GlobalCmdHandler: unknown command ['' @ key @ '']'') w))"

definition gc_startSession :: "u32 \<Rightarrow> 'w \<Rightarrow> 'w" where
  "gc_startSession sid w = w"

definition gc_endSession :: "u32 \<Rightarrow> 'w \<Rightarrow> 'w" where
  "gc_endSession sid w = w"

section \<open>What it answers\<close>

lemma gc_process_total:
  assumes "isTable response"
  shows "\<exists>found response'. fst (gc_process version sid key rid request response w) = Ok (found, response') \<and> isTable response'"
proof -
  obtain n t where "response = TableBag n t" using assms by (cases response) auto
  then show ?thesis by (auto simp: gc_process_def addToTable_TableBag)
qed

lemma gc_stop:
  "gc_process version sid ''stop'' rid request (TableBag [] []) w =
    (Ok (True, TableBag [] (map entry [(Request_Id, AInt rid), (Response_Status, AString Success)])),
     (world_log Info ''GlobalCmdHandler: [stop] command received'' w)
       \<lparr>gc_exitCondition := condition_set (gc_exitCondition w)\<rparr>)"
  by (simp add: gc_process_def addToTable_TableBag entry_def Request_Id_def Response_Status_def world_log_def)

lemma gc_version:
  "gc_process version sid ''version'' rid request (TableBag [] []) w =
    (Ok (True, TableBag [] (map entry [(Request_Id, AInt rid), (Response_Status, AString Success),
       (Response_Version, AString (version_text version))])),
     world_log Info ''GlobalCmdHandler: [version] command received'' w)"
  by (simp add: gc_process_def addToTable_TableBag entry_def Request_Id_def Response_Status_def Response_Version_def)

end
