(* ===== verification/Kes_CLib.thy ===== *)
theory Kes_CLib
  imports Kes_Property
begin

text \<open>
  The functions of the C and C++ libraries the text-reading code uses: character classes of the
  \<^verbatim>\<open>"C"\<close> locale, the conversions \<^verbatim>\<open>strtol\<close>, \<^verbatim>\<open>strtoul\<close> (and \<^verbatim>\<open>strtoull\<close>, the same on a
  64-bit target) and \<^verbatim>\<open>std::stoul\<close>, \<^verbatim>\<open>std::getline\<close>, and searches in strings. The conversions take
  the text of a C string, that is, what comes before the NUL.
\<close>

section \<open>Characters\<close>

definition isspace :: "char \<Rightarrow> bool" where
  "isspace c \<longleftrightarrow> c = CHR '' '' \<or> (9 \<le> (of_char c :: nat) \<and> (of_char c :: nat) \<le> 13)"

definition isdigit :: "char \<Rightarrow> bool" where
  "isdigit c \<longleftrightarrow> 48 \<le> (of_char c :: nat) \<and> (of_char c :: nat) \<le> 57"

definition digit_of :: "char \<Rightarrow> nat" where
  "digit_of c = of_char c - 48"

section \<open>Numbers\<close>

definition dec_value :: "string \<Rightarrow> nat" where
  "dec_value ds = foldl (\<lambda>n c. 10 * n + digit_of c) 0 ds"

text \<open>The sign and the digits at the start of a text, after white space.\<close>

definition number_at :: "string \<Rightarrow> bool \<times> string" where
  "number_at s =
     (case dropWhile isspace s of
        [] \<Rightarrow> (False, [])
      | c # t \<Rightarrow>
          if c = CHR ''-'' then (True, takeWhile isdigit t)
          else if c = CHR ''+'' then (False, takeWhile isdigit t)
          else (False, takeWhile isdigit (c # t)))"

text \<open>The value, and whether it was out of range; without digits it is 0.\<close>

definition strtoul_range :: "string \<Rightarrow> u64 \<times> bool" where
  "strtoul_range s =
     (let (neg, ds) = number_at s; n = dec_value ds in
      if n \<ge> 2 ^ 64 then (- 1, True) else (if neg then - of_nat n else of_nat n, False))"

definition strtoul :: "string \<Rightarrow> u64" where
  "strtoul s = fst (strtoul_range s)"

definition strtol :: "string \<Rightarrow> i64" where
  "strtol s =
     (let (neg, ds) = number_at s; n = int (dec_value ds) in
      of_int (if neg then max (- n) (- (2 ^ 63)) else min n (2 ^ 63 - 1)))"

text \<open>\<^verbatim>\<open>std::stoul\<close> throws when there is no number, or when it is out of range.\<close>

definition stoul :: "string \<Rightarrow> u64 outcome" where
  "stoul s =
     (if snd (number_at s) = [] then Throw (StdExn ''stoul'')
      else (case strtoul_range s of (n, oor) \<Rightarrow> if oor then Throw (StdExn ''stoul'') else Ok n))"

section \<open>Strings\<close>

text \<open>
  \<^verbatim>\<open>std::getline(stream, s, delim)\<close>: the line and the rest of the stream; \<open>None\<close> when nothing
  is left, which makes the stream fail and the line empty.
\<close>

definition getline :: "char \<Rightarrow> string \<Rightarrow> (string \<times> string) option" where
  "getline delim s =
     (if s = [] then None
      else Some (takeWhile (\<lambda>c. c \<noteq> delim) s, drop 1 (dropWhile (\<lambda>c. c \<noteq> delim) s)))"

abbreviation NL :: char where
  "NL \<equiv> CHR 0x0A"

text \<open>The position of the last occurrence (\<^verbatim>\<open>std::string::find_last_of\<close> of one character, \<^verbatim>\<open>strrchr\<close>).\<close>

fun find_last :: "char \<Rightarrow> string \<Rightarrow> nat option" where
  "find_last c [] = None"
| "find_last c (x # xs) =
     (case find_last c xs of Some i \<Rightarrow> Some (Suc i) | None \<Rightarrow> if x = c then Some 0 else None)"

section \<open>Facts about the numbers\<close>

lemma of_char_digit_char [simp]: "d < 10 \<Longrightarrow> (of_char (digit_char d) :: nat) = 48 + d"
  by (simp add: digit_char_def)

lemma isdigit_digit_char [simp]: "d < 10 \<Longrightarrow> isdigit (digit_char d)"
  by (simp add: isdigit_def)

lemma digit_of_digit_char [simp]: "d < 10 \<Longrightarrow> digit_of (digit_char d) = d"
  by (simp add: digit_of_def)

lemma isdigit_not_space: "isdigit c \<Longrightarrow> \<not> isspace c"
  by (auto simp: isdigit_def isspace_def)

lemma dec_value_snoc [simp]: "dec_value (ds @ [c]) = 10 * dec_value ds + digit_of c"
  by (simp add: dec_value_def)

lemma dec_value_Nil [simp]: "dec_value [] = 0"
  by (simp add: dec_value_def)

lemma show_nat_digits: "c \<in> set (show_nat n) \<Longrightarrow> isdigit c"
proof (induction n rule: show_nat.induct)
  case (1 n)
  then show ?case by (subst (asm) (2) show_nat.simps) (auto split: if_splits)
qed

lemma show_nat_not_Nil [simp]: "show_nat n \<noteq> []"
  by (subst show_nat.simps) simp

lemma dec_value_show_nat [simp]: "dec_value (show_nat n) = n"
proof (induction n rule: show_nat.induct)
  case (1 n)
  show ?case
  proof (cases "n < 10")
    case True
    then show ?thesis using dec_value_snoc [of "[]"] by (simp add: show_nat.simps)
  next
    case False
    then show ?thesis using "1.IH" by (subst show_nat.simps) simp
  qed
qed

text \<open>A text that does not go on with a digit.\<close>

definition ends_number :: "string \<Rightarrow> bool" where
  "ends_number t \<longleftrightarrow> (case t of [] \<Rightarrow> True | c # _ \<Rightarrow> \<not> isdigit c)"

lemma ends_number_simps [simp]: "ends_number []" "ends_number (c # t) = (\<not> isdigit c)"
  by (simp_all add: ends_number_def)

lemma takeWhile_show_nat: "ends_number t \<Longrightarrow> takeWhile isdigit (show_nat n @ t) = show_nat n"
  using show_nat_digits [of _ n] by (cases t) (auto simp: takeWhile_append)

lemma number_at_show_nat: "ends_number t \<Longrightarrow> number_at (show_nat n @ t) = (False, show_nat n)"
proof -
  assume t: "ends_number t"
  obtain c s where c: "show_nat n = c # s" by (cases "show_nat n") auto
  then have d: "isdigit c" using show_nat_digits [of c n] by simp
  have "takeWhile isdigit (c # s @ t) = c # s" using takeWhile_show_nat [OF t, of n] c by simp
  then show ?thesis using d isdigit_not_space [OF d] by (auto simp: number_at_def c isdigit_def)
qed

lemma number_at_show_int:
  "ends_number t \<Longrightarrow> number_at (show_int i @ t) = (i < 0, show_nat (nat \<bar>i\<bar>))"
  using number_at_show_nat [of t "nat i"]
  by (auto simp: show_int_def number_at_def takeWhile_show_nat isspace_def)

lemma number_at_space: "isspace c \<Longrightarrow> number_at (c # s) = number_at s"
  by (simp add: number_at_def)

lemma strtol_show_int:
  "ends_number t \<Longrightarrow> - (2 ^ 63) \<le> i \<Longrightarrow> i < 2 ^ 63 \<Longrightarrow> strtol (show_int i @ t) = of_int i"
  by (auto simp: strtol_def number_at_show_int Let_def)

lemma strtoul_show_nat:
  "ends_number t \<Longrightarrow> n < 2 ^ 64 \<Longrightarrow> strtoul (show_nat n @ t) = of_nat n"
  by (simp add: strtoul_def strtoul_range_def number_at_show_nat)

lemma stoul_show_nat:
  "ends_number t \<Longrightarrow> stoul (show_nat n @ t) = (if n < 2 ^ 64 then Ok (of_nat n) else Throw (StdExn ''stoul''))"
  by (simp add: stoul_def strtoul_range_def number_at_show_nat)

section \<open>Facts about lines and positions\<close>

lemma getline_line: "c \<notin> set s \<Longrightarrow> getline c (s @ c # t) = Some (s, t)"
proof -
  assume c: "c \<notin> set s"
  then have "takeWhile (\<lambda>x. x \<noteq> c) (s @ c # t) = s" "dropWhile (\<lambda>x. x \<noteq> c) (s @ c # t) = c # t"
    by (auto simp: takeWhile_append dropWhile_append)
  then show ?thesis by (simp add: getline_def)
qed

lemma getline_last: "c \<notin> set s \<Longrightarrow> s \<noteq> [] \<Longrightarrow> getline c s = Some (s, [])"
proof -
  assume c: "c \<notin> set s" "s \<noteq> []"
  then have "takeWhile (\<lambda>x. x \<noteq> c) s = s" "dropWhile (\<lambda>x. x \<noteq> c) s = []"
    by (auto simp: takeWhile_eq_all_conv dropWhile_eq_Nil_conv)
  then show ?thesis using c(2) by (simp add: getline_def del: dropWhile_eq_Nil_conv)
qed

lemma getline_shorter: "getline c s = Some (l, t) \<Longrightarrow> length t < length s"
proof -
  assume a: "getline c s = Some (l, t)"
  then have "t = drop 1 (dropWhile (\<lambda>x. x \<noteq> c) s)" "s \<noteq> []"
    by (auto simp: getline_def split: if_splits)
  then show ?thesis using length_dropWhile_le [of "\<lambda>x. x \<noteq> c" s] by (cases s) (auto simp: less_Suc_eq_le)
qed

lemma find_last_None [simp]: "find_last c s = None \<longleftrightarrow> c \<notin> set s"
  by (induction s) (auto split: option.splits)

lemma find_last_split: "c \<notin> set t \<Longrightarrow> find_last c (s @ c # t) = Some (length s)"
  by (induction s) (auto split: option.splits)

lemma find_last_Some:
  "find_last c s = Some i \<Longrightarrow> i < length s \<and> s ! i = c \<and> c \<notin> set (drop (Suc i) s)"
  by (induction s arbitrary: i) (auto split: option.splits if_splits simp: nth_Cons')

lemma find_last_append:
  "find_last c (s @ t) = (case find_last c t of Some i \<Rightarrow> Some (length s + i) | None \<Rightarrow> find_last c s)"
  by (induction s) (simp_all del: find_last_None split: option.split)

end
