(* ===== verification/Kes_ExceptionText.thy ===== *)
theory Kes_ExceptionText
  imports Kes_Registry Kes_World Kes_CLib
begin

text \<open>
  The text of an exception for the log (\<^verbatim>\<open>src/kesrv/util/exceptionutil.cxx\<close>): the message, where it
  was thrown, its properties, and the exceptions nested in it, each level indented. A property is
  printed by the formatter of its description; when the stored value has another type the formatter
  throws, and the whole text is lost.
\<close>

section \<open>Thrown objects\<close>

text \<open>The file, the line and the printed stack trace of a \<^verbatim>\<open>SourceLocation\<close> (no frames: the empty text).\<close>

record location =
  sl_file :: string
  sl_line :: nat
  sl_stack :: string

text \<open>
  What is thrown, with the exception nested in it, if any. \<open>OtherThrown\<close> is not derived from
  \<^verbatim>\<open>std::exception\<close>.
\<close>

datatype thrown =
    KesThrown kes_exception location "thrown option"
  | StdThrown string "thrown option"
  | OtherThrown

section \<open>The code\<close>

definition format_value :: "formatter \<Rightarrow> any_val \<Rightarrow> string outcome" where
  "format_value f a =
     (case f of
        NullFormatter \<Rightarrow> Ok []
      | BoolFormatter \<Rightarrow> omap (\<lambda>b. if b then ''true'' else ''false'') (any_cast_bool a)
      | StringFormatter \<Rightarrow> any_cast_string a
      | IntegralFormatter ty \<Rightarrow>
          (if ty = TInt then omap (\<lambda>i. show_int (sint i)) (any_cast_int a)
           else if ty = TInt64 then omap (\<lambda>i. show_int (sint i)) (any_cast_int64 a)
           else if ty = TUInt then omap (\<lambda>i. show_nat (unat i)) (any_cast_uint a)
           else if ty = TUInt64 then omap (\<lambda>i. show_nat (unat i)) (any_cast_uint64 a)
           else Throw bad_any_cast))"

definition level_indent :: "nat \<Rightarrow> string" where
  "level_indent lvl = replicate (lvl * 3) CHR '' ''"

fun format_props :: "registry \<Rightarrow> string \<Rightarrow> property list \<Rightarrow> string outcome" where
  "format_props R indent [] = Ok []"
| "format_props R indent (p # ps) =
     obind
       (case lookupProperty R (p_id p) of
          Some pi \<Rightarrow> omap (\<lambda>s. cstr (pi_name pi) @ '': '' @ s) (format_value (pi_format pi) (p_value p))
        | None \<Rightarrow> Ok ('' 0x'' @ hex8 (p_id p) @ '': ???''))
       (\<lambda>s. omap (\<lambda>rest. [NL, CHR '' ''] @ indent @ s @ rest) (format_props R indent ps))"

definition format_location :: "string \<Rightarrow> location \<Rightarrow> string" where
  "format_location indent l =
     NL # indent @ '' File: '' @ cstr (sl_file l) @
     NL # indent @ '' Line: '' @ show_nat (sl_line l) @
     (if sl_stack l \<noteq> [] then NL # indent @ '' Stack:'' @ NL # sl_stack l else [])"

fun format_thrown :: "registry \<Rightarrow> nat \<Rightarrow> thrown \<Rightarrow> string outcome" where
  "format_thrown R lvl (StdThrown w nested) =
     omap (\<lambda>s. (if lvl > 0 then NL # level_indent lvl else []) @ cstr w @ s)
       (case nested of None \<Rightarrow> Ok [] | Some t \<Rightarrow> format_thrown R (lvl + 1) t)"
| "format_thrown R lvl (KesThrown e l nested) =
     obind (case ex_properties e of None \<Rightarrow> Ok [] | Some ps \<Rightarrow> format_props R (level_indent lvl) ps)
       (\<lambda>props. omap
          (\<lambda>s. (if lvl > 0 then NL # level_indent lvl else []) @
               (case ex_message e of Some m \<Rightarrow> m | None \<Rightarrow> cstr (ex_what e)) @
               format_location (level_indent lvl) l @ props @ s)
          (case nested of None \<Rightarrow> Ok [] | Some t \<Rightarrow> format_thrown R (lvl + 1) t))"
| "format_thrown R lvl OtherThrown = Ok []"

text \<open>The public functions: an exception on the way leaves them with the empty string.\<close>

definition formatException :: "registry \<Rightarrow> thrown \<Rightarrow> string" where
  "formatException R t = (case format_thrown R 0 t of Ok s \<Rightarrow> s | _ \<Rightarrow> [])"

definition logException :: "registry \<Rightarrow> Level \<Rightarrow> thrown \<Rightarrow> 'z world_scheme \<Rightarrow> 'z world_scheme" where
  "logException R lvl t w =
     (if lvl \<ge> w_level w then world_log lvl (NL # cstr (formatException R t)) w else w)"

section \<open>The lines of the text\<close>

definition value_fits :: "formatter \<Rightarrow> any_val \<Rightarrow> bool" where
  "value_fits f a \<longleftrightarrow>
     (case f of NullFormatter \<Rightarrow> True | BoolFormatter \<Rightarrow> any_type a = TBool
      | StringFormatter \<Rightarrow> any_type a = TString
      | IntegralFormatter ty \<Rightarrow> any_type a = ty \<and> ty \<in> {TInt, TInt64, TUInt, TUInt64})"

fun value_text :: "formatter \<Rightarrow> any_val \<Rightarrow> string" where
  "value_text NullFormatter a = []"
| "value_text f (ABool b) = (if b then ''true'' else ''false'')"
| "value_text f (AInt i) = show_int (sint i)"
| "value_text f (AInt64 i) = show_int (sint i)"
| "value_text f (AUInt u) = show_nat (unat u)"
| "value_text f (AUInt64 u) = show_nat (unat u)"
| "value_text f (AString s) = s"
| "value_text f _ = []"

definition property_line :: "registry \<Rightarrow> property \<Rightarrow> string" where
  "property_line R p =
     (case lookupProperty R (p_id p) of
        Some pi \<Rightarrow> cstr (pi_name pi) @ '': '' @ value_text (pi_format pi) (p_value p)
      | None \<Rightarrow> '' 0x'' @ hex8 (p_id p) @ '': ???'')"

definition property_prints :: "registry \<Rightarrow> property \<Rightarrow> bool" where
  "property_prints R p \<longleftrightarrow>
     (case lookupProperty R (p_id p) of Some pi \<Rightarrow> value_fits (pi_format pi) (p_value p) | None \<Rightarrow> True)"

definition properties_of :: "kes_exception \<Rightarrow> property list" where
  "properties_of e = (case ex_properties e of None \<Rightarrow> [] | Some ps \<Rightarrow> ps)"

fun report :: "registry \<Rightarrow> nat \<Rightarrow> thrown \<Rightarrow> string list" where
  "report R lvl (StdThrown w nested) =
     (level_indent lvl @ cstr w) # (case nested of None \<Rightarrow> [] | Some t \<Rightarrow> report R (lvl + 1) t)"
| "report R lvl (KesThrown e l nested) =
     [level_indent lvl @ (case ex_message e of Some m \<Rightarrow> m | None \<Rightarrow> ''Unknown exception''),
      level_indent lvl @ '' File: '' @ cstr (sl_file l), level_indent lvl @ '' Line: '' @ show_nat (sl_line l)] @
     (if sl_stack l = [] then [] else [level_indent lvl @ '' Stack:'', sl_stack l]) @
     map (\<lambda>p. CHR '' '' # level_indent lvl @ property_line R p) (properties_of e) @
     (case nested of None \<Rightarrow> [] | Some t \<Rightarrow> report R (lvl + 1) t)"
| "report R lvl OtherThrown = []"

fun all_print :: "registry \<Rightarrow> thrown \<Rightarrow> bool" where
  "all_print R (StdThrown w nested) \<longleftrightarrow> (case nested of None \<Rightarrow> True | Some t \<Rightarrow> all_print R t)"
| "all_print R (KesThrown e l nested) \<longleftrightarrow>
     (\<forall>p \<in> set (properties_of e). property_prints R p) \<and>
     (case nested of None \<Rightarrow> True | Some t \<Rightarrow> all_print R t)"
| "all_print R OtherThrown \<longleftrightarrow> True"

definition on_lines :: "string list \<Rightarrow> string" where
  "on_lines ls = concat (map (\<lambda>l. NL # l) ls)"

lemma on_lines_simps [simp]:
  "on_lines [] = []" "on_lines (l # ls) = NL # l @ on_lines ls" "on_lines (ls @ ms) = on_lines ls @ on_lines ms"
  by (simp_all add: on_lines_def)

lemma format_value_text:
  "format_value f a = (if value_fits f a then Ok (value_text f a) else Throw bad_any_cast)"
  by (cases f; cases a) (auto simp: format_value_def value_fits_def any_cast_defs)

lemma format_props_lines:
  "format_props R indent ps =
     (if \<forall>p \<in> set ps. property_prints R p
      then Ok (on_lines (map (\<lambda>p. CHR '' '' # indent @ property_line R p) ps)) else Throw bad_any_cast)"
  by (induction ps)
    (auto simp: format_value_text property_prints_def property_line_def split: option.splits)

lemma ex_what_no_message: "ex_message e = None \<Longrightarrow> cstr (ex_what e) = ''Unknown exception''"
  by (simp add: ex_message_def ex_what_def)

lemma format_location_lines:
  "format_location indent l =
     on_lines ([indent @ '' File: '' @ cstr (sl_file l), indent @ '' Line: '' @ show_nat (sl_line l)] @
       (if sl_stack l = [] then [] else [indent @ '' Stack:'', sl_stack l]))"
  by (simp add: format_location_def)

lemma format_thrown_lines:
  "format_thrown R lvl t =
     (if all_print R t then Ok (drop (if lvl = 0 then 1 else 0) (on_lines (report R lvl t)))
      else Throw bad_any_cast)"
proof (induction R lvl t rule: format_thrown.induct)
  case (1 R lvl w nested)
  then show ?case by (cases nested) (auto simp: level_indent_def)
next
  case (2 R lvl e l nested)
  have props: "(case ex_properties e of None \<Rightarrow> Ok [] | Some ps \<Rightarrow> format_props R (level_indent lvl) ps) =
      (if \<forall>p \<in> set (properties_of e). property_prints R p
       then Ok (on_lines (map (\<lambda>p. CHR '' '' # level_indent lvl @ property_line R p) (properties_of e)))
       else Throw bad_any_cast)"
    by (simp add: properties_of_def format_props_lines split: option.split)
  show ?case
    using 2 by (cases nested; cases "ex_message e")
      (auto simp: props format_location_lines ex_what_no_message level_indent_def)
qed simp

text \<open>
  The text of an exception is its report, line by line: the message, the location, one line per
  property in the stored order, then the report of the nested exception three columns further to the
  right. When one property, at any level, holds a value its formatter does not expect, nothing of the
  report is left.
\<close>

lemma exception_report:
  "formatException R t = (if all_print R t then drop 1 (on_lines (report R 0 t)) else [])"
  by (simp add: formatException_def format_thrown_lines)

end
