(* ===== verification/Kes_ProcFs.thy ===== *)
theory Kes_ProcFs
  imports Kes_ExceptionText
begin

text \<open>
  Reading \<^verbatim>\<open>/proc\<close> (\<^verbatim>\<open>src/kesrv/processmgr/procfs.cxx\<close>). What the kernel answers is a record of
  functions on paths, one per system call; a failing call returns its \<^verbatim>\<open>errno\<close>. The parser of the
  \<^verbatim>\<open>stat\<close> files is modelled on the bytes of the line, the C pointers \<^verbatim>\<open>start\<close> and \<^verbatim>\<open>end\<close> being the
  texts they point to. The conversion of the fields that go through \<^verbatim>\<open>strtod\<close> is a parameter: the
  value at the start of a text, truncated to an integer, or \<open>None\<close> when it is not finite.
\<close>

section \<open>State\<close>

definition InvalidPid :: i32 where
  "InvalidPid = - 1"

definition KernelPid :: i32 where
  "KernelPid = 0"

text \<open>\<^verbatim>\<open>ProcFs::Stat\<close>, the members the process manager reads first.\<close>

record stat =
  st_valid :: bool
  st_error :: string
  st_pid :: i32
  st_comm :: string
  st_ppid :: i32
  st_pgrp :: i32
  st_session :: i32
  st_tpgid :: i32
  st_ruid :: u32

record proc_stat = stat +
  st_state :: char
  st_tty_nr :: i32
  st_flags :: u32
  st_minflt :: u64
  st_cminflt :: u64
  st_majflt :: u64
  st_cmajflt :: u64
  st_utime :: u64
  st_stime :: u64
  st_cutime :: i64
  st_cstime :: i64
  st_priority :: i64
  st_nice :: i64
  st_num_threads :: i64
  st_itrealvalue :: i64
  st_starttime :: u64
  st_vsize :: u64
  st_rss :: i64
  st_rsslim :: u64
  st_startcode :: u64
  st_endcode :: u64
  st_startstack :: u64
  st_kstkesp :: u64
  st_kstkeip :: u64
  st_signal :: u64
  st_blocked :: u64
  st_sigignore :: u64
  st_sigcatch :: u64
  st_wchan :: u64
  st_nswap :: u64
  st_cnswap :: u64
  st_exit_signal :: i32
  st_processor :: i32
  st_rt_priority :: u32
  st_policy :: u32
  st_delayacct_blkio_ticks :: u64
  st_guest_time :: u64
  st_cguest_time :: i64
  st_start_data :: u64
  st_end_data :: u64
  st_start_brk :: u64
  st_arg_start :: u64
  st_arg_end :: u64
  st_env_start :: u64
  st_env_end :: u64
  st_exit_code :: i32
  st_startTime :: u64

text \<open>The member \<^verbatim>\<open>startTime\<close> has no initializer; it holds whatever was in its place.\<close>

definition default_stat :: "u64 \<Rightarrow> proc_stat" where
  "default_stat garbage = \<lparr>
     st_valid = False, st_error = [], st_pid = InvalidPid, st_comm = [], st_ppid = InvalidPid,
     st_pgrp = InvalidPid, st_session = InvalidPid, st_tpgid = InvalidPid, st_ruid = - 1,
     st_state = CHR ''?'', st_tty_nr = - 1, st_flags = 0, st_minflt = 0, st_cminflt = 0, st_majflt = 0,
     st_cmajflt = 0, st_utime = 0, st_stime = 0, st_cutime = 0, st_cstime = 0, st_priority = 0,
     st_nice = 0, st_num_threads = 0, st_itrealvalue = 0, st_starttime = 0, st_vsize = 0, st_rss = 0,
     st_rsslim = 0, st_startcode = 0, st_endcode = 0, st_startstack = 0, st_kstkesp = 0, st_kstkeip = 0,
     st_signal = 0, st_blocked = 0, st_sigignore = 0, st_sigcatch = 0, st_wchan = 0, st_nswap = 0,
     st_cnswap = 0, st_exit_signal = - 1, st_processor = - 1, st_rt_priority = 0, st_policy = 0,
     st_delayacct_blkio_ticks = 0, st_guest_time = 0, st_cguest_time = 0, st_start_data = 0,
     st_end_data = 0, st_start_brk = 0, st_arg_start = 0, st_arg_end = 0, st_env_start = 0, st_env_end = 0,
     st_exit_code = 0, st_startTime = garbage\<rparr>"

record filesystem =
  fs_access :: "string \<Rightarrow> i32 option"
  fs_stat64 :: "string \<Rightarrow> i32 + u32"
  fs_open :: "string \<Rightarrow> i32 + string"
  fs_lstat :: "string \<Rightarrow> i32 + nat"
  fs_readlink :: "string \<Rightarrow> i32 + string"
  fs_opendir :: "string \<Rightarrow> i32 + string list"
  fs_clock :: i64
  fs_strerror :: "i32 \<Rightarrow> string"

text \<open>The boot time is kept in a static variable from its first use on.\<close>

record pf_world = world +
  pf_bootTime :: "u64 option"

definition root :: string where
  "root = ''/proc''"

definition LogError :: "string \<Rightarrow> 'z world_scheme \<Rightarrow> 'z world_scheme" where
  "LogError m w = (if w_level w \<le> Error then world_log Error m w else w)"

definition show_d32 :: "i32 \<Rightarrow> string" where
  "show_d32 i = show_int (sint i)"

definition pid_path :: "i32 \<Rightarrow> string" where
  "pid_path pid = root @ ''/'' @ show_d32 pid"

text \<open>An exception with a POSIX error code, as the two constructors of exceptions here build it.\<close>

definition posix_exception :: "filesystem \<Rightarrow> string \<Rightarrow> i32 \<Rightarrow> kes_exception" where
  "posix_exception fs m e =
     Exception m [(pi_id PosixErrorCode, AInt e), (pi_id DecodedError, AString (fs_strerror fs e))]"

definition ProcFs :: "filesystem \<Rightarrow> unit outcome" where
  "ProcFs fs =
     (case fs_access fs root of
        Some e \<Rightarrow> Throw (KesExn (posix_exception fs ''Failed to access /proc'' e))
      | None \<Rightarrow> Ok ())"

section \<open>The boot time\<close>

function read_btime :: "string \<Rightarrow> u64 outcome" where
  "read_btime s =
     (case getline NL s of
        None \<Rightarrow> Ok 0
      | Some (l, t) \<Rightarrow>
          if take 5 l = ''btime'' then
            if length l < 6 then Terminate
            else if drop 6 l \<noteq> [] then Ok (strtoul (cstr (drop 6 l))) else Ok 0
          else read_btime t)"
  by pat_completeness auto
termination
  by (relation "measure length") (auto dest: getline_shorter)

declare read_btime.simps [simp del]

definition getBootTimeImpl :: "filesystem \<Rightarrow> 'z pf_world_scheme \<Rightarrow> u64 outcome \<times> 'z pf_world_scheme" where
  "getBootTimeImpl fs w =
     (let path = root @ ''/stat'' in
      case fs_open fs path of
        Inl _ \<Rightarrow> (Ok 0, LogError (''Failed to open '' @ path) w)
      | Inr s \<Rightarrow> (read_btime s, w))"

definition getBootTime :: "filesystem \<Rightarrow> 'z pf_world_scheme \<Rightarrow> u64 outcome \<times> 'z pf_world_scheme" where
  "getBootTime fs w =
     (case pf_bootTime w of
        Some t \<Rightarrow> (Ok t, w)
      | None \<Rightarrow> sbind (getBootTimeImpl fs w) (\<lambda>t w. (Ok t, w\<lparr>pf_bootTime := Some t\<rparr>)))"

definition fromRelativeTime :: "filesystem \<Rightarrow> u64 \<Rightarrow> 'z pf_world_scheme \<Rightarrow> u64 outcome \<times> 'z pf_world_scheme" where
  "fromRelativeTime fs relative w =
     sbind (getBootTime fs w)
       (\<lambda>bootTime w. (if fs_clock fs = 0 then UB else Ok (bootTime + relative div fs_clock fs), w))"

section \<open>The \<^verbatim>\<open>stat\<close> file\<close>

text \<open>A \<^verbatim>\<open>double\<close> converted to \<^verbatim>\<open>int\<close>: undefined out of range.\<close>

definition to_int :: "int option \<Rightarrow> i32 outcome" where
  "to_int v =
     (case v of
        Some i \<Rightarrow> if - (2 ^ 31) \<le> i \<and> i < 2 ^ 31 then Ok (of_int i) else UB
      | None \<Rightarrow> UB)"

text \<open>
  The \<^verbatim>\<open>switch\<close>: field \<open>index\<close> is at the start of \<open>f\<close>, \<open>n\<close> bytes long, the separator included.
\<close>

definition set_field :: "(string \<Rightarrow> int option) \<Rightarrow> nat \<Rightarrow> string \<Rightarrow> nat \<Rightarrow> proc_stat \<Rightarrow> proc_stat outcome" where
  "set_field strtod index f n r =
    (let x = cstr (drop 1 f) in
     if index = 0 then Ok (r\<lparr>st_pid := ucast (strtol (cstr f))\<rparr>)
     else if index = 1 then Ok (if n > 3 then r\<lparr>st_comm := take (n - 3) (drop 2 f)\<rparr> else r)
     else if index = 2 then Ok (r\<lparr>st_state := (case drop 1 f of [] \<Rightarrow> NUL | c # _ \<Rightarrow> c)\<rparr>)
     else if index = 3 then Ok (r\<lparr>st_ppid := ucast (strtol x)\<rparr>)
     else if index = 4 then omap (\<lambda>v. r\<lparr>st_pgrp := v\<rparr>) (to_int (strtod x))
     else if index = 5 then omap (\<lambda>v. r\<lparr>st_session := v\<rparr>) (to_int (strtod x))
     else if index = 6 then omap (\<lambda>v. r\<lparr>st_tty_nr := v\<rparr>) (to_int (strtod x))
     else if index = 7 then omap (\<lambda>v. r\<lparr>st_tpgid := v\<rparr>) (to_int (strtod x))
     else if index = 8 then Ok (r\<lparr>st_flags := ucast (strtoul x)\<rparr>)
     else if index = 9 then Ok (r\<lparr>st_minflt := strtoul x\<rparr>)
     else if index = 10 then Ok (r\<lparr>st_cminflt := strtoul x\<rparr>)
     else if index = 11 then Ok (r\<lparr>st_majflt := strtoul x\<rparr>)
     else if index = 12 then Ok (r\<lparr>st_cmajflt := strtoul x\<rparr>)
     else if index = 13 then Ok (r\<lparr>st_utime := strtoul x\<rparr>)
     else if index = 14 then Ok (r\<lparr>st_stime := strtoul x\<rparr>)
     else if index = 15 then Ok (r\<lparr>st_cutime := strtol x\<rparr>)
     else if index = 16 then Ok (r\<lparr>st_cstime := strtol x\<rparr>)
     else if index = 17 then Ok (r\<lparr>st_priority := strtol x\<rparr>)
     else if index = 18 then Ok (r\<lparr>st_nice := strtol x\<rparr>)
     else if index = 19 then Ok (r\<lparr>st_num_threads := strtol x\<rparr>)
     else if index = 20 then Ok (r\<lparr>st_itrealvalue := strtol x\<rparr>)
     else if index = 21 then Ok (r\<lparr>st_starttime := strtoul x\<rparr>)
     else if index = 22 then Ok (r\<lparr>st_vsize := strtoul x\<rparr>)
     else if index = 23 then Ok (r\<lparr>st_rss := strtol x\<rparr>)
     else if index = 24 then Ok (r\<lparr>st_rsslim := strtoul x\<rparr>)
     else if index = 25 then Ok (r\<lparr>st_startcode := strtoul x\<rparr>)
     else if index = 26 then Ok (r\<lparr>st_endcode := strtoul x\<rparr>)
     else if index = 27 then Ok (r\<lparr>st_startstack := strtoul x\<rparr>)
     else if index = 28 then Ok (r\<lparr>st_kstkesp := strtoul x\<rparr>)
     else if index = 29 then Ok (r\<lparr>st_kstkeip := strtoul x\<rparr>)
     else if index = 30 then Ok (r\<lparr>st_signal := strtoul x\<rparr>)
     else if index = 31 then Ok (r\<lparr>st_blocked := strtoul x\<rparr>)
     else if index = 32 then Ok (r\<lparr>st_sigignore := strtoul x\<rparr>)
     else if index = 33 then Ok (r\<lparr>st_sigcatch := strtoul x\<rparr>)
     else if index = 34 then Ok (r\<lparr>st_wchan := strtoul x\<rparr>)
     else if index = 35 then Ok (r\<lparr>st_nswap := strtoul x\<rparr>)
     else if index = 36 then Ok (r\<lparr>st_cnswap := strtoul x\<rparr>)
     else if index = 37 then omap (\<lambda>v. r\<lparr>st_exit_signal := v\<rparr>) (to_int (strtod x))
     else if index = 38 then omap (\<lambda>v. r\<lparr>st_processor := v\<rparr>) (to_int (strtod x))
     else if index = 39 then Ok (r\<lparr>st_rt_priority := ucast (strtoul x)\<rparr>)
     else if index = 40 then Ok (r\<lparr>st_policy := ucast (strtoul x)\<rparr>)
     else if index = 41 then Ok (r\<lparr>st_delayacct_blkio_ticks := strtoul x\<rparr>)
     else if index = 42 then Ok (r\<lparr>st_guest_time := strtoul x\<rparr>)
     else if index = 43 then Ok (r\<lparr>st_cguest_time := strtol x\<rparr>)
     else if index = 44 then Ok (r\<lparr>st_start_data := strtoul x\<rparr>)
     else if index = 45 then Ok (r\<lparr>st_end_data := strtoul x\<rparr>)
     else if index = 46 then Ok (r\<lparr>st_start_brk := strtoul x\<rparr>)
     else if index = 47 then Ok (r\<lparr>st_arg_start := strtoul x\<rparr>)
     else if index = 48 then Ok (r\<lparr>st_arg_end := strtoul x\<rparr>)
     else if index = 49 then Ok (r\<lparr>st_env_start := strtoul x\<rparr>)
     else if index = 50 then Ok (r\<lparr>st_env_end := strtoul x\<rparr>)
     else if index = 51 then omap (\<lambda>v. r\<lparr>st_exit_code := v\<rparr>) (to_int (strtod x))
     else Ok r)"

text \<open>
  The length of the field at the start of a text. A field that holds an opening parenthesis goes on
  behind the last closing one of the C string; without one, the record is not valid.
\<close>

function field_len :: "string \<Rightarrow> nat option" where
  "field_len [] = Some 0"
| "field_len (c # cs) =
     (if c = NUL \<or> isspace c then Some 0
      else if c = CHR ''('' then
        (case find_last CHR '')'' (cstr (c # cs)) of
           None \<Rightarrow> None
         | Some i \<Rightarrow> map_option (\<lambda>n. Suc i + n) (field_len (drop i cs)))
      else map_option Suc (field_len cs))"
  by pat_completeness auto
termination
  by (relation "measure length") auto

text \<open>
  The loop over the fields of the text from \<^verbatim>\<open>start\<close>; \<^verbatim>\<open>end\<close> is one byte further, except at first.
  The flag tells whether the record was valid.
\<close>

function read_fields ::
    "(string \<Rightarrow> int option) \<Rightarrow> nat \<Rightarrow> string \<Rightarrow> proc_stat \<Rightarrow> (bool \<times> proc_stat) outcome" where
  "read_fields strtod index f r =
     (if f = [] then Ok (True, r)
      else
        let skip = (if index = 0 then 0 else 1) in
        case field_len (drop skip f) of
          None \<Rightarrow> Ok (False, r)
        | Some m \<Rightarrow>
            obind (if skip + m > 0 then set_field strtod index f (skip + m) r else Ok r)
              (\<lambda>r. read_fields strtod (index + 1) (drop (skip + m) f) r))"
  by pat_completeness auto
termination
  by (relation "measure (\<lambda>(strtod, index, f, r). 2 * length f + (if index = 0 then 1 else 0))") auto

declare read_fields.simps [simp del]

definition readStat ::
    "(string \<Rightarrow> int option) \<Rightarrow> filesystem \<Rightarrow> u64 \<Rightarrow> i32 \<Rightarrow> 'z pf_world_scheme \<Rightarrow>
     proc_stat outcome \<times> 'z pf_world_scheme" where
  "readStat strtod fs garbage pid w =
     (let result = (default_stat garbage)\<lparr>st_pid := pid\<rparr> in
      case fs_stat64 fs (pid_path pid) of
        Inl e \<Rightarrow>
          (Ok (result\<lparr>st_error := ''Process not found''\<rparr>),
           LogDebug (''Process '' @ show_d32 pid @ '' not found: '' @ show_d32 e) w)
      | Inr uid \<Rightarrow>
          (let result = result\<lparr>st_ruid := uid\<rparr> in
           case fs_open fs (pid_path pid @ ''/stat'') of
             Inl e \<Rightarrow>
               (Ok (result\<lparr>st_error := ''Failed to open process''\<rparr>),
                LogDebug (''Process '' @ show_d32 pid @ '' could not be opened: '' @ show_d32 e) w)
           | Inr contents \<Rightarrow>
               (let s = (case getline NL contents of None \<Rightarrow> [] | Some (l, t) \<Rightarrow> l) in
                sbind (read_fields strtod 0 s result, w)
                  (\<lambda>(valid, result) w.
                     if valid then
                       sbind (fromRelativeTime fs (st_starttime result) w)
                         (\<lambda>t w. (Ok (result\<lparr>st_startTime := t, st_valid := True\<rparr>), w))
                     else
                       (Ok (result\<lparr>st_error := ''Invalid process stat record''\<rparr>),
                        LogDebug (''Invalid stat record for process '' @ show_d32 pid @ '': ['' @ cstr s @ '']'') w)))))"

section \<open>The other files\<close>

definition readComm :: "filesystem \<Rightarrow> i32 \<Rightarrow> string" where
  "readComm fs pid =
     (case fs_open fs (pid_path pid @ ''/comm'') of
        Inl _ \<Rightarrow> []
      | Inr s \<Rightarrow> (case getline NL s of Some (comm, _) \<Rightarrow> comm | None \<Rightarrow> []))"

text \<open>
  The buffer is as long as \<^verbatim>\<open>lstat\<close> says the link is, or \<^verbatim>\<open>PATH_MAX\<close> bytes; \<^verbatim>\<open>readlink\<close> cuts
  what does not fit, and the rest of the buffer is NUL.
\<close>

definition readExePath :: "filesystem \<Rightarrow> i32 \<Rightarrow> 'z world_scheme \<Rightarrow> string \<times> 'z world_scheme" where
  "readExePath fs pid w =
     (let path = pid_path pid @ ''/exe'' in
      case fs_lstat fs path of
        Inl e \<Rightarrow>
          ([], LogDebug (''exe link for process '' @ show_d32 pid @ '' could not be opened: '' @ show_d32 e) w)
      | Inr n \<Rightarrow>
          (let bytes = (if n = 0 then 4096 else n) in
           case fs_readlink fs path of
             Inl e \<Rightarrow> ([], LogDebug (''Failed to read exe link for process '' @ show_d32 pid @ '': '' @ show_d32 e) w)
           | Inr target \<Rightarrow> (cstr (take bytes target @ replicate (bytes + 1 - length target) NUL), w)))"

function join_args :: "string \<Rightarrow> string \<Rightarrow> string" where
  "join_args cmdLine s =
     (case getline NUL s of
        None \<Rightarrow> cmdLine
      | Some (a, t) \<Rightarrow>
          join_args (if a \<noteq> [] then (if cmdLine \<noteq> [] then cmdLine @ '' '' else cmdLine) @ a else cmdLine) t)"
  by pat_completeness auto
termination
  by (relation "measure (\<lambda>(c, s). length s)") (auto dest: getline_shorter)

declare join_args.simps [simp del]

definition readCmdLine :: "filesystem \<Rightarrow> i32 \<Rightarrow> 'z world_scheme \<Rightarrow> string \<times> 'z world_scheme" where
  "readCmdLine fs pid w =
     (let path = (if pid \<noteq> KernelPid then pid_path pid else root) @ ''/cmdline'' in
      case fs_open fs path of
        Inl _ \<Rightarrow> ([], LogDebug (''Failed to open cmdline for process '' @ show_d32 pid) w)
      | Inr s \<Rightarrow> (join_args [] s, w))"

section \<open>The processes\<close>

fun read_pids :: "string list \<Rightarrow> 'z world_scheme \<Rightarrow> i32 list \<times> 'z world_scheme" where
  "read_pids [] w = ([], w)"
| "read_pids (name # names) w =
     (if \<not> (case name of [] \<Rightarrow> False | c # _ \<Rightarrow> isdigit c) then read_pids names w
      else
        (case stoul name of
           Ok pid \<Rightarrow> (case read_pids names w of (pids, w') \<Rightarrow> (ucast pid # pids, w'))
         | Throw e \<Rightarrow> read_pids names (LogDebug (''Failed to parse PID '' @ name @ '': '' @ what e) w)
         | _ \<Rightarrow> ([], w)))"

definition enumeratePids ::
    "filesystem \<Rightarrow> registry \<Rightarrow> location \<Rightarrow> 'z world_scheme \<Rightarrow> i32 list \<times> 'z world_scheme" where
  "enumeratePids fs R here w =
     (case fs_opendir fs root of
        Inl e \<Rightarrow>
          ([], LogError (''Failed to enumerate PIDs: '' @
                 cstr (formatException R (KesThrown (posix_exception fs ''Failed to open /proc'' e) here None))) w)
      | Inr names \<Rightarrow> read_pids names w)"

end
