(* ===== verification/Kes_ProcessManager.thy ===== *)
theory Kes_ProcessManager
  imports Kes_GlobalCmd Kes_ProcFs
begin

text \<open>
  The handler of \<^verbatim>\<open>list_processes\<close> and \<^verbatim>\<open>diff_processes\<close>
  (\<^verbatim>\<open>src/kesrv/processmgr/processmanager.cxx\<close>): one record per session with the processes the client
  knows, refreshed at every request from \<^verbatim>\<open>/proc\<close>. What \<^verbatim>\<open>/proc\<close> holds at the time of a request is the
  field \<open>pm_procFs\<close> of the world: the enumerated pids and what is read for each of them.
\<close>

section \<open>State\<close>

record procfs =
  pf_enumeratePids :: "i32 list"
  pf_readStat :: "i32 \<Rightarrow> stat"
  pf_readComm :: "i32 \<Rightarrow> string"
  pf_readExePath :: "i32 \<Rightarrow> string"
  pf_readCmdLine :: "i32 \<Rightarrow> string"

record process_info =
  pr_timestamp :: u32
  pr_newcomer :: bool
  pr_stat :: stat
  pr_comm :: string
  pr_exe :: string
  pr_cmdLine :: string

record pm_session =
  ps_sessionId :: u32
  ps_timestamp :: u32
  ps_processes :: "(i32, process_info) umap"
  ps_removedPids :: "i32 list"

record pm_world = gc_world +
  pm_sessions :: "(u32, pm_session) umap"
  pm_procFs :: procfs

definition new_session :: "u32 \<Rightarrow> pm_session" where
  "new_session sid = \<lparr>ps_sessionId = sid, ps_timestamp = 0, ps_processes = um_empty, ps_removedPids = []\<rparr>"

section \<open>Sessions\<close>

definition pm_startSession :: "u32 \<Rightarrow> 'z pm_world_scheme \<Rightarrow> 'z pm_world_scheme" where
  "pm_startSession sid w =
     (case um_find (pm_sessions w) sid of
        Some s \<Rightarrow> w
      | None \<Rightarrow> w\<lparr>pm_sessions := fst (um_insert sid (new_session sid) (pm_sessions w))\<rparr>)"

definition pm_endSession :: "u32 \<Rightarrow> 'z pm_world_scheme \<Rightarrow> 'z pm_world_scheme" where
  "pm_endSession sid w =
     (case um_find (pm_sessions w) sid of
        Some s \<Rightarrow> w\<lparr>pm_sessions := um_erase sid (pm_sessions w)\<rparr>
      | None \<Rightarrow> w)"

section \<open>Reading the processes\<close>

definition readProcess :: "procfs \<Rightarrow> i32 \<Rightarrow> u32 \<Rightarrow> process_info" where
  "readProcess pf pid timestamp =
     \<lparr>pr_timestamp = timestamp, pr_newcomer = False, pr_stat = pf_readStat pf pid,
      pr_comm = pf_readComm pf pid, pr_exe = pf_readExePath pf pid, pr_cmdLine = pf_readCmdLine pf pid\<rparr>"

definition show_pid :: "i32 \<Rightarrow> string" where
  "show_pid pid = show_int (sint pid)"

text \<open>One turn of the loop over the pids.\<close>

definition read_one ::
    "bool \<Rightarrow> i32 \<Rightarrow> pm_session \<times> 'z pm_world_scheme \<Rightarrow> pm_session \<times> 'z pm_world_scheme" where
  "read_one initial pid st =
     (case st of (s, w) \<Rightarrow>
        let process = readProcess (pm_procFs w) pid (ps_timestamp s) in
        if \<not> initial then
          (case um_find (ps_processes s) pid of
             None \<Rightarrow>
               (s\<lparr>ps_processes := fst (um_insert pid (process\<lparr>pr_newcomer := True\<rparr>) (ps_processes s))\<rparr>,
                world_log Info (''NEW process '' @ show_pid pid @ '' ['' @ cstr (st_comm (pr_stat process)) @ '']'') w)
           | Some old \<Rightarrow> (s\<lparr>ps_processes := um_update pid process (ps_processes s)\<rparr>, w))
        else (s\<lparr>ps_processes := fst (um_insert pid process (ps_processes s))\<rparr>, w))"

text \<open>
  The loop that detects deleted processes erases the entry its iterator points to and then increments
  the iterator, which is undefined; nothing can be said of what happens after the first deletion.
\<close>

fun detect_deleted :: "(i32 \<times> process_info) list \<Rightarrow> pm_session \<times> 'z pm_world_scheme \<Rightarrow>
    unit outcome \<times> (pm_session \<times> 'z pm_world_scheme)" where
  "detect_deleted [] st = (Ok (), st)"
| "detect_deleted ((pid, p) # es) (s, w) =
     (if pr_timestamp p < ps_timestamp s then
        (UB, (s\<lparr>ps_removedPids := ps_removedPids s @ [pid], ps_processes := um_erase pid (ps_processes s)\<rparr>,
          world_log Info (''DELETED process '' @ show_pid pid @ '' ['' @ cstr (st_comm (pr_stat p)) @ '']'') w))
      else detect_deleted es (s, w))"

definition readProcesses ::
    "bool \<Rightarrow> pm_session \<times> 'z pm_world_scheme \<Rightarrow> unit outcome \<times> (pm_session \<times> 'z pm_world_scheme)" where
  "readProcesses initial st =
     (case st of (s, w) \<Rightarrow>
        let s = s\<lparr>ps_timestamp := ps_timestamp s + 1\<rparr>;
            s = (if initial then s\<lparr>ps_processes := um_empty\<rparr> else s);
            s = s\<lparr>ps_removedPids := []\<rparr>;
            (s, w) = fold (read_one initial) (pf_enumeratePids (pm_procFs w)) (s, w) in
        if \<not> initial then detect_deleted (ps_processes s) (s, w) else (Ok (), (s, w)))"

section \<open>The response\<close>

definition serialized :: "process_info \<Rightarrow> (pinfo \<times> any_val) list" where
  "serialized p =
     (let s = pr_stat p in
      [(PP_Pid, AInt (st_pid s))] @
      (if pr_newcomer p then [(PP_Newcomer, ABool True)] else []) @
      (if \<not> st_valid s then [(PP_Error, AString (st_error s))]
       else
         [(PP_PPid, AInt (st_ppid s)), (PP_PGrp, AInt (st_pgrp s)), (PP_Tpgid, AInt (st_tpgid s)),
          (PP_Session, AInt (st_session s)), (PP_Comm, AString (pr_comm p)), (PP_Ruid, AInt (st_ruid s))] @
         (if pr_comm p \<noteq> [] then [(PP_StatComm, AString (pr_comm p))] else []) @
         (if pr_exe p \<noteq> [] then [(PP_Exe, AString (pr_exe p))] else []) @
         (if pr_cmdLine p \<noteq> [] then [(PP_CmdLine, AString (pr_cmdLine p))] else [])))"

definition serialize :: "process_info \<Rightarrow> bag outcome" where
  "serialize p = add_values (serialized p) (TableBag [] um_empty)"

fun add_processes :: "(i32 \<times> process_info) list \<Rightarrow> bag \<Rightarrow> bag outcome" where
  "add_processes [] array = Ok array"
| "add_processes ((pid, p) # ps) array =
     obind (serialize p) (\<lambda>b. obind (addBagToArray array b) (add_processes ps))"

fun add_pids :: "i32 list \<Rightarrow> bag \<Rightarrow> bag outcome" where
  "add_pids [] array = Ok array"
| "add_pids (pid # pids) array = obind (addToArray PP_DeletedProcess array (AInt pid)) (add_pids pids)"

text \<open>The array of deleted processes carries the name of the list of processes.\<close>

definition list_response :: "bool \<Rightarrow> pm_session \<Rightarrow> i32 \<Rightarrow> bag \<Rightarrow> bag outcome" where
  "list_response initial s rid response =
     obind (add_processes (ps_processes s) (ArrayBag (pi_idstr PP_ProcessList) [])) (\<lambda>processArray.
     obind (addBagToTable PP_ProcessList response processArray) (\<lambda>response.
     obind (if \<not> initial
            then obind (add_pids (ps_removedPids s) (ArrayBag (pi_idstr PP_ProcessList) []))
                   (addBagToTable PP_DeletedProcessList response)
            else Ok response) (\<lambda>response.
     add_values [(Request_Id, AInt rid), (Response_Status, AString Success)] response)))"

definition listProcesses ::
    "bool \<Rightarrow> i32 \<Rightarrow> bag \<Rightarrow> pm_session \<times> 'z pm_world_scheme \<Rightarrow>
     (bool \<times> bag) outcome \<times> (pm_session \<times> 'z pm_world_scheme)" where
  "listProcesses initial rid response st =
     sbind (readProcesses initial st)
       (\<lambda>_ (s, w). (omap (Pair True) (list_response initial s rid response), (s, w)))"

text \<open>
  The session is updated in place: its new value goes back into the map of the sessions.
\<close>

definition pm_process ::
    "u32 \<Rightarrow> string \<Rightarrow> i32 \<Rightarrow> bag \<Rightarrow> bag \<Rightarrow> 'z pm_world_scheme \<Rightarrow> (bool \<times> bag) outcome \<times> 'z pm_world_scheme" where
  "pm_process sid key rid request response w =
     (case um_find (pm_sessions w) sid of
        None \<Rightarrow> (Ok (False, response), w)
      | Some s \<Rightarrow>
          if key = ''list_processes'' \<or> key = ''diff_processes'' then
            (case listProcesses (key = ''list_processes'') rid response (s, w) of
               (r, (s', w')) \<Rightarrow> (r, w'\<lparr>pm_sessions := um_update sid s' (pm_sessions w')\<rparr>))
          else (Ok (False, response), world_log Error (''ProcessManager: unknown command ['' @ key @ '']'') w))"

definition pm_commands :: "string list" where
  "pm_commands = [''list_processes'', ''diff_processes'']"

definition pm_create ::
    "('h, 'z world_scheme) vtable \<Rightarrow> 'h \<Rightarrow> 'h handlers \<times> 'z world_scheme \<Rightarrow> 'h handlers \<times> 'z world_scheme" where
  "pm_create V this st = fold (\<lambda>cmd. registerHandler V cmd this) pm_commands st"

definition pm_destroy ::
    "('h, 'z world_scheme) vtable \<Rightarrow> 'h \<Rightarrow> 'h handlers \<times> 'z world_scheme \<Rightarrow> 'h handlers \<times> 'z world_scheme" where
  "pm_destroy V this st = fold (\<lambda>cmd. unregisterHandler V cmd this) pm_commands st"

section \<open>The response is well-formed\<close>

lemma serialized_distinct: "distinct (map (pi_idstr \<circ> fst) (serialized p))"
  by (simp add: serialized_def Let_def PP_Pid_def PP_Newcomer_def PP_Error_def PP_PPid_def PP_PGrp_def
      PP_Tpgid_def PP_Session_def PP_Comm_def PP_Ruid_def PP_StatComm_def PP_Exe_def PP_CmdLine_def)

lemma serialize_Ok: "serialize p = Ok (TableBag [] (map entry (serialized p)))"
  using add_values_fresh [OF serialized_distinct, where t = "[]" and n = "[]"] by (simp add: serialize_def um_empty_def)

lemma add_processes_Ok:
  "add_processes ps (ArrayBag n a) = Ok (ArrayBag n (a @ map (\<lambda>e. TableBag [] (map entry (serialized (snd e)))) ps))"
  by (induction ps arbitrary: a) (auto simp: serialize_Ok addBagToArray_ArrayBag)

definition deleted_item :: "i32 \<Rightarrow> bag" where
  "deleted_item pid = PropBag [] \<lparr>p_id = pi_id PP_DeletedProcess, p_value = AInt pid, p_info = None\<rparr>"

lemma add_pids_Ok: "add_pids pids (ArrayBag n a) = Ok (ArrayBag n (a @ map deleted_item pids))"
  by (induction pids arbitrary: a) (simp_all add: addToArray_ArrayBag deleted_item_def)

lemma response_keys:
  "pi_idstr PP_ProcessList = ''process.process_list''"
  "pi_idstr PP_DeletedProcessList = ''process.deleted_process_list''"
  "pi_idstr Request_Id = ''request.id''" "pi_idstr Response_Status = ''response.status''"
  by (simp_all add: PP_ProcessList_def PP_DeletedProcessList_def Request_Id_def Response_Status_def)

definition processes_bag :: "(i32 \<times> process_info) list \<Rightarrow> bag" where
  "processes_bag ps = ArrayBag (pi_idstr PP_ProcessList) (map (\<lambda>e. TableBag [] (map entry (serialized (snd e)))) ps)"

definition response_bag :: "bool \<Rightarrow> pm_session \<Rightarrow> i32 \<Rightarrow> bag" where
  "response_bag initial s rid = TableBag []
     ([(pi_idstr PP_ProcessList, processes_bag (ps_processes s))] @
      (if initial then []
       else [(pi_idstr PP_DeletedProcessList, ArrayBag (pi_idstr PP_ProcessList) (map deleted_item (ps_removedPids s)))]) @
      map entry [(Request_Id, AInt rid), (Response_Status, AString Success)])"

lemma list_response_Ok: "list_response initial s rid (TableBag [] []) = Ok (response_bag initial s rid)"
  by (auto simp: list_response_def add_processes_Ok add_pids_Ok addBagToTable_TableBag response_bag_def
      processes_bag_def response_keys addToTable_TableBag entry_def)

lemma list_response_table:
  "isTable response \<Longrightarrow> \<exists>b. list_response initial s rid response = Ok b \<and> isTable b"
  by (cases response) (simp_all add: list_response_def add_processes_Ok add_pids_Ok addBagToTable_TableBag
      addToTable_TableBag)

section \<open>Its text\<close>

lemma startup_typed:
  "p \<in> set startup_properties \<Longrightarrow> any_type v = pi_type p \<Longrightarrow>
    pi_type p \<in> {TBool, TInt, TInt64, TUInt, TUInt64, TString} \<Longrightarrow> key_ok (pi_idstr p) \<Longrightarrow>
    typed_value server_registry (p, v)"
  by (simp add: typed_value_def)

lemma field_types:
  "pi_type PP_Pid = TInt" "pi_type PP_PPid = TInt" "pi_type PP_PGrp = TInt" "pi_type PP_Tpgid = TInt"
  "pi_type PP_Session = TInt" "pi_type PP_Comm = TString" "pi_type PP_StatComm = TString"
  "pi_type PP_Exe = TString" "pi_type PP_CmdLine = TString" "pi_type PP_Error = TString"
  "pi_type Request_Id = TInt" "pi_type Response_Status = TString" "pi_type Response_Version = TString"
  by (simp_all add: declared_defs)

lemma field_keys:
  "key_ok (pi_idstr PP_Pid)" "key_ok (pi_idstr PP_PPid)" "key_ok (pi_idstr PP_PGrp)" "key_ok (pi_idstr PP_Tpgid)"
  "key_ok (pi_idstr PP_Session)" "key_ok (pi_idstr PP_Comm)" "key_ok (pi_idstr PP_StatComm)"
  "key_ok (pi_idstr PP_Exe)" "key_ok (pi_idstr PP_CmdLine)" "key_ok (pi_idstr PP_Error)"
  "key_ok (pi_idstr Request_Id)" "key_ok (pi_idstr Response_Status)" "key_ok (pi_idstr Response_Version)"
  "key_ok (pi_idstr PP_ProcessList)" "key_ok (pi_idstr PP_Newcomer)" "key_ok (pi_idstr PP_Ruid)"
  by (simp_all add: declared_defs key_ok_def)

lemma unregistered:
  "lookupProperty server_registry (pi_id PP_Newcomer) = None" "lookupProperty server_registry (pi_id PP_Ruid) = None"
  by (simp_all add: server_registry_eq lookupProperty_def startup_properties_def declared_defs)

lemma typed_fields:
  "typed_value server_registry (PP_Pid, AInt i)" "typed_value server_registry (PP_PPid, AInt i)"
  "typed_value server_registry (PP_PGrp, AInt i)" "typed_value server_registry (PP_Tpgid, AInt i)"
  "typed_value server_registry (PP_Session, AInt i)" "typed_value server_registry (PP_Comm, AString t)"
  "typed_value server_registry (PP_StatComm, AString t)" "typed_value server_registry (PP_Exe, AString t)"
  "typed_value server_registry (PP_CmdLine, AString t)" "typed_value server_registry (PP_Error, AString t)"
  "typed_value server_registry (Request_Id, AInt i)" "typed_value server_registry (Response_Status, AString t)"
  "typed_value server_registry (Response_Version, AString t)"
  by (rule startup_typed; simp add: startup_properties_def field_types field_keys)+

lemma typed_unregistered:
  "typed_value server_registry (PP_Newcomer, ABool b)" "typed_value server_registry (PP_Ruid, AInt i)"
  using unregistered field_keys(15,16) by (simp_all add: typed_value_def) (simp_all add: PP_Newcomer_def PP_Ruid_def)

lemma typed_serialized: "pv \<in> set (serialized p) \<Longrightarrow> typed_value server_registry pv"
  by (auto simp: serialized_def Let_def typed_fields typed_unregistered split: if_splits)

lemma deleted_item_prints: "prints server_registry (deleted_item pid)"
proof -
  have "pi_type PP_DeletedProcess = TInt" by (simp add: PP_DeletedProcess_def)
  then show ?thesis
    using server_registry_lookup(1) [of PP_DeletedProcess]
    by (simp add: deleted_item_def prints_value_def effective_type_def startup_properties_def)
qed

definition process_json :: "process_info \<Rightarrow> json" where
  "process_json p = JObj (map member_json (serialized p))"

definition response_json :: "bool \<Rightarrow> pm_session \<Rightarrow> i32 \<Rightarrow> json" where
  "response_json initial s rid = JObj
     ([(''process.process_list'', JArr (map (\<lambda>e. process_json (snd e)) (ps_processes s)))] @
      (if initial then []
       else [(''process.process_list'', JArr (map (\<lambda>pid. JInt (sint pid)) (ps_removedPids s)))]) @
      [(''request.id'', JInt (sint rid)), (''response.status'', JStr Success)])"

lemma response_prints: "prints server_registry (response_bag initial s rid)"
proof -
  have "prints server_registry (TableBag [] (map entry (serialized p)))" for p
    using prints_entry [OF typed_serialized] by fastforce
  then have "prints server_registry (processes_bag ps)" for ps
    by (auto simp: processes_bag_def)
  moreover have "bag_name (deleted_item pid) = []" for pid
    by (simp add: deleted_item_def)
  ultimately show ?thesis
    using prints_entry [OF typed_fields(11)] prints_entry [OF typed_fields(12)] field_keys(14)
    by (auto simp: response_bag_def processes_bag_def deleted_item_prints)
qed

lemma response_text:
  "propertyBagToJson server_registry (response_bag initial s rid) = Ok (render dtoa (response_json initial s rid))"
proof -
  have "json_of_bag (response_bag initial s rid) = response_json initial s rid"
    by (auto simp: response_bag_def response_json_def processes_bag_def process_json_def member_json_def
        response_keys deleted_item_def comp_def)
  then show ?thesis
    using prints_text [OF response_prints, of initial s rid dtoa] by (simp add: response_bag_def)
qed

section \<open>What a session knows after a request\<close>

lemma read_one_shape:
  assumes "read_one initial pid (s, w) = (s', w')"
  shows "ps_timestamp s' = ps_timestamp s" "ps_removedPids s' = ps_removedPids s" "ps_sessionId s' = ps_sessionId s"
    "same_but_log w' w" "um_inv (ps_processes s) \<Longrightarrow> um_inv (ps_processes s')"
    "pm_procFs w' = pm_procFs w" "pm_sessions w' = pm_sessions w"
  using assms um_inv_insert um_inv_update
  by (auto simp: read_one_def Let_def world_log_def same_but_log_def split: if_splits option.splits)

lemma read_one_find:
  assumes "read_one initial pid (s, w) = (s', w')"
  shows "um_find (ps_processes s') k =
    (if k = pid then
       (if initial then
          (case um_find (ps_processes s) k of
             Some p \<Rightarrow> Some p | None \<Rightarrow> Some (readProcess (pm_procFs w) pid (ps_timestamp s)))
        else Some ((readProcess (pm_procFs w) pid (ps_timestamp s))\<lparr>pr_newcomer := um_find (ps_processes s) pid = None\<rparr>))
     else um_find (ps_processes s) k)"
  using assms
  by (auto simp: read_one_def Let_def fst_um_insert um_find_append um_find_update readProcess_def
      split: if_splits option.splits)

lemma read_all_shape:
  assumes "fold (read_one initial) pids (s, w) = (s', w')"
  shows "ps_timestamp s' = ps_timestamp s" "ps_removedPids s' = ps_removedPids s" "ps_sessionId s' = ps_sessionId s"
    "same_but_log w' w" "um_inv (ps_processes s) \<Longrightarrow> um_inv (ps_processes s')"
    "pm_procFs w' = pm_procFs w" "pm_sessions w' = pm_sessions w"
proof -
  have "ps_timestamp s' = ps_timestamp s \<and> ps_removedPids s' = ps_removedPids s \<and> ps_sessionId s' = ps_sessionId s \<and>
      same_but_log w' w \<and> (um_inv (ps_processes s) \<longrightarrow> um_inv (ps_processes s')) \<and>
      pm_procFs w' = pm_procFs w \<and> pm_sessions w' = pm_sessions w"
    using assms
  proof (induction pids arbitrary: s w)
    case (Cons pid pids)
    obtain s1 w1 where one: "read_one initial pid (s, w) = (s1, w1)"
      by (cases "read_one initial pid (s, w)")
    show ?case
      using Cons.IH [of s1 w1] Cons.prems one read_one_shape [OF one] by (auto intro: same_but_log_trans)
  qed simp
  then show "ps_timestamp s' = ps_timestamp s" "ps_removedPids s' = ps_removedPids s" "ps_sessionId s' = ps_sessionId s"
    "same_but_log w' w" "um_inv (ps_processes s) \<Longrightarrow> um_inv (ps_processes s')"
    "pm_procFs w' = pm_procFs w" "pm_sessions w' = pm_sessions w" by simp_all
qed

lemma read_all_find:
  assumes "fold (read_one initial) pids (s, w) = (s', w')" and "distinct pids"
  shows "um_find (ps_processes s') k =
    (if k \<in> set pids then
       (if initial then
          (case um_find (ps_processes s) k of
             Some p \<Rightarrow> Some p | None \<Rightarrow> Some (readProcess (pm_procFs w) k (ps_timestamp s)))
        else Some ((readProcess (pm_procFs w) k (ps_timestamp s))\<lparr>pr_newcomer := um_find (ps_processes s) k = None\<rparr>))
     else um_find (ps_processes s) k)"
  using assms
proof (induction pids arbitrary: s w)
  case (Cons pid pids)
  obtain s1 w1 where one: "read_one initial pid (s, w) = (s1, w1)"
    by (cases "read_one initial pid (s, w)")
  have rest: "fold (read_one initial) pids (s1, w1) = (s', w')" "distinct pids" "pid \<notin> set pids"
    using Cons.prems one by simp_all
  show ?case
    using Cons.IH [OF rest(1,2)] rest(3) read_one_find [OF one, of k] read_one_shape(1,6) [OF one]
    by (auto split: option.split)
qed simp

text \<open>The first stale entry makes the deletion loop undefined.\<close>

lemma detect_deleted_UB:
  "fst (detect_deleted es (s, w)) = UB \<longleftrightarrow> (\<exists>e \<in> set es. pr_timestamp (snd e) < ps_timestamp s)"
  by (induction es "(s, w)" arbitrary: s w rule: detect_deleted.induct) auto

lemma detect_deleted_Ok:
  "fst (detect_deleted es (s, w)) \<noteq> UB \<Longrightarrow> detect_deleted es (s, w) = (Ok (), (s, w))"
  by (induction es "(s, w)" arbitrary: s w rule: detect_deleted.induct) (auto split: if_splits)

lemma detect_deleted_world:
  "same_but_log (snd (snd (detect_deleted es (s, w)))) w \<and>
   ps_sessionId (fst (snd (detect_deleted es (s, w)))) = ps_sessionId s"
  by (induction es "(s, w)" arbitrary: s w rule: detect_deleted.induct) auto

text \<open>
  A session is up to date when everything it knows was seen by its last request.
\<close>

definition up_to_date :: "pm_session \<Rightarrow> bool" where
  "up_to_date s \<longleftrightarrow> um_inv (ps_processes s) \<and> ps_removedPids s = [] \<and>
     (\<forall>k p. um_find (ps_processes s) k = Some p \<longrightarrow> pr_timestamp p = ps_timestamp s)"

definition known :: "pm_session \<Rightarrow> i32 set" where
  "known s = {k. um_find (ps_processes s) k \<noteq> None}"

lemma up_to_date_new: "up_to_date (new_session sid)"
  by (simp add: up_to_date_def new_session_def um_empty_def)

lemma counter_grows: "(w :: u32) < w + 1 \<longleftrightarrow> w \<noteq> - 1"
proof
  show "w \<noteq> - 1" if "w < w + 1" using that by auto
  show "w < w + 1" if "w \<noteq> - 1"
    using that unatSuc [of w] by (simp add: word_less_nat_alt add.commute add_eq_0_iff)
qed

lemma list_processes_result:
  assumes "distinct (pf_enumeratePids (pm_procFs w))"
  shows "\<exists>s' w'. readProcesses True (s, w) = (Ok (), (s', w')) \<and> same_but_log w' w \<and> up_to_date s' \<and>
    ps_timestamp s' = ps_timestamp s + 1 \<and> known s' = set (pf_enumeratePids (pm_procFs w)) \<and>
    (\<forall>k. k \<in> known s' \<longrightarrow>
       um_find (ps_processes s') k = Some (readProcess (pm_procFs w) k (ps_timestamp s')))"
proof -
  let ?s = "s\<lparr>ps_timestamp := ps_timestamp s + 1, ps_processes := um_empty, ps_removedPids := []\<rparr>"
  obtain s' w' where f: "fold (read_one True) (pf_enumeratePids (pm_procFs w)) (?s, w) = (s', w')"
    by (cases "fold (read_one True) (pf_enumeratePids (pm_procFs w)) (?s, w)")
  note shape = read_all_shape [OF f]
  have find: "um_find (ps_processes s') k =
      (if k \<in> set (pf_enumeratePids (pm_procFs w))
       then Some (readProcess (pm_procFs w) k (ps_timestamp s')) else None)" for k
    using read_all_find [OF f assms, of k] shape(1) by (simp add: um_empty_def)
  have "readProcesses True (s, w) = (Ok (), (s', w'))"
    using f by (simp add: readProcesses_def Let_def)
  moreover have "up_to_date s'"
    using shape find by (auto simp: up_to_date_def um_empty_def readProcess_def split: if_splits)
  moreover have "known s' = set (pf_enumeratePids (pm_procFs w))"
    by (auto simp: known_def find)
  ultimately show ?thesis
    using shape(1,4) find by (intro exI [of _ s'] exI [of _ w']) simp
qed

lemma diff_processes_result:
  assumes "distinct (pf_enumeratePids (pm_procFs w))" and "up_to_date s"
  shows "(fst (readProcesses False (s, w)) = UB \<longleftrightarrow>
      ps_timestamp s \<noteq> - 1 \<and> \<not> known s \<subseteq> set (pf_enumeratePids (pm_procFs w))) \<and>
    (known s \<subseteq> set (pf_enumeratePids (pm_procFs w)) \<longrightarrow>
      (\<exists>s' w'. readProcesses False (s, w) = (Ok (), (s', w')) \<and> same_but_log w' w \<and> up_to_date s' \<and>
        known s' = set (pf_enumeratePids (pm_procFs w)) \<and>
        (\<forall>k. k \<in> known s' \<longrightarrow> um_find (ps_processes s') k =
          Some ((readProcess (pm_procFs w) k (ps_timestamp s'))\<lparr>pr_newcomer := k \<notin> known s\<rparr>))))"
proof -
  let ?pids = "pf_enumeratePids (pm_procFs w)"
  let ?s = "s\<lparr>ps_timestamp := ps_timestamp s + 1, ps_removedPids := []\<rparr>"
  obtain s' w' where f: "fold (read_one False) ?pids (?s, w) = (s', w')"
    by (cases "fold (read_one False) ?pids (?s, w)")
  note shape = read_all_shape [OF f]
  have find: "um_find (ps_processes s') k =
      (if k \<in> set ?pids
       then Some ((readProcess (pm_procFs w) k (ps_timestamp s'))\<lparr>pr_newcomer := k \<notin> known s\<rparr>)
       else um_find (ps_processes s) k)" for k
    using read_all_find [OF f assms(1), of k] shape(1) by (simp add: known_def)
  have inv: "um_inv (ps_processes s')" using shape(5) assms(2) by (simp add: up_to_date_def)
  have r: "readProcesses False (s, w) = detect_deleted (ps_processes s') (s', w')"
    using f by (simp add: readProcesses_def Let_def)
  have "fst (readProcesses False (s, w)) = UB \<longleftrightarrow>
      (\<exists>k p. um_find (ps_processes s') k = Some p \<and> pr_timestamp p < ps_timestamp s')"
    using um.entries_find [OF inv] by (force simp: r detect_deleted_UB)
  also have "\<dots> \<longleftrightarrow> (\<exists>k. k \<in> known s \<and> k \<notin> set ?pids \<and> ps_timestamp s < ps_timestamp s + 1)"
    using find shape(1) assms(2) by (auto simp: up_to_date_def known_def readProcess_def split: if_splits)
  also have "\<dots> \<longleftrightarrow> ps_timestamp s \<noteq> - 1 \<and> \<not> known s \<subseteq> set ?pids"
    by (auto simp: counter_grows)
  finally have ub: "fst (readProcesses False (s, w)) = UB \<longleftrightarrow> ps_timestamp s \<noteq> - 1 \<and> \<not> known s \<subseteq> set ?pids" .
  moreover have "\<exists>s' w'. readProcesses False (s, w) = (Ok (), (s', w')) \<and> same_but_log w' w \<and> up_to_date s' \<and>
        known s' = set ?pids \<and> (\<forall>k. k \<in> known s' \<longrightarrow> um_find (ps_processes s') k =
          Some ((readProcess (pm_procFs w) k (ps_timestamp s'))\<lparr>pr_newcomer := k \<notin> known s\<rparr>))"
    if sub: "known s \<subseteq> set ?pids"
  proof -
    have "readProcesses False (s, w) = (Ok (), (s', w'))"
      using ub sub r detect_deleted_Ok by (metis (no_types))
    moreover have k: "known s' = set ?pids"
      using sub by (auto simp: known_def find)
    moreover have "up_to_date s'"
      using inv shape(2) find k by (auto simp: up_to_date_def known_def readProcess_def split: if_splits)
    ultimately show ?thesis
      using shape(4) find by (intro exI [of _ s'] exI [of _ w']) auto
  qed
  ultimately show ?thesis by blast
qed

text \<open>
  C8. \<^verbatim>\<open>list_processes\<close> always returns, and afterwards the session knows exactly the processes
  \<^verbatim>\<open>/proc\<close> enumerates, each with what was read for it, none of them marked as new.
\<close>

theorem list_processes_correct:
  assumes "distinct (pf_enumeratePids (pm_procFs w))"
  shows "\<exists>s' w'. readProcesses True (s, w) = (Ok (), (s', w')) \<and> same_but_log w' w \<and> up_to_date s' \<and>
    ps_timestamp s' = ps_timestamp s + 1 \<and> known s' = set (pf_enumeratePids (pm_procFs w)) \<and>
    (\<forall>k. k \<in> known s' \<longrightarrow>
       um_find (ps_processes s') k = Some (readProcess (pm_procFs w) k (ps_timestamp s')))"
  by (rule list_processes_result [OF assms])

text \<open>
  C7. \<^verbatim>\<open>diff_processes\<close> is undefined exactly when a known process has vanished, unless the 32-bit
  counter wraps around at this request, when the loss goes unnoticed. When it is defined and the
  counter does not wrap, the session knows afterwards exactly the enumerated processes, the new ones
  are marked, and the list of removed processes is empty.
\<close>

theorem diff_processes_correct:
  assumes "distinct (pf_enumeratePids (pm_procFs w))" and "up_to_date s"
  shows "(fst (readProcesses False (s, w)) = UB \<longleftrightarrow>
      ps_timestamp s \<noteq> - 1 \<and> \<not> known s \<subseteq> set (pf_enumeratePids (pm_procFs w))) \<and>
    (known s \<subseteq> set (pf_enumeratePids (pm_procFs w)) \<longrightarrow>
      (\<exists>s' w'. readProcesses False (s, w) = (Ok (), (s', w')) \<and> same_but_log w' w \<and> up_to_date s' \<and>
        known s' = set (pf_enumeratePids (pm_procFs w)) \<and>
        (\<forall>k. k \<in> known s' \<longrightarrow> um_find (ps_processes s') k =
          Some ((readProcess (pm_procFs w) k (ps_timestamp s'))\<lparr>pr_newcomer := k \<notin> known s\<rparr>))))"
  by (rule diff_processes_result [OF assms])

definition sample_procfs :: procfs where
  "sample_procfs = \<lparr>pf_enumeratePids = [1, 2],
     pf_readStat = (\<lambda>pid. \<lparr>st_valid = True, st_error = [], st_pid = pid, st_comm = ''init'', st_ppid = 0, st_pgrp = 1,
       st_session = 1, st_tpgid = -1, st_ruid = 0\<rparr>),
     pf_readComm = (\<lambda>pid. ''init''), pf_readExePath = (\<lambda>pid. []), pf_readCmdLine = (\<lambda>pid. [])\<rparr>"

definition sample_world :: pm_world where
  "sample_world = \<lparr>w_level = Info, w_log = [], gc_exitCondition = Condition False False,
     pm_sessions = [(7, new_session 7)], pm_procFs = sample_procfs\<rparr>"

lemma list_processes_correct_witness:
  "\<exists>s'. known s' = {1, 2} \<and> fst (snd (readProcesses True (new_session 7, sample_world))) = s'"
  using list_processes_correct [of sample_world "new_session 7"]
  by (fastforce simp: sample_world_def sample_procfs_def)

text \<open>A session that knows process 3, which \<^verbatim>\<open>/proc\<close> no longer lists.\<close>

definition stale_session :: pm_session where
  "stale_session = (new_session 7)\<lparr>ps_processes := [(3, readProcess sample_procfs 3 0)]\<rparr>"

lemma diff_processes_correct_witness:
  "fst (readProcesses False (stale_session, sample_world)) = UB"
  using diff_processes_correct [of sample_world stale_session]
  by (auto simp: sample_world_def sample_procfs_def stale_session_def new_session_def up_to_date_def readProcess_def
      known_def um_inv_def split: if_splits)

section \<open>The invariant of the handler\<close>

definition pm_inv :: "'z pm_world_scheme \<Rightarrow> bool" where
  "pm_inv w \<longleftrightarrow> um_inv (pm_sessions w) \<and>
     (\<forall>sid s. um_find (pm_sessions w) sid = Some s \<longrightarrow> ps_sessionId s = sid \<and> um_inv (ps_processes s))"

lemma pm_inv_log [simp]: "pm_inv (world_log lvl m w) = pm_inv w"
  by (simp add: pm_inv_def world_log_def)

lemma same_but_log_sessions: "same_but_log v w \<Longrightarrow> pm_sessions v = pm_sessions w \<and> pm_procFs v = pm_procFs w \<and>
    gc_exitCondition v = gc_exitCondition w"
  by (cases v; cases w) (simp add: same_but_log_def)

lemma pm_startSession_find:
  "um_find (pm_sessions (pm_startSession sid w)) i =
     (case um_find (pm_sessions w) i of
        Some s \<Rightarrow> Some s | None \<Rightarrow> if i = sid then Some (new_session sid) else None)"
  by (auto simp: pm_startSession_def fst_um_insert um_find_append split: option.split)

lemma pm_endSession_find:
  "um_find (pm_sessions (pm_endSession sid w)) i = (if i = sid then None else um_find (pm_sessions w) i)"
  by (auto simp: pm_endSession_def um_find_erase split: option.split)

lemma pm_start_inv: "pm_inv w \<Longrightarrow> pm_inv (pm_startSession sid w)"
  using um_inv_insert [of "pm_sessions w" sid "new_session sid"]
  by (auto simp: pm_inv_def pm_startSession_def fst_um_insert um_find_append new_session_def um_empty_def
      split: option.splits if_splits)

lemma pm_end_inv: "pm_inv w \<Longrightarrow> pm_inv (pm_endSession sid w)"
  by (auto simp: pm_inv_def pm_endSession_def um_find_erase um_inv_erase split: option.splits if_splits)

lemma detect_deleted_inv:
  "um_inv (ps_processes s) \<Longrightarrow> um_inv (ps_processes (fst (snd (detect_deleted es (s, w)))))"
  by (induction es "(s, w)" arbitrary: s w rule: detect_deleted.induct) (auto simp: um_inv_erase)

lemma readProcesses_world:
  assumes "readProcesses initial (s, w) = (r, (s', w'))" and "um_inv (ps_processes s)"
  shows "same_but_log w' w \<and> ps_sessionId s' = ps_sessionId s \<and> um_inv (ps_processes s') \<and> (r = Ok () \<or> r = UB)"
proof -
  let ?s = "(if initial then s\<lparr>ps_timestamp := ps_timestamp s + 1, ps_processes := um_empty, ps_removedPids := []\<rparr>
    else s\<lparr>ps_timestamp := ps_timestamp s + 1, ps_removedPids := []\<rparr>)"
  obtain s1 w1 where f: "fold (read_one initial) (pf_enumeratePids (pm_procFs w)) (?s, w) = (s1, w1)"
    by (cases "fold (read_one initial) (pf_enumeratePids (pm_procFs w)) (?s, w)")
  note shape = read_all_shape(3,4,5) [OF f]
  have s1: "ps_sessionId s1 = ps_sessionId s" "same_but_log w1 w" "um_inv (ps_processes s1)"
    using shape assms(2) by (auto simp: um_empty_def)
  have r: "(r, (s', w')) = (if \<not> initial then detect_deleted (ps_processes s1) (s1, w1) else (Ok (), (s1, w1)))"
    using assms(1) f by (auto simp: readProcesses_def Let_def split: if_splits)
  show ?thesis
  proof (cases initial)
    case False
    then have d: "detect_deleted (ps_processes s1) (s1, w1) = (r, (s', w'))" using r by simp
    then show ?thesis
      using detect_deleted_world [of "ps_processes s1" s1 w1] detect_deleted_inv [OF s1(3), of "ps_processes s1" w1]
        detect_deleted_Ok [of "ps_processes s1" s1 w1] s1 same_but_log_trans [OF _ s1(2)] by (cases "r = UB") auto
  qed (use r s1 in simp)
qed

lemma pm_process_cases:
  assumes w: "pm_inv w" and "pm_process sid key rid request response w = (r, w')" and "isTable response"
  shows "pm_inv w' \<and> (r = UB \<and> key = ''diff_processes'' \<or> (\<exists>found response'. r = Ok (found, response') \<and> isTable response'))"
proof (cases "um_find (pm_sessions w) sid")
  case None
  then show ?thesis using assms by (auto simp: pm_process_def)
next
  case (Some s)
  show ?thesis
  proof (cases "key = ''list_processes'' \<or> key = ''diff_processes''")
    case False
    then show ?thesis using assms Some by (auto simp: pm_process_def)
  next
    case True
    obtain q s1 w1 where q: "readProcesses (key = ''list_processes'') (s, w) = (q, (s1, w1))"
      by (cases "readProcesses (key = ''list_processes'') (s, w)") auto
    have s: "ps_sessionId s = sid" "um_inv (ps_processes s)" using w Some by (auto simp: pm_inv_def)
    note facts = readProcesses_world [OF q s(2)]
    have list: "fst (readProcesses True (s, w)) = Ok ()"
      by (simp add: readProcesses_def Let_def split: prod.split)
    have sessions: "pm_sessions w1 = pm_sessions w" using facts same_but_log_sessions by blast
    have "pm_inv (w1\<lparr>pm_sessions := um_update sid s1 (pm_sessions w1)\<rparr>)"
      using w facts s sessions by (auto simp: pm_inv_def um_inv_update um_find_update)
    moreover obtain b where "list_response (key = ''list_processes'') s1 rid response = Ok b" "isTable b"
      using list_response_table [OF assms(3)] by blast
    ultimately show ?thesis
      using assms(2) Some True q facts list by (auto simp: pm_process_def listProcesses_def)
  qed
qed

end
