(* ===== verification/Kes_Buffer.thy ===== *)
theory Kes_Buffer
  imports Kes_Prelude
begin

text \<open>
  The two buffers of the network code: \<^verbatim>\<open>ContinuousBuffer\<close>
  (\<^verbatim>\<open>include/kesrv/util/continuousbuffer.hxx\<close>), a byte queue in one vector, and \<^verbatim>\<open>ReadBuffer\<close>
  (\<^verbatim>\<open>include/kesrv/util/readbuffer.hxx\<close>), a pair of vectors with a writer's and a reader's side.
  The locale \<open>byte_queue\<close> is what the framing code relies on.
\<close>

section \<open>The interface\<close>

locale byte_queue =
  fixes push :: "string \<Rightarrow> 'b \<Rightarrow> 'b \<times> bool"
    and pop :: "nat \<Rightarrow> 'b \<Rightarrow> 'b \<times> nat"
    and reset :: "'b \<Rightarrow> 'b"
    and used :: "'b \<Rightarrow> nat"
    and bytes :: "'b \<Rightarrow> string"
    and room :: "'b \<Rightarrow> nat"
    and invar :: "'b \<Rightarrow> bool"
  assumes used_bytes: "invar b \<Longrightarrow> used b = length (bytes b)"
    and used_room: "invar b \<Longrightarrow> used b \<le> room b"
    and push_accepts: "invar b \<Longrightarrow> length d < 2 ^ 63 \<Longrightarrow> snd (push d b) = (used b + length d \<le> room b)"
    and push_bytes: "invar b \<Longrightarrow> length d < 2 ^ 63 \<Longrightarrow>
      bytes (fst (push d b)) = (if snd (push d b) then bytes b @ d else bytes b)"
    and push_room: "invar b \<Longrightarrow> length d < 2 ^ 63 \<Longrightarrow> room (fst (push d b)) = room b"
    and push_invar: "invar b \<Longrightarrow> length d < 2 ^ 63 \<Longrightarrow> invar (fst (push d b))"
    and pop_bytes: "invar b \<Longrightarrow> bytes (fst (pop n b)) = drop n (bytes b)"
    and pop_result: "invar b \<Longrightarrow> snd (pop n b) = min n (used b)"
    and pop_room: "invar b \<Longrightarrow> room (fst (pop n b)) = room b"
    and pop_invar: "invar b \<Longrightarrow> invar (fst (pop n b))"
    and reset_bytes: "bytes (reset b) = []"
    and reset_room: "room (reset b) = room b"
    and reset_invar: "invar b \<Longrightarrow> invar (reset b)"
begin

text \<open>Two pushes are one push of both pieces, whenever the pieces fit.\<close>

lemma push_push:
  assumes b: "invar b" and d: "length d + length e < 2 ^ 63" and fits: "used b + length d + length e \<le> room b"
  shows "bytes (fst (push e (fst (push d b)))) = bytes (fst (push (d @ e) b))"
    and "snd (push e (fst (push d b))) \<and> snd (push (d @ e) b)"
  using assms push_invar [OF b, of d] used_bytes [OF b] used_bytes [of "fst (push d b)"]
  by (simp_all add: push_accepts push_bytes push_room)

text \<open>What was pushed onto an empty queue is popped from it.\<close>

lemma push_pop:
  assumes b: "invar b" and "bytes b = []" and "length d \<le> room b" and "length d < 2 ^ 63"
  shows "bytes (fst (pop (length d) (fst (push d b)))) = []"
  using assms used_bytes [OF b] by (simp add: pop_bytes push_invar push_bytes push_accepts)

end

section \<open>\<^verbatim>\<open>ContinuousBuffer\<close>\<close>

record cbuf =
  cb_mem :: string
  cb_limit :: nat
  cb_start :: nat
  cb_used :: nat

definition ContinuousBuffer :: "nat \<Rightarrow> nat \<Rightarrow> cbuf" where
  "ContinuousBuffer n limit = \<lparr>cb_mem = replicate n NUL, cb_limit = limit, cb_start = 0, cb_used = 0\<rparr>"

definition cb_capacity :: "cbuf \<Rightarrow> nat" where
  "cb_capacity b = length (cb_mem b)"

definition cb_space :: "cbuf \<Rightarrow> nat" where
  "cb_space b = length (cb_mem b) - (cb_start b + cb_used b)"

text \<open>\<^verbatim>\<open>data()\<close>: the offset of the first byte in the vector, or the null pointer.\<close>

definition cb_data :: "cbuf \<Rightarrow> nat option" where
  "cb_data b = (if cb_used b = 0 then None else Some (cb_start b))"

text \<open>\<^verbatim>\<open>memcpy\<close> and \<^verbatim>\<open>memmove\<close> into a vector, and \<^verbatim>\<open>vector::resize\<close>.\<close>

definition mem_write :: "nat \<Rightarrow> string \<Rightarrow> string \<Rightarrow> string" where
  "mem_write at d mem = take at mem @ d @ drop (at + length d) mem"

definition mem_resize :: "nat \<Rightarrow> string \<Rightarrow> string" where
  "mem_resize n mem = take n mem @ replicate (n - length mem) NUL"

definition cb_shift :: "cbuf \<Rightarrow> cbuf" where
  "cb_shift b =
     (if cb_start b > 0
      then b\<lparr>cb_mem := mem_write 0 (take (cb_used b) (drop (cb_start b) (cb_mem b))) (cb_mem b), cb_start := 0\<rparr>
      else b)"

definition cb_need :: "nat \<Rightarrow> cbuf \<Rightarrow> nat" where
  "cb_need n b = sz_add (sz_add (cb_start b) (cb_used b)) n"

definition cb_append :: "string \<Rightarrow> cbuf \<Rightarrow> cbuf" where
  "cb_append d b =
     b\<lparr>cb_mem := mem_write (sz_add (cb_start b) (cb_used b)) d (cb_mem b),
       cb_used := sz_add (cb_used b) (length d)\<rparr>"

definition cb_push :: "string \<Rightarrow> cbuf \<Rightarrow> cbuf \<times> bool" where
  "cb_push d b =
     (if cb_need (length d) b > length (cb_mem b) then
        (let b = cb_shift b in
         if cb_need (length d) b > length (cb_mem b) then
           if cb_need (length d) b > cb_limit b then (b, False)
           else (cb_append d (b\<lparr>cb_mem := mem_resize (cb_need (length d) b) (cb_mem b)\<rparr>), True)
         else (cb_append d b, True))
      else (cb_append d b, True))"

definition cb_pop :: "nat \<Rightarrow> cbuf \<Rightarrow> cbuf \<times> nat" where
  "cb_pop n b =
     (let n = (if n > cb_used b then cb_used b else n) in
      (b\<lparr>cb_start := sz_add (cb_start b) n, cb_used := cb_used b - n\<rparr>, n))"

definition cb_reset :: "cbuf \<Rightarrow> cbuf" where
  "cb_reset b = b\<lparr>cb_start := 0, cb_used := 0\<rparr>"

section \<open>The queue it implements\<close>

definition cb_bytes :: "cbuf \<Rightarrow> string" where
  "cb_bytes b = take (cb_used b) (drop (cb_start b) (cb_mem b))"

definition cb_room :: "cbuf \<Rightarrow> nat" where
  "cb_room b = max (length (cb_mem b)) (cb_limit b)"

text \<open>No object is larger than half of the address space.\<close>

definition cb_inv :: "cbuf \<Rightarrow> bool" where
  "cb_inv b \<longleftrightarrow> cb_start b + cb_used b \<le> length (cb_mem b) \<and> cb_room b < 2 ^ 63"

lemma cb_inv_init: "n < 2 ^ 63 \<Longrightarrow> limit < 2 ^ 63 \<Longrightarrow> cb_inv (ContinuousBuffer n limit)"
  by (simp add: cb_inv_def ContinuousBuffer_def cb_room_def)

lemma cb_bytes_init [simp]: "cb_bytes (ContinuousBuffer n limit) = []"
  by (simp add: cb_bytes_def ContinuousBuffer_def)

lemma cb_need_exact:
  "cb_inv b \<Longrightarrow> n < 2 ^ 63 \<Longrightarrow> cb_need n b = cb_start b + cb_used b + n"
  by (simp add: cb_need_def cb_inv_def cb_room_def sz_add_def)

lemma cb_shift_correct:
  assumes "cb_inv b"
  shows "cb_inv (cb_shift b)" "cb_bytes (cb_shift b) = cb_bytes b" "cb_start (cb_shift b) = 0"
    "cb_used (cb_shift b) = cb_used b" "length (cb_mem (cb_shift b)) = length (cb_mem b)"
    "cb_limit (cb_shift b) = cb_limit b"
  using assms by (auto simp: cb_shift_def cb_inv_def cb_bytes_def mem_write_def cb_room_def)

lemma cb_append_correct:
  assumes "cb_inv b" and "cb_start b + cb_used b + length d \<le> length (cb_mem b)"
  shows "cb_bytes (cb_append d b) = cb_bytes b @ d" "cb_inv (cb_append d b)" "cb_room (cb_append d b) = cb_room b"
    "cb_used (cb_append d b) = cb_used b + length d"
proof -
  have exact: "sz_add (cb_start b) (cb_used b) = cb_start b + cb_used b"
      "sz_add (cb_used b) (length d) = cb_used b + length d"
    using assms by (simp_all add: cb_inv_def cb_room_def sz_add_def)
  have "drop (cb_start b) (take (cb_start b + cb_used b) (cb_mem b)) = cb_bytes b"
    by (simp add: cb_bytes_def take_drop add.commute)
  moreover have "length (cb_bytes b) = cb_used b"
    using assms by (simp add: cb_bytes_def)
  ultimately show "cb_bytes (cb_append d b) = cb_bytes b @ d"
    using assms by (simp add: cb_append_def cb_bytes_def
        mem_write_def exact)
qed (use assms in \<open>auto simp: cb_append_def cb_inv_def cb_room_def mem_write_def sz_add_def\<close>)

lemma mem_resize_correct:
  assumes "cb_inv b" and "length (cb_mem b) \<le> n" and "n \<le> cb_limit b"
  shows "cb_inv (b\<lparr>cb_mem := mem_resize n (cb_mem b)\<rparr>)"
    "cb_bytes (b\<lparr>cb_mem := mem_resize n (cb_mem b)\<rparr>) = cb_bytes b"
    "length (mem_resize n (cb_mem b)) = n"
    "cb_room (b\<lparr>cb_mem := mem_resize n (cb_mem b)\<rparr>) = cb_room b"
  using assms by (auto simp: mem_resize_def cb_inv_def cb_bytes_def cb_room_def)

lemma cb_length_bytes: "cb_inv b \<Longrightarrow> length (cb_bytes b) = cb_used b"
  by (auto simp: cb_inv_def cb_bytes_def min_def)

text \<open>\<^verbatim>\<open>push\<close> accepts what fits behind the present bytes, shifting or growing the vector when needed.\<close>

lemma cb_push_correct:
  assumes b: "cb_inv b" and d: "length d < 2 ^ 63"
  defines "r \<equiv> cb_push d b"
  shows "cb_inv (fst r) \<and> cb_room (fst r) = cb_room b \<and>
    snd r = (cb_used b + length d \<le> cb_room b) \<and>
    cb_bytes (fst r) = (if snd r then cb_bytes b @ d else cb_bytes b)"
proof (cases "cb_start b + cb_used b + length d \<le> length (cb_mem b)")
  case True
  then have "r = (cb_append d b, True)"
    by (simp add: r_def cb_push_def cb_need_exact [OF b d])
  then show ?thesis using cb_append_correct [OF b True] True by (simp add: cb_room_def)
next
  case False
  note s = cb_shift_correct [OF b]
  define c where "c = cb_shift b"
  have c: "cb_inv c" "cb_start c = 0" "cb_used c = cb_used b" "cb_bytes c = cb_bytes b"
      "length (cb_mem c) = length (cb_mem b)" "cb_limit c = cb_limit b" "cb_room c = cb_room b"
    using s by (simp_all add: c_def cb_room_def)
  have need: "cb_need (length d) c = cb_used b + length d"
    using cb_need_exact [OF c(1) d] c by simp
  have r: "r = (if cb_used b + length d > length (cb_mem b) then
        if cb_used b + length d > cb_limit b then (c, False)
        else (cb_append d (c\<lparr>cb_mem := mem_resize (cb_used b + length d) (cb_mem c)\<rparr>), True)
      else (cb_append d c, True))"
    using False c need by (simp add: r_def cb_push_def cb_need_exact [OF b d] Let_def flip: c_def)
  consider (fits) "cb_used b + length d \<le> length (cb_mem b)"
    | (full) "cb_used b + length d > length (cb_mem b)" "cb_used b + length d > cb_limit b"
    | (grow) "cb_used b + length d > length (cb_mem b)" "cb_used b + length d \<le> cb_limit b"
    by linarith
  then show ?thesis
  proof cases
    case fits
    then show ?thesis using r c cb_append_correct [OF c(1), of d] by (simp add: cb_room_def)
  next
    case full
    then show ?thesis using r c by (simp add: cb_room_def)
  next
    case grow
    have m: "cb_inv (c\<lparr>cb_mem := mem_resize (cb_used b + length d) (cb_mem c)\<rparr>)"
        "cb_bytes (c\<lparr>cb_mem := mem_resize (cb_used b + length d) (cb_mem c)\<rparr>) = cb_bytes b"
        "length (mem_resize (cb_used b + length d) (cb_mem c)) = cb_used b + length d"
        "cb_room (c\<lparr>cb_mem := mem_resize (cb_used b + length d) (cb_mem c)\<rparr>) = cb_room b"
      using mem_resize_correct [OF c(1), of "cb_used b + length d"] c grow by simp_all
    show ?thesis
      using grow r c m cb_append_correct [OF m(1), of d] by (simp add: cb_room_def)
  qed
qed

lemma cb_pop_correct:
  assumes "cb_inv b"
  shows "cb_inv (fst (cb_pop n b))" "cb_room (fst (cb_pop n b)) = cb_room b"
    "cb_bytes (fst (cb_pop n b)) = drop n (cb_bytes b)" "snd (cb_pop n b) = min n (cb_used b)"
proof -
  define k where "k = min n (cb_used b)"
  have "sz_add (cb_start b) k = cb_start b + k"
    using assms by (auto simp: cb_inv_def cb_room_def sz_add_def k_def)
  then have p: "cb_pop n b = (b\<lparr>cb_start := cb_start b + k, cb_used := cb_used b - k\<rparr>, k)"
    by (auto simp: cb_pop_def Let_def k_def min_def)
  show "cb_room (fst (cb_pop n b)) = cb_room b" "snd (cb_pop n b) = min n (cb_used b)"
    by (simp_all add: p cb_room_def k_def)
  show "cb_inv (fst (cb_pop n b))"
    using assms by (auto simp: p cb_inv_def cb_room_def k_def)
  have "drop n (cb_bytes b) = drop k (cb_bytes b)"
    using cb_length_bytes [OF assms] by (simp add: k_def min_def)
  then show "cb_bytes (fst (cb_pop n b)) = drop n (cb_bytes b)"
    by (simp add: p cb_bytes_def drop_take add.commute)
qed

interpretation cb: byte_queue cb_push cb_pop cb_reset cb_used cb_bytes cb_room cb_inv
proof unfold_locales
  fix b :: cbuf and d :: string
  assume b: "cb_inv b"
  show "cb_used b = length (cb_bytes b)" using b by (simp add: cb_length_bytes)
  show "cb_used b \<le> cb_room b" using b by (auto simp: cb_inv_def cb_room_def le_max_iff_disj)
  assume d: "length d < 2 ^ 63"
  note p = cb_push_correct [OF b d]
  show "snd (cb_push d b) = (cb_used b + length d \<le> cb_room b)" using p by simp
  show "cb_bytes (fst (cb_push d b)) = (if snd (cb_push d b) then cb_bytes b @ d else cb_bytes b)"
    using p by simp
  show "cb_room (fst (cb_push d b)) = cb_room b" using p by simp
  show "cb_inv (fst (cb_push d b))" using p by simp
qed (simp_all add: cb_pop_correct, auto simp: cb_reset_def cb_bytes_def cb_room_def cb_inv_def)



section \<open>\<^verbatim>\<open>ReadBuffer\<close>\<close>

record rbuf =
  rb_buffers :: "string list"
  rb_size :: nat
  rb_active :: nat

definition ReadBuffer :: "nat \<Rightarrow> rbuf" where
  "ReadBuffer n = \<lparr>rb_buffers = [replicate n NUL, replicate n NUL], rb_size = n, rb_active = 0\<rparr>"

definition rb_w_index :: "rbuf \<Rightarrow> nat" where
  "rb_w_index b = rb_active b"

definition rb_r_index :: "rbuf \<Rightarrow> nat" where
  "rb_r_index b = xor (rb_active b) 1"

definition rb_swap :: "rbuf \<Rightarrow> rbuf" where
  "rb_swap b = b\<lparr>rb_active := rb_r_index b\<rparr>"

text \<open>A completed read of \<open>d\<close> (at most \<^verbatim>\<open>size()\<close> bytes) into the writer's side.\<close>

definition rb_receive :: "string \<Rightarrow> rbuf \<Rightarrow> rbuf" where
  "rb_receive d b =
     b\<lparr>rb_buffers := (rb_buffers b)[rb_w_index b := mem_write 0 d (rb_buffers b ! rb_w_index b)]\<rparr>"

definition rb_inv :: "rbuf \<Rightarrow> bool" where
  "rb_inv b \<longleftrightarrow> length (rb_buffers b) = 2 \<and> (\<forall>s \<in> set (rb_buffers b). length s = rb_size b) \<and> rb_active b < 2"

lemma rb_index_cases: "rb_inv b \<Longrightarrow> (rb_w_index b = 0 \<and> rb_r_index b = 1) \<or> (rb_w_index b = 1 \<and> rb_r_index b = 0)"
  by (auto simp: rb_inv_def rb_w_index_def rb_r_index_def less_2_cases_iff)

lemma rb_inv_init: "rb_inv (ReadBuffer n)"
  by (simp add: rb_inv_def ReadBuffer_def)

lemma rb_inv_swap: "rb_inv b \<Longrightarrow> rb_inv (rb_swap b)"
  using rb_index_cases [of b] by (auto simp: rb_inv_def rb_swap_def)

lemma rb_inv_receive: "rb_inv b \<Longrightarrow> length d \<le> rb_size b \<Longrightarrow> rb_inv (rb_receive d b)"
  using rb_index_cases [of b]
  by (auto simp: rb_inv_def rb_receive_def mem_write_def dest!: set_update_subset_insert [THEN subsetD])

lemma rb_received:
  assumes "rb_inv b" and "length d \<le> rb_size b"
  defines "c \<equiv> rb_swap (rb_receive d b)"
  shows "rb_inv c" and "rb_size c = rb_size b" and "take (length d) (rb_buffers c ! rb_r_index c) = d"
proof -
  show "rb_inv c" unfolding c_def by (rule rb_inv_swap [OF rb_inv_receive [OF assms(1,2)]])
  show "rb_size c = rb_size b" by (simp add: c_def rb_swap_def rb_receive_def)
  show "take (length d) (rb_buffers c ! rb_r_index c) = d"
    using assms(1) rb_index_cases [OF assms(1)]
    by (auto simp: c_def rb_swap_def rb_receive_def rb_r_index_def rb_w_index_def mem_write_def rb_inv_def)
qed

text \<open>
  After a completed read and a swap the reader's side starts with the bytes received, and a
  further read into the writer's side leaves them alone: the two sides are never the same vector.
\<close>

lemma read_buffer:
  assumes "rb_inv b" and "length d \<le> rb_size b" and "length e \<le> rb_size b"
  defines "c \<equiv> rb_swap (rb_receive d b)"
  shows "rb_inv c \<and> rb_r_index c \<noteq> rb_w_index c \<and>
    take (length d) (rb_buffers c ! rb_r_index c) = d \<and>
    rb_buffers (rb_receive e c) ! rb_r_index c = rb_buffers c ! rb_r_index c"
proof -
  have r: "rb_inv (rb_receive d b)" by (rule rb_inv_receive [OF assms(1,2)])
  have c: "rb_inv c" unfolding c_def by (rule rb_inv_swap [OF r])
  have i: "rb_w_index c = rb_r_index b" "rb_r_index c = rb_w_index b" "rb_buffers c = rb_buffers (rb_receive d b)"
    using rb_index_cases [OF assms(1)] rb_index_cases [OF c] rb_index_cases [OF r]
    by (auto simp: c_def rb_swap_def rb_receive_def rb_r_index_def rb_w_index_def)
  have "rb_buffers (rb_receive d b) ! rb_w_index b = mem_write 0 d (rb_buffers b ! rb_w_index b)"
    using assms(1) rb_index_cases [OF assms(1)] by (auto simp: rb_receive_def rb_inv_def)
  then show ?thesis
    using c i rb_index_cases [OF c] by (auto simp: rb_receive_def mem_write_def)
qed

lemma read_buffer_witness:
  "take (length ''ab'') (rb_buffers (rb_swap (rb_receive ''ab'' (ReadBuffer 4))) ! 0) = ''ab''"
  using read_buffer [of "ReadBuffer 4" "''ab''" "''''"] rb_inv_init [of 4]
  by (simp add: ReadBuffer_def rb_swap_def rb_receive_def rb_r_index_def rb_w_index_def)

end
