(* ===== verification/Kes_Framing.thy ===== *)
theory Kes_Framing
  imports Kes_Buffer
begin

text \<open>
  How both ends of a connection find the messages in the byte stream: they count braces. The loop is
  the same text in \<^verbatim>\<open>SessionHandler::process\<close> and in \<^verbatim>\<open>Client::process\<close>. The second half
  of the theory says what it amounts to on the bytes received since the last message.
\<close>

abbreviation LBRACE :: char where
  "LBRACE \<equiv> CHR 0x7B"

abbreviation RBRACE :: char where
  "RBRACE \<equiv> CHR 0x7D"

text \<open>The scan of the new bytes; the counters are of type \<^verbatim>\<open>size_t\<close>. \<open>None\<close> is ``Invalid JSON''.\<close>

fun scan_braces :: "string \<Rightarrow> nat \<Rightarrow> nat \<Rightarrow> (nat \<times> nat) option" where
  "scan_braces [] depth depthMax = Some (depth, depthMax)"
| "scan_braces (c # cs) depth depthMax =
     (if c = LBRACE then
        let depth = sz_add depth 1 in
        scan_braces cs depth (if depth > depthMax then depth else depthMax)
      else if c = RBRACE then
        if depth = 0 then None else scan_braces cs (depth - 1) depthMax
      else scan_braces cs depth depthMax)"

section \<open>The C string in a buffer\<close>

text \<open>
  The bytes from \<^verbatim>\<open>data()\<close> to the first NUL; without a NUL up to the end of the vector a reader runs
  out of it.
\<close>

definition cb_cstring :: "cbuf \<Rightarrow> string option" where
  "cb_cstring b =
     (case cb_data b of
        None \<Rightarrow> None
      | Some at \<Rightarrow> if NUL \<in> set (drop at (cb_mem b)) then Some (cstr (drop at (cb_mem b))) else None)"

lemma cstr_append: "NUL \<in> set s \<Longrightarrow> cstr (s @ t) = cstr s"
  by (auto simp: cstr_def takeWhile_append)

lemma cb_cstring_terminated:
  assumes "cb_bytes b = s @ [NUL]" and "cb_inv b"
  shows "cb_cstring b = Some (cstr s)"
proof -
  have "cb_used b = Suc (length s)" using assms cb_length_bytes [OF assms(2)] by simp
  moreover have "drop (cb_start b) (cb_mem b) = s @ NUL # drop (cb_used b) (drop (cb_start b) (cb_mem b))"
    using append_take_drop_id [of "cb_used b" "drop (cb_start b) (cb_mem b)"] assms(1)
    by (simp add: cb_bytes_def)
  ultimately show ?thesis
    by (cases "NUL \<in> set s") (simp_all add: cb_cstring_def cb_data_def cstr_append)
qed

lemma cb_cstring_full:
  assumes "cb_inv b" and "cb_used b = cb_room b" and "cb_bytes b = s" and "s \<noteq> []"
  shows "cb_cstring b = (if NUL \<in> set s then Some (cstr s) else None)"
proof -
  have "cb_start b = 0 \<and> cb_used b = length (cb_mem b)"
    using assms(1,2) by (auto simp: cb_inv_def cb_room_def)
  moreover from this have "cb_mem b = s" using assms(3) by (simp add: cb_bytes_def)
  moreover have "cb_used b \<noteq> 0" using assms(3,4) by (auto simp: cb_bytes_def)
  ultimately show ?thesis by (simp add: cb_cstring_def cb_data_def)
qed

section \<open>Brace balance\<close>

fun balance :: "string \<Rightarrow> nat \<Rightarrow> nat option" where
  "balance [] d = Some d"
| "balance (c # cs) d =
     (if c = LBRACE then balance cs (Suc d)
      else if c = RBRACE then (case d of 0 \<Rightarrow> None | Suc e \<Rightarrow> balance cs e)
      else balance cs d)"

lemma balance_append: "balance (s @ t) d = (case balance s d of None \<Rightarrow> None | Some e \<Rightarrow> balance t e)"
  by (induction s d rule: balance.induct) (auto split: nat.split)

lemma balance_bound: "balance s d = Some e \<Longrightarrow> e \<le> d + length s"
  by (induction s d rule: balance.induct) (fastforce split: if_splits nat.splits)+

text \<open>As long as fewer than 2 to the 64 bytes were seen, the counters are the balance and a flag.\<close>

lemma scan_balance:
  "d + length s < 2 ^ 64 \<Longrightarrow>
     (case balance s d of
        None \<Rightarrow> scan_braces s d m = None
      | Some e \<Rightarrow> \<exists>m'. scan_braces s d m = Some (e, m') \<and> (m' = 0 \<longleftrightarrow> m = 0 \<and> LBRACE \<notin> set s))"
proof (induction s d arbitrary: m rule: balance.induct)
  case (2 c cs d)
  consider (l) "c = LBRACE" | (r) "c = RBRACE" | (o) "c \<noteq> LBRACE" "c \<noteq> RBRACE" by blast
  then show ?case
  proof cases
    case l
    have "sz_add d 1 = Suc d" using "2.prems" by (simp add: sz_add_def)
    then show ?thesis
      using "2.IH"(1) [OF l, of "if Suc d > m then Suc d else m"] "2.prems" l
      by (auto simp: Let_def split: option.splits)
  next
    case r
    then show ?thesis
      using "2.IH"(2) [of _ m] "2.prems" by (cases d) (auto split: option.splits)
  next
    case o
    then show ?thesis using "2.IH"(3) [of m] "2.prems" by (auto split: option.splits)
  qed
qed simp

section \<open>Messages in a byte stream\<close>

definition complete :: "string \<Rightarrow> bool" where
  "complete s \<longleftrightarrow> balance s 0 = Some 0 \<and> LBRACE \<in> set s"

text \<open>A byte string that is one message: complete, and no sooner than at its end.\<close>

definition message :: "string \<Rightarrow> bool" where
  "message m \<longleftrightarrow> complete m \<and> (\<forall>i < length m. \<not> complete (take i m))"

lemma message_prefix:
  assumes "message (s @ t)" and "t \<noteq> []"
  shows "\<not> complete s" "balance s 0 \<noteq> None"
proof -
  have "length s < length (s @ t)" using assms(2) by simp
  then have "\<not> complete (take (length s) (s @ t))" using assms(1) unfolding message_def by blast
  then show "\<not> complete s" by simp
  show "balance s 0 \<noteq> None"
    using assms(1) by (auto simp: message_def complete_def balance_append split: option.splits)
qed

text \<open>
  What a receiver that has kept \<open>acc\<close> and can hold \<open>room\<close> bytes does with the bytes \<open>data\<close>: refuse
  them with a complaint, wait for more, hand over a text, or read beyond the buffer.
\<close>

datatype verdict = Reject string | Wait | Deliver string | Overrun

definition verdict :: "nat \<Rightarrow> string \<Rightarrow> string \<Rightarrow> verdict" where
  "verdict room acc data =
     (if length (acc @ data) > room then Reject ''Packet size exceeds limit''
      else if data = [] then Wait
      else if balance (acc @ data) 0 = None then Reject ''Invalid JSON''
      else if \<not> complete (acc @ data) then Wait
      else if length (acc @ data) < room \<or> NUL \<in> set (acc @ data) then Deliver (cstr (acc @ data))
      else Overrun)"

lemma verdict_split_message:
  assumes "message (acc @ c @ rest)" and "rest \<noteq> []" and "length (acc @ c @ rest) \<le> room"
  shows "verdict room acc c = Wait"
  using message_prefix [of "acc @ c" rest] assms by (auto simp: verdict_def)

end
