(* ===== verification/Kes_Session.thy ===== *)
theory Kes_Session
  imports Kes_Framing Kes_RequestProcessor
begin

text \<open>
  One connection on the server (\<^verbatim>\<open>src/kexplorer-server/sessionhandler.cxx\<close>): it collects the bytes
  of the client, hands every complete message to the request processor and returns its answer; any
  complaint makes the server drop the connection. The processor is the interface
  \<^verbatim>\<open>IRequestProcessor\<close>, a record of its methods.
\<close>

record 'w request_processor =
  rpi_process :: "u32 \<Rightarrow> string \<Rightarrow> 'w \<Rightarrow> string outcome \<times> 'w"
  rpi_startSession :: "u32 \<Rightarrow> 'w \<Rightarrow> 'w"
  rpi_endSession :: "u32 \<Rightarrow> 'w \<Rightarrow> 'w"

record SessionHandlerOptions =
  sho_bufferSize :: nat
  sho_bufferLimit :: nat

record session =
  sh_peerAddr :: string
  sh_id :: u32
  sh_buffer :: cbuf
  sh_jsonDepth :: nat
  sh_jsonDepthMax :: nat

definition SessionHandler ::
    "'w request_processor \<Rightarrow> SessionHandlerOptions \<Rightarrow> string \<Rightarrow> u32 \<Rightarrow> 'w \<Rightarrow> session \<times> 'w" where
  "SessionHandler RP opts peerAddr sid w =
     (\<lparr>sh_peerAddr = peerAddr, sh_id = sid,
       sh_buffer = ContinuousBuffer (sho_bufferSize opts) (sho_bufferLimit opts),
       sh_jsonDepth = 0, sh_jsonDepthMax = 0\<rparr>,
      rpi_startSession RP sid w)"

definition SessionHandler_destroy :: "'w request_processor \<Rightarrow> session \<Rightarrow> 'w \<Rightarrow> 'w" where
  "SessionHandler_destroy RP s w = rpi_endSession RP (sh_id s) w"

text \<open>The \<^verbatim>\<open>catch\<close> clause of \<^verbatim>\<open>process\<close>.\<close>

definition session_abort ::
    "exn \<Rightarrow> session \<Rightarrow> 'z world_scheme \<Rightarrow>
     (CallbackResult \<times> string) outcome \<times> session \<times> 'z world_scheme" where
  "session_abort e s w =
     (Ok (Abort, []),
      s\<lparr>sh_buffer := cb_reset (sh_buffer s), sh_jsonDepth := 0, sh_jsonDepthMax := 0\<rparr>,
      world_log Error (''SessionHandler: failed to process the request: '' @ what e) w)"

text \<open>
  A complete message: the result of appending the terminator is not looked at.
\<close>

definition session_deliver ::
    "'z world_scheme request_processor \<Rightarrow> nat \<Rightarrow> session \<Rightarrow> 'z world_scheme \<Rightarrow>
     (CallbackResult \<times> string) outcome \<times> session \<times> 'z world_scheme" where
  "session_deliver RP posCur s w =
     (let b = fst (cb_push [NUL] (sh_buffer s)); s = s\<lparr>sh_buffer := b\<rparr> in
      case cb_cstring b of
        None \<Rightarrow> (UB, s, w)
      | Some request \<Rightarrow>
          (case rpi_process RP (sh_id s) request w of
             (Ok response, w') \<Rightarrow>
               (Ok (Continue, response),
                s\<lparr>sh_buffer := fst (cb_pop (sz_add posCur 1) b), sh_jsonDepthMax := 0\<rparr>, w')
           | (Throw e, w') \<Rightarrow> session_abort e s w'
           | (Terminate, w') \<Rightarrow> (Terminate, s, w')
           | (UB, w') \<Rightarrow> (UB, s, w')))"

definition session_process ::
    "'z world_scheme request_processor \<Rightarrow> string \<Rightarrow> session \<Rightarrow> 'z world_scheme \<Rightarrow>
     (CallbackResult \<times> string) outcome \<times> session \<times> 'z world_scheme" where
  "session_process RP data s w =
     (let posPrev = cb_used (sh_buffer s); (b, pushed) = cb_push data (sh_buffer s);
          s = s\<lparr>sh_buffer := b\<rparr> in
      if \<not> pushed then session_abort (KesExn (Exception ''Packet size exceeds limit'' [])) s w
      else
        let posCur = cb_used b in
        if posCur = posPrev then (Ok (Continue, []), s, w)
        else
          (case scan_braces (drop posPrev (cb_bytes b)) (sh_jsonDepth s) (sh_jsonDepthMax s) of
             None \<Rightarrow> session_abort (KesExn (Exception ''Invalid JSON'' [])) s w
           | Some (depth, depthMax) \<Rightarrow>
               let s = s\<lparr>sh_jsonDepth := depth, sh_jsonDepthMax := depthMax\<rparr> in
               if depth = 0 then
                 if depthMax = 0 then (Ok (Continue, []), s, w)
                 else session_deliver RP posCur s w
               else (Ok (Continue, []), s, w)))"

text \<open>The bytes of a connection arrive in chunks.\<close>

fun session_run ::
    "'z world_scheme request_processor \<Rightarrow> string list \<Rightarrow> session \<Rightarrow> 'z world_scheme \<Rightarrow>
     (CallbackResult \<times> string) outcome list \<times> session \<times> 'z world_scheme" where
  "session_run RP [] s w = ([], s, w)"
| "session_run RP (c # cs) s w =
     (case session_process RP c s w of
        (Ok r, s', w') \<Rightarrow> (case session_run RP cs s' w' of (rs, s'', w'') \<Rightarrow> (Ok r # rs, s'', w''))
      | (r, s', w') \<Rightarrow> ([r], s', w'))"

section \<open>The abstract session\<close>

text \<open>
  All a session keeps between two chunks is the sequence of the bytes that were not delivered yet.
\<close>

definition session_spec ::
    "'z world_scheme request_processor \<Rightarrow> u32 \<Rightarrow> nat \<Rightarrow> string \<Rightarrow> string \<Rightarrow> 'z world_scheme \<Rightarrow>
     (CallbackResult \<times> string) outcome \<times> string \<times> 'z world_scheme" where
  "session_spec RP sid room acc data w =
     (case verdict room acc data of
        Reject m \<Rightarrow>
          (Ok (Abort, []), [], world_log Error (''SessionHandler: failed to process the request: '' @ m) w)
      | Wait \<Rightarrow> (Ok (Continue, []), acc @ data, w)
      | Deliver request \<Rightarrow>
          (case rpi_process RP sid request w of
             (Ok response, w') \<Rightarrow> (Ok (Continue, response), [], w')
           | (Throw e, w') \<Rightarrow>
               (Ok (Abort, []), [], world_log Error (''SessionHandler: failed to process the request: '' @ what e) w')
           | (Terminate, w') \<Rightarrow> (Terminate, [], w')
           | (UB, w') \<Rightarrow> (UB, [], w'))
      | Overrun \<Rightarrow> (UB, [], w))"

definition session_inv :: "session \<Rightarrow> bool" where
  "session_inv s \<longleftrightarrow>
     cb_inv (sh_buffer s) \<and> balance (cb_bytes (sh_buffer s)) 0 = Some (sh_jsonDepth s) \<and>
     (sh_jsonDepthMax s = 0 \<longleftrightarrow> LBRACE \<notin> set (cb_bytes (sh_buffer s)))"

abbreviation sh_bytes :: "session \<Rightarrow> string" where
  "sh_bytes s \<equiv> cb_bytes (sh_buffer s)"

abbreviation sh_room :: "session \<Rightarrow> nat" where
  "sh_room s \<equiv> cb_room (sh_buffer s)"

text \<open>What every result of a chunk has to show.\<close>

definition session_refines ::
    "session \<Rightarrow> (CallbackResult \<times> string) outcome \<times> session \<times> 'w \<Rightarrow>
     (CallbackResult \<times> string) outcome \<times> string \<times> 'w \<Rightarrow> bool" where
  "session_refines s r r' \<longleftrightarrow>
     (case (r, r') of ((a, s', w), (a', acc, w')) \<Rightarrow> a = a' \<and> w = w' \<and>
        (is_ok a \<longrightarrow> session_inv s' \<and> sh_bytes s' = acc \<and> sh_room s' = sh_room s \<and> sh_id s' = sh_id s))"

lemma abort_refines:
  assumes "cb_inv (sh_buffer s')" and "sh_room s' = sh_room s" and "sh_id s' = sh_id s"
  shows "session_refines s (session_abort e s' w)
    (Ok (Abort, []), [], world_log Error (''SessionHandler: failed to process the request: '' @ what e) w)"
  using assms
  by (simp add: session_refines_def session_abort_def session_inv_def cb.reset_bytes cb.reset_room cb.reset_invar)

lemma deliver_refines:
  assumes b: "cb_inv (sh_buffer s')" and room: "sh_room s' = sh_room s" and sid: "sh_id s' = sh_id s"
    and all: "sh_bytes s' = acc" "acc \<noteq> []" and depth: "sh_jsonDepth s' = 0"
    and spec: "verdict (sh_room s) acc0 data =
      (if length acc < sh_room s \<or> NUL \<in> set acc then Deliver (cstr acc) else Overrun)"
  shows "session_refines s (session_deliver RP (length acc) s' w)
    (session_spec RP (sh_id s) (sh_room s) acc0 data w)"
proof -
  define b1 where "b1 = fst (cb_push [NUL] (sh_buffer s'))"
  have b1: "cb_inv b1" "cb_room b1 = sh_room s"
    using cb.push_invar [OF b] cb.push_room [OF b] room by (simp_all add: b1_def)
  have len: "cb_used (sh_buffer s') = length acc" using cb.used_bytes [OF b] all by simp
  have fits: "length acc \<le> sh_room s" using cb.used_room [OF b] len room by simp
  have bytes: "cb_bytes b1 = (if length acc < sh_room s then acc @ [NUL] else acc)"
    using cb.push_bytes [OF b, of "[NUL]"] cb.push_accepts [OF b, of "[NUL]"] all len room
    by (auto simp: b1_def)
  have cs: "cb_cstring b1 =
      (if length acc < sh_room s \<or> NUL \<in> set acc then Some (cstr acc) else None)"
  proof (cases "length acc < sh_room s")
    case True
    then show ?thesis using cb_cstring_terminated [OF _ b1(1)] bytes by simp
  next
    case False
    then have "cb_bytes b1 = acc" "cb_used b1 = cb_room b1"
      using bytes cb.used_bytes [OF b1(1)] fits b1(2) by auto
    then show ?thesis using cb_cstring_full [OF b1(1)] all False by simp
  qed
  have "length acc < 2 ^ 63" using fits b1 by (simp add: cb_inv_def)
  then have "sz_add (length acc) 1 = length acc + 1" by (simp add: sz_add_def)
  then have popped: "cb_bytes (fst (cb_pop (sz_add (length acc) 1) b1)) = []"
    using cb.pop_bytes [OF b1(1)] bytes by simp
  show ?thesis
  proof (cases "length acc < sh_room s \<or> NUL \<in> set acc")
    case False
    then show ?thesis
      using spec cs by (simp add: session_deliver_def b1_def [symmetric] session_spec_def session_refines_def Let_def)
  next
    case True
    obtain q w' where q: "rpi_process RP (sh_id s) (cstr acc) w = (q, w')"
      by (cases "rpi_process RP (sh_id s) (cstr acc) w")
    have d: "verdict (sh_room s) acc0 data = Deliver (cstr acc)" "cb_cstring b1 = Some (cstr acc)"
      using True spec cs by simp_all
    show ?thesis
    proof (cases q)
      case (Throw e)
      then show ?thesis
        using d q sid abort_refines [of "s'\<lparr>sh_buffer := b1\<rparr>" s e w'] b1
        by (simp add: session_deliver_def b1_def [symmetric] session_spec_def Let_def)
    qed (use d q sid b1 popped depth cb.pop_invar [OF b1(1)] cb.pop_room [OF b1(1)] in
        \<open>simp_all add: session_deliver_def b1_def [symmetric] session_spec_def session_refines_def
          session_inv_def Let_def\<close>)
  qed
qed

lemma session_init_inv:
  assumes "sho_bufferSize opts < 2 ^ 63" and "sho_bufferLimit opts < 2 ^ 63"
  shows "session_inv (fst (SessionHandler RP opts peer sid w))" "sh_bytes (fst (SessionHandler RP opts peer sid w)) = []"
  using cb_inv_init [OF assms] by (simp_all add: SessionHandler_def session_inv_def)

text \<open>The scan of one more chunk: it keeps the depth and the flag of all the bytes there are.\<close>

lemma chunk_scanned:
  assumes bal: "balance acc 0 = Some n" and flag: "k = 0 \<longleftrightarrow> LBRACE \<notin> set acc"
    and len: "length (acc @ data) < 2 ^ 63"
  obtains (invalid) "balance (acc @ data) 0 = None" "scan_braces data n k = None"
    | (valid) d m where "balance (acc @ data) 0 = Some d" "scan_braces data n k = Some (d, m)"
        "m = 0 \<longleftrightarrow> LBRACE \<notin> set (acc @ data)" "complete (acc @ data) \<longleftrightarrow> d = 0 \<and> m \<noteq> 0"
proof -
  have "n + length data < 2 ^ 64" using balance_bound [OF bal] len by simp
  note scan = scan_balance [OF this, of k]
  have all: "balance (acc @ data) 0 = balance data n" using bal by (simp add: balance_append)
  show thesis
  proof (cases "balance data n")
    case None
    then show thesis using invalid scan all by simp
  next
    case (Some d)
    then obtain m where m: "scan_braces data n k = Some (d, m)" "m = 0 \<longleftrightarrow> LBRACE \<notin> set (acc @ data)"
      using scan flag by auto
    then show thesis using valid [of d m] Some all by (auto simp: complete_def)
  qed
qed

lemma accepted_refines:
  assumes s: "session_inv s" and p: "cb_push data (sh_buffer s) = (b1, True)" and new: "data \<noteq> []"
    and b1: "cb_inv b1" "cb_room b1 = sh_room s" "cb_bytes b1 = sh_bytes s @ data"
    and fits: "length (sh_bytes s @ data) \<le> sh_room s"
  shows "session_refines s (session_process RP data s w)
    (session_spec RP (sh_id s) (sh_room s) (sh_bytes s) data w)"
proof -
  have b: "cb_inv (sh_buffer s)" and bal: "balance (sh_bytes s) 0 = Some (sh_jsonDepth s)"
    and flag: "sh_jsonDepthMax s = 0 \<longleftrightarrow> LBRACE \<notin> set (sh_bytes s)"
    using s by (simp_all add: session_inv_def)
  have used: "cb_used (sh_buffer s) = length (sh_bytes s)" "cb_used b1 = length (cb_bytes b1)"
    using cb.used_bytes b b1(1) by simp_all
  have scanned: "drop (cb_used (sh_buffer s)) (cb_bytes b1) = data" "cb_used b1 \<noteq> cb_used (sh_buffer s)"
    using b1 used new by simp_all
  have len: "length (sh_bytes s @ data) < 2 ^ 63" using fits b by (simp add: cb_inv_def)
  from bal flag len show ?thesis
  proof (cases rule: chunk_scanned)
    case invalid
    then have "verdict (sh_room s) (sh_bytes s) data = Reject ''Invalid JSON''"
      using fits new by (simp add: verdict_def)
    then show ?thesis
      using invalid p scanned b1
        abort_refines [of "s\<lparr>sh_buffer := b1\<rparr>" s "KesExn (Exception ''Invalid JSON'' [])" w]
      by (simp add: session_process_def session_spec_def Let_def cstr_def)
  next
    case (valid d m)
    let ?t = "s\<lparr>sh_buffer := b1, sh_jsonDepth := d, sh_jsonDepthMax := m\<rparr>"
    show ?thesis
    proof (cases "d = 0 \<and> m \<noteq> 0")
      case True
      then have v: "verdict (sh_room s) (sh_bytes s) data =
          (if length (sh_bytes s @ data) < sh_room s \<or> NUL \<in> set (sh_bytes s @ data)
           then Deliver (cstr (sh_bytes s @ data)) else Overrun)"
        using valid fits new by (simp add: verdict_def)
      have "session_refines s (session_deliver RP (length (sh_bytes s @ data)) ?t w)
          (session_spec RP (sh_id s) (sh_room s) (sh_bytes s) data w)"
        by (rule deliver_refines [OF _ _ _ _ _ _ v]) (use b1 new True in simp_all)
      then show ?thesis
        using True valid(2) p scanned b1(3) used by (simp add: session_process_def Let_def)
    next
      case False
      then have "verdict (sh_room s) (sh_bytes s) data = Wait"
        using valid fits new by (simp add: verdict_def)
      then show ?thesis
        using False valid p scanned b1
        by (auto simp: session_process_def session_spec_def session_refines_def session_inv_def Let_def)
    qed
  qed
qed

lemma step_refines:
  assumes s: "session_inv s" and data: "length data < 2 ^ 63"
  shows "session_refines s (session_process RP data s w)
    (session_spec RP (sh_id s) (sh_room s) (sh_bytes s) data w)"
proof -
  have b: "cb_inv (sh_buffer s)" using s by (simp add: session_inv_def)
  obtain b1 ok where p: "cb_push data (sh_buffer s) = (b1, ok)"
    by (cases "cb_push data (sh_buffer s)")
  have b1: "cb_inv b1" "cb_room b1 = sh_room s" "ok = (length (sh_bytes s @ data) \<le> sh_room s)"
      "cb_bytes b1 = (if ok then sh_bytes s @ data else sh_bytes s)"
    using cb.push_invar [OF b data] cb.push_room [OF b data] cb.push_accepts [OF b data] cb.push_bytes [OF b data]
      p cb.used_bytes [OF b] by simp_all
  have used: "cb_used (sh_buffer s) = length (sh_bytes s)" "cb_used b1 = length (cb_bytes b1)"
    using cb.used_bytes b b1(1) by simp_all
  consider (refused) "\<not> ok" | (nothing) "ok" "data = []" | (more) "ok" "data \<noteq> []" by blast
  then show ?thesis
  proof cases
    case refused
    then have "verdict (sh_room s) (sh_bytes s) data = Reject ''Packet size exceeds limit''"
      using b1(3) by (simp add: verdict_def)
    then show ?thesis
      using refused p b1 abort_refines [of "s\<lparr>sh_buffer := b1\<rparr>" s "KesExn (Exception ''Packet size exceeds limit'' [])" w]
      by (simp add: session_process_def session_spec_def Let_def cstr_def)
  next
    case nothing
    then show ?thesis
      using p b1 used s
      by (simp add: session_process_def session_spec_def verdict_def session_refines_def session_inv_def Let_def)
  next
    case more
    then show ?thesis using accepted_refines [OF s _ more(2) b1(1,2)] p b1 by simp
  qed
qed

text \<open>
  C2. A session refines its abstract specification, whose only state is the sequence of the bytes not
  yet delivered: for every chunk the answer, the effect on the rest of the server and the bytes kept
  are those of \<open>session_spec\<close>, and the counters and the buffer stay consistent with the bytes.
\<close>

theorem session_refinement:
  assumes "session_inv s" and "length data < 2 ^ 63"
  shows "session_refines s (session_process RP data s w)
    (session_spec RP (sh_id s) (sh_room s) (sh_bytes s) data w)"
  by (rule step_refines [OF assms])

section \<open>Messages in pieces\<close>

lemma run_waits:
  assumes "session_inv s" and "message (sh_bytes s @ concat cs @ d)" and "d \<noteq> []"
    and "length (sh_bytes s @ concat cs @ d) \<le> sh_room s" and "sh_room s < 2 ^ 63"
  shows "\<exists>s'. session_run RP (cs @ ds) s w =
      (case session_run RP ds s' w of (rs, st) \<Rightarrow> (replicate (length cs) (Ok (Continue, [])) @ rs, st)) \<and>
    session_inv s' \<and> sh_bytes s' = sh_bytes s @ concat cs \<and> sh_room s' = sh_room s \<and> sh_id s' = sh_id s"
  using assms
proof (induction cs arbitrary: s)
  case (Cons c cs)
  have c: "length c < 2 ^ 63" using Cons.prems(4,5) by simp
  have v: "verdict (sh_room s) (sh_bytes s) c = Wait"
    by (rule verdict_split_message [of _ _ "concat cs @ d"]) (use Cons.prems in simp_all)
  obtain r s1 w1 where p: "session_process RP c s w = (r, s1, w1)"
    by (cases "session_process RP c s w")
  have r: "r = Ok (Continue, [])" "w1 = w" "session_inv s1" "sh_bytes s1 = sh_bytes s @ c"
      "sh_room s1 = sh_room s" "sh_id s1 = sh_id s"
    using step_refines [OF Cons.prems(1) c, of RP w] v p by (auto simp: session_refines_def session_spec_def)
  obtain s' where "session_run RP (cs @ ds) s1 w =
      (case session_run RP ds s' w of (rs, st) \<Rightarrow> (replicate (length cs) (Ok (Continue, [])) @ rs, st))"
      "session_inv s'" "sh_bytes s' = sh_bytes s1 @ concat cs" "sh_room s' = sh_room s1" "sh_id s' = sh_id s1"
    using Cons.IH [OF r(3)] Cons.prems r by auto
  then show ?case using p r by (intro exI [of _ s']) (auto split: prod.split)
next
  case Nil
  then show ?case by (intro exI [of _ s]) simp
qed

lemma reassembled:
  assumes s: "session_inv s" "sh_bytes s = []" and m: "message m" "length m < sh_room s"
    and cs: "concat cs = m" "[] \<notin> set cs"
    and rp: "rpi_process RP (sh_id s) (cstr m) w = (Ok response, w')"
  shows "\<exists>s'. session_run RP cs s w =
      (replicate (length cs - 1) (Ok (Continue, [])) @ [Ok (Continue, response)], s', w') \<and>
    session_inv s' \<and> sh_bytes s' = [] \<and> sh_room s' = sh_room s \<and> sh_id s' = sh_id s"
proof -
  have "m \<noteq> []" using m(1) by (auto simp: message_def complete_def)
  then obtain ds d where ds: "cs = ds @ [d]" using cs(1) by (cases cs rule: rev_cases) auto
  then have d: "d \<noteq> []" "m = concat ds @ d" using cs by auto
  have room: "sh_room s < 2 ^ 63" using s(1) by (simp add: session_inv_def cb_inv_def)
  obtain s1 where s1: "session_run RP (ds @ [d]) s w =
        (case session_run RP [d] s1 w of (rs, st) \<Rightarrow> (replicate (length ds) (Ok (Continue, [])) @ rs, st))"
      "session_inv s1" "sh_bytes s1 = concat ds" "sh_room s1 = sh_room s" "sh_id s1 = sh_id s"
    using run_waits [OF s(1) _ d(1) _ room, of ds RP "[d]" w] s(2) m d(2) by auto
  have v: "verdict (sh_room s1) (sh_bytes s1) d = Deliver (cstr m)"
    using m d s1 by (auto simp: verdict_def message_def complete_def)
  have len: "length d < 2 ^ 63" using m(2) d(2) room by simp
  obtain r s2 w2 where p: "session_process RP d s1 w = (r, s2, w2)"
    by (cases "session_process RP d s1 w")
  have "r = Ok (Continue, response)" "w2 = w'" "session_inv s2" "sh_bytes s2 = []" "sh_room s2 = sh_room s1"
      "sh_id s2 = sh_id s1"
    using step_refines [OF s1(2) len, of RP w] v rp s1 p by (auto simp: session_refines_def session_spec_def)
  then show ?thesis using s1 p ds by (intro exI [of _ s2]) simp
qed

text \<open>
  C3. A message is put together from any division into chunks: however its bytes are cut, the pieces
  before the last one are answered with nothing, the processor is asked exactly once, with the whole
  text, the answer to the last piece is the processor's, and the session is empty again.
\<close>

theorem reassembly:
  assumes s: "session_inv s" "sh_bytes s = []" and m: "message m" "length m < sh_room s"
    and cs: "concat cs = m" "[] \<notin> set cs"
    and rp: "rpi_process RP (sh_id s) (cstr m) w = (Ok response, w')"
  shows "\<exists>s'. session_run RP cs s w =
      (replicate (length cs - 1) (Ok (Continue, [])) @ [Ok (Continue, response)], s', w') \<and>
    session_inv s' \<and> sh_bytes s' = [] \<and> sh_room s' = sh_room s \<and> sh_id s' = sh_id s"
  by (rule reassembled [OF assms])

text \<open>
  C29. A message that fills the buffer to the last byte and contains no NUL byte is handed to the
  processor without a terminator, because the result of appending it is ignored: the reader leaves
  the buffer. With the sizes of the server this is a message of exactly 65536 bytes.
\<close>

theorem full_buffer_overrun:
  assumes "session_inv s" and "complete (sh_bytes s @ data)" and "data \<noteq> []"
    and "length (sh_bytes s @ data) = sh_room s" and "NUL \<notin> set (sh_bytes s @ data)"
  shows "fst (session_process RP data s w) = UB"
proof -
  have "length data < 2 ^ 63"
    using assms(1,4) by (simp add: session_inv_def cb_inv_def)
  moreover have "verdict (sh_room s) (sh_bytes s) data = Overrun"
    using assms by (auto simp: verdict_def complete_def)
  ultimately show ?thesis
    using step_refines [OF assms(1), of data RP w] by (auto simp: session_refines_def session_spec_def)
qed

section \<open>Concrete sessions\<close>

definition echo :: "world request_processor" where
  "echo = \<lparr>rpi_process = (\<lambda>sid request w. (Ok request, w)), rpi_startSession = (\<lambda>sid w. w), rpi_endSession = (\<lambda>sid w. w)\<rparr>"

definition small_session :: "nat \<Rightarrow> session" where
  "small_session n = fst (SessionHandler echo \<lparr>sho_bufferSize = n, sho_bufferLimit = n\<rparr> [] 3 \<lparr>w_level = Info, w_log = []\<rparr>)"

lemma small_session: "n < 2 ^ 63 \<Longrightarrow> session_inv (small_session n) \<and> sh_bytes (small_session n) = [] \<and>
    sh_room (small_session n) = n \<and> sh_id (small_session n) = 3"
  using session_init_inv [of "\<lparr>sho_bufferSize = n, sho_bufferLimit = n\<rparr>" echo "[]" 3 "\<lparr>w_level = Info, w_log = []\<rparr>"]
  by (simp add: small_session_def SessionHandler_def ContinuousBuffer_def cb_room_def)

lemma session_refinement_witness:
  "session_refines (small_session 8) (session_process echo ''{}'' (small_session 8) \<lparr>w_level = Info, w_log = []\<rparr>)
     (session_spec echo 3 8 [] ''{}'' \<lparr>w_level = Info, w_log = []\<rparr>)"
  using session_refinement [of "small_session 8" "''{}''" echo "\<lparr>w_level = Info, w_log = []\<rparr>"] small_session [of 8]
  by simp

lemma message_braces: "message ''{{}}''"
  by (simp add: message_def complete_def All_less_Suc numeral_eq_Suc)

lemma reassembly_witness:
  "\<exists>s'. session_run echo [''{'', ''{}'', ''}''] (small_session 8) \<lparr>w_level = Info, w_log = []\<rparr> =
     (replicate 2 (Ok (Continue, [])) @ [Ok (Continue, ''{{}}'')], s', \<lparr>w_level = Info, w_log = []\<rparr>)"
proof -
  have s: "session_inv (small_session 8)" "sh_bytes (small_session 8) = []" "length ''{{}}'' < sh_room (small_session 8)"
    using small_session [of 8] by simp_all
  have c: "concat [''{'', ''{}'', ''}''] = ''{{}}''" "[] \<notin> set [''{'', ''{}'', ''}'']" by simp_all
  have e: "rpi_process echo (sh_id (small_session 8)) (cstr ''{{}}'') w = (Ok ''{{}}'', w)" for w
    by (simp add: echo_def)
  have "length [''{'', ''{}'', ''}''] - 1 = (2::nat)" by simp
  then show ?thesis
    using reassembly [OF s(1,2) message_braces s(3) c e] by metis
qed

lemma full_buffer_overrun_witness:
  "fst (session_process echo ''{ab}'' (small_session 4) \<lparr>w_level = Info, w_log = []\<rparr>) = UB"
  using full_buffer_overrun [of "small_session 4" "''{ab}''" echo "\<lparr>w_level = Info, w_log = []\<rparr>"] small_session [of 4]
  by (simp add: complete_def)

end
