(* ===== verification/Kes_Wire.thy ===== *)
theory Kes_Wire
  imports Kes_Framing Kes_Requests
begin

text \<open>
  The documents the program writes, seen by the brace counter of the other end: an object whose
  strings contain no brace is one message; a brace inside a string breaks the framing.
\<close>

section \<open>Nested texts\<close>

inductive nested :: "string \<Rightarrow> bool" where
  nested_Nil: "nested []"
| nested_Cons: "nested s \<Longrightarrow> c \<noteq> LBRACE \<Longrightarrow> c \<noteq> RBRACE \<Longrightarrow> nested (c # s)"
| nested_block: "nested s \<Longrightarrow> nested t \<Longrightarrow> nested (LBRACE # s @ RBRACE # t)"

inductive_cases nested_elims: "nested (c # s)"

lemma nested_append: "nested s \<Longrightarrow> nested t \<Longrightarrow> nested (s @ t)"
  by (induction s rule: nested.induct) (auto intro: nested.intros)

lemma nested_plain: "LBRACE \<notin> set s \<Longrightarrow> RBRACE \<notin> set s \<Longrightarrow> nested s"
  by (induction s) (auto intro: nested.intros)

lemma nested_balance: "nested s \<Longrightarrow> balance s d = Some d"
  by (induction s arbitrary: d rule: nested.induct) (auto simp: balance_append)

lemma nested_prefix: "nested s \<Longrightarrow> \<exists>e \<ge> d. balance (take i s) d = Some e"
proof (induction s arbitrary: d i rule: nested.induct)
  case (nested_Cons s c)
  then show ?case by (cases i) auto
next
  case (nested_block s t)
  show ?case
  proof (cases i)
    case (Suc j)
    show ?thesis
    proof (cases "j \<le> length s")
      case True
      then have "take i (LBRACE # s @ RBRACE # t) = LBRACE # take j s" using Suc by simp
      moreover obtain e where "e \<ge> Suc d" "balance (take j s) (Suc d) = Some e"
        using nested_block.IH(1) [of "Suc d" j] by blast
      ultimately show ?thesis by (intro exI [of _ e]) simp
    next
      case False
      then obtain k where "j = length s + Suc k" by (metis add_Suc_right less_iff_Suc_add not_le)
      then have "balance (take i (LBRACE # s @ RBRACE # t)) d = balance (take k t) d"
        using Suc nested_balance [OF nested_block.hyps(1)] by (simp add: balance_append)
      then show ?thesis using nested_block.IH(2) by simp
    qed
  qed simp
qed simp

lemma nested_message:
  assumes s: "nested s"
  shows "message (LBRACE # s @ [RBRACE])"
proof -
  have "\<not> complete (take i (LBRACE # s @ [RBRACE]))" if "i < length (LBRACE # s @ [RBRACE])" for i
  proof (cases i)
    case (Suc j)
    then have "take i (LBRACE # s @ [RBRACE]) = LBRACE # take j s" using that by simp
    moreover obtain e where "e \<ge> 1" "balance (take j s) 1 = Some e"
      using nested_prefix [OF s, of 1 j] by blast
    ultimately show ?thesis by (auto simp: complete_def)
  qed (simp add: complete_def)
  then show ?thesis
    using nested_balance [OF s, of 1] by (auto simp: message_def complete_def balance_append)
qed

section \<open>Documents without braces in their strings\<close>

definition plain :: "string \<Rightarrow> bool" where
  "plain s \<longleftrightarrow> LBRACE \<notin> set s \<and> RBRACE \<notin> set s"

fun brace_free :: "json \<Rightarrow> bool" where
  "brace_free (JStr s) \<longleftrightarrow> plain s"
| "brace_free (JArr js) \<longleftrightarrow> (\<forall>j \<in> set js. brace_free j)"
| "brace_free (JObj ms) \<longleftrightarrow> (\<forall>m \<in> set ms. plain (fst m) \<and> brace_free (snd m))"
| "brace_free _ \<longleftrightarrow> True"

lemma escape_plain: "plain escape"
  by (simp add: plain_def escape_def)

lemma hexDigits_plain: "k < 16 \<Longrightarrow> hexDigits ! k \<noteq> LBRACE \<and> hexDigits ! k \<noteq> RBRACE"
proof -
  assume "k < 16"
  then have "hexDigits ! k \<in> set hexDigits" by (intro nth_mem) (simp add: hexDigits_def)
  then show ?thesis by (auto simp: hexDigits_def)
qed

lemma write_char_plain:
  assumes "c \<noteq> LBRACE" and "c \<noteq> RBRACE"
  shows "plain (write_char c)"
proof -
  have "escape ! of_char c \<in> set escape"
    by (intro nth_mem) (simp add: escape_def)
  moreover have "hexDigits ! (of_char c div 16) \<noteq> LBRACE \<and> hexDigits ! (of_char c div 16) \<noteq> RBRACE"
    "hexDigits ! (of_char c mod 16) \<noteq> LBRACE \<and> hexDigits ! (of_char c mod 16) \<noteq> RBRACE"
    by (rule hexDigits_plain, simp add: div_less_iff_less_mult)+
  ultimately show ?thesis
    using assms escape_plain by (auto simp: write_char_def Let_def plain_def)
qed

lemma WriteString_plain: "plain s \<Longrightarrow> plain (WriteString s)"
proof -
  assume s: "plain s"
  have "plain (write_char c)" if "c \<in> set s" for c
    using write_char_plain [of c] s that by (auto simp: plain_def)
  then show ?thesis by (auto simp: WriteString_def plain_def)
qed

lemma digit_char_plain: "d < 10 \<Longrightarrow> digit_char d \<noteq> LBRACE" "d < 10 \<Longrightarrow> digit_char d \<noteq> RBRACE"
  by (simp_all add: digit_char_def char_of_eq_iff take_bit_eq_mod)

lemma show_nat_plain: "plain (show_nat n)"
  by (induction n rule: show_nat.induct)
    (subst show_nat.simps, auto simp: plain_def digit_char_plain digit_char_plain [symmetric])

lemma show_int_plain: "plain (show_int i)"
  using show_nat_plain by (simp add: show_int_def plain_def)

lemma nested_of_plain: "plain s \<Longrightarrow> nested s"
  by (simp add: plain_def nested_plain)

lemma nested_commas: "\<forall>s \<in> set ss. nested s \<Longrightarrow> nested (commas ss)"
  by (induction ss rule: commas.induct) (auto intro!: nested_append intro: nested.intros)

lemma nested_member: "plain k \<Longrightarrow> nested v \<Longrightarrow> nested (WriteString k @ '':'' @ v)"
  using nested_append [OF nested_of_plain [OF WriteString_plain] nested_Cons [of v "CHR '':''"]] by simp

lemma brace_free_nested:
  assumes "\<And>d. plain (dtoa d)"
  shows "brace_free j \<Longrightarrow> nested (render dtoa j)"
  using assms
proof (induction dtoa j rule: render.induct)
  case (6 dtoa js)
  then have "nested (commas (map (render dtoa) js))" by (intro nested_commas) auto
  then show ?case by (auto intro!: nested_append nested_Cons intro: nested.intros)
next
  case (7 dtoa ms)
  have "nested (WriteString (fst m) @ '':'' @ render dtoa (snd m))" if "m \<in> set ms" for m
  proof (rule nested_member)
    show "plain (fst m)" using 7(2) that by simp
    show "nested (render dtoa (snd m))" using 7 that by (cases m) auto
  qed
  then have "nested (commas (map (\<lambda>m. WriteString (fst m) @ '':'' @ render dtoa (snd m)) ms))"
    by (intro nested_commas) auto
  then show ?case using nested_block nested_Nil by simp
qed (simp_all add: nested_of_plain show_int_plain WriteString_plain plain_def [of "''null''"]
    plain_def [of "''true''"] plain_def [of "''false''"])

lemma object_message:
  assumes "\<And>d. plain (dtoa d)" and "brace_free (JObj ms)"
  shows "message (render dtoa (JObj ms))"
proof -
  have "nested (WriteString (fst m) @ '':'' @ render dtoa (snd m))" if "m \<in> set ms" for m
    using assms that brace_free_nested [of dtoa "snd m"] by (intro nested_member) auto
  then have "nested (commas (map (\<lambda>m. WriteString (fst m) @ '':'' @ render dtoa (snd m)) ms))"
    by (intro nested_commas) auto
  then show ?thesis using nested_message by simp
qed

lemma simple_message: "plain (cstr command) \<Longrightarrow> message (simple rid command)"
  unfolding simple_text request_json_def by (rule object_message) (simp_all add: plain_def)



section \<open>Braces inside strings\<close>

lemma write_char_brace: "write_char LBRACE = [LBRACE]" "write_char RBRACE = [RBRACE]"
  by (simp_all add: write_char_def escape_def nth_append)

lemma write_chars_plain: "plain s \<Longrightarrow> nested (concat (map write_char s))"
  using WriteString_plain [of s] by (intro nested_of_plain) (auto simp: WriteString_def plain_def)

lemma simple_shape:
  assumes "cstr command = u @ c # v"
  shows "\<exists>t. nested t \<and> simple rid command =
    LBRACE # t @ concat (map write_char u) @ write_char c @ concat (map write_char v) @ [CHR 0x22, RBRACE]"
proof -
  let ?t = "WriteString ''request.id'' @ '':'' @ show_int (sint rid) @ '','' @ WriteString ''request.request'' @
    '':'' @ [CHR 0x22]"
  have "nested ?t"
    by (intro nested_append nested_of_plain WriteString_plain show_int_plain) (simp_all add: plain_def)
  moreover have "simple rid command =
      LBRACE # ?t @ concat (map write_char u) @ write_char c @ concat (map write_char v) @ [CHR 0x22, RBRACE]"
    by (simp add: simple_text request_json_def assms WriteString_def [of "u @ c # v"])
  ultimately show ?thesis by blast
qed



end
