(* ===== verification/Kes_JsonStream.thy ===== *)
theory Kes_JsonStream
  imports Kes_Json
begin

text \<open>
  Reading JSON, the characters: the in-situ stream (\<^verbatim>\<open>rapidjson/stream.h\<close>), the errors
  (\<^verbatim>\<open>error/error.h\<close>, \<^verbatim>\<open>error/en.h\<close>), white space and strings (\<^verbatim>\<open>reader.h\<close>). The reader decodes
  a string into the text it reads it from, behind its own position; the memory is explicit here, and
  \<open>jr_step\<close> says what a piece of the reader may do to it: it moves forward, stays in front of the
  terminator of the text, and touches neither what was read before it started nor what is still to be read.
\<close>

section \<open>Errors\<close>

datatype parse_error =
    DocumentEmpty | DocumentRootNotSingular | ValueInvalid
  | ObjectMissName | ObjectMissColon | ObjectMissCommaOrCurlyBracket
  | ArrayMissCommaOrSquareBracket
  | StringUnicodeEscapeInvalidHex | StringUnicodeSurrogateInvalid | StringEscapeInvalid
  | StringMissQuotationMark | StringInvalidEncoding
  | NumberTooBig | NumberMissFraction | NumberMissExponent

fun GetParseError_En :: "parse_error \<Rightarrow> string" where
  "GetParseError_En DocumentEmpty = ''The document is empty.''"
| "GetParseError_En DocumentRootNotSingular = ''The document root must not be followed by other values.''"
| "GetParseError_En ValueInvalid = ''Invalid value.''"
| "GetParseError_En ObjectMissName = ''Missing a name for object member.''"
| "GetParseError_En ObjectMissColon = ''Missing a colon after a name of object member.''"
| "GetParseError_En ObjectMissCommaOrCurlyBracket =
     ''Missing a comma or '' @ quoted ''}'' @ '' after an object member.''"
| "GetParseError_En ArrayMissCommaOrSquareBracket =
     ''Missing a comma or '' @ quoted '']'' @ '' after an array element.''"
| "GetParseError_En StringUnicodeEscapeInvalidHex =
     ''Incorrect hex digit after '' @ [CHR 0x5C] @ ''u escape in string.''"
| "GetParseError_En StringUnicodeSurrogateInvalid = ''The surrogate pair in string is invalid.''"
| "GetParseError_En StringEscapeInvalid = ''Invalid escape character in string.''"
| "GetParseError_En StringMissQuotationMark = ''Missing a closing quotation mark in string.''"
| "GetParseError_En StringInvalidEncoding = ''Invalid encoding in string.''"
| "GetParseError_En NumberTooBig = ''Number too big to be stored in double.''"
| "GetParseError_En NumberMissFraction = ''Miss fraction part in number.''"
| "GetParseError_En NumberMissExponent = ''Miss exponent in number.''"

text \<open>How a part of the reader fails: with an error at an offset, or because the model ran out of fuel.\<close>

datatype failure = Failed parse_error nat | OutOfFuel

section \<open>The stream\<close>

text \<open>
  A value under construction; a string is a pointer into the text and a length. The stack holds the
  values of the open arrays and objects, the last one first.
\<close>

datatype node =
    NNull
  | NBool bool
  | NInt int
  | NDouble u64
  | NStr nat nat
  | NArr "node list"
  | NObj "(node \<times> node) list"

record reader =
  jr_mem :: string
  jr_src :: nat
  jr_dst :: nat
  jr_stack :: "node list"

type_synonym 'a parsed = "(failure + 'a) \<times> reader"

definition pbind :: "'a parsed \<Rightarrow> ('a \<Rightarrow> reader \<Rightarrow> 'b parsed) \<Rightarrow> 'b parsed" where
  "pbind m f = (case m of (Inl e, s) \<Rightarrow> (Inl e, s) | (Inr a, s) \<Rightarrow> f a s)"

text \<open>Behind the memory the model reads zeros; the reader is shown never to look there.\<close>

definition jr_Peek :: "reader \<Rightarrow> char" where
  "jr_Peek s = (if jr_src s < length (jr_mem s) then jr_mem s ! jr_src s else NUL)"

definition jr_Take :: "reader \<Rightarrow> reader" where
  "jr_Take s = s\<lparr>jr_src := Suc (jr_src s)\<rparr>"

definition jr_Put :: "char \<Rightarrow> reader \<Rightarrow> reader" where
  "jr_Put c s = s\<lparr>jr_mem := (jr_mem s)[jr_dst s := c], jr_dst := Suc (jr_dst s)\<rparr>"

definition PutBegin :: "reader \<Rightarrow> reader" where
  "PutBegin s = s\<lparr>jr_dst := jr_src s\<rparr>"

definition Consume :: "char \<Rightarrow> reader \<Rightarrow> bool \<times> reader" where
  "Consume c s = (if jr_Peek s = c then (True, jr_Take s) else (False, s))"

text \<open>The characters of a literal after its first one.\<close>

fun Consume_all :: "string \<Rightarrow> reader \<Rightarrow> bool \<times> reader" where
  "Consume_all [] s = (True, s)"
| "Consume_all (c # cs) s = (case Consume c s of (True, s) \<Rightarrow> Consume_all cs s | (False, s) \<Rightarrow> (False, s))"

definition parse_fail :: "parse_error \<Rightarrow> nat \<Rightarrow> reader \<Rightarrow> 'a parsed" where
  "parse_fail e offset s = (Inl (Failed e offset), s)"

lemma stream_fields [simp]:
  "jr_mem (jr_Take s) = jr_mem s" "jr_src (jr_Take s) = Suc (jr_src s)" "jr_dst (jr_Take s) = jr_dst s"
  "jr_stack (jr_Take s) = jr_stack s"
  "jr_mem (jr_Put c s) = (jr_mem s)[jr_dst s := c]" "jr_src (jr_Put c s) = jr_src s" "jr_dst (jr_Put c s) = Suc (jr_dst s)"
  "jr_stack (jr_Put c s) = jr_stack s"
  "jr_mem (PutBegin s) = jr_mem s" "jr_src (PutBegin s) = jr_src s" "jr_dst (PutBegin s) = jr_src s"
  "jr_stack (PutBegin s) = jr_stack s"
  by (simp_all add: jr_Take_def jr_Put_def PutBegin_def)

text \<open>What is left to read, the measure of every loop.\<close>

definition left :: "reader \<Rightarrow> nat" where
  "left s = length (jr_mem s) - jr_src s"

lemma left_Take: "jr_Peek s \<noteq> NUL \<Longrightarrow> left (jr_Take s) < left s"
  by (auto simp: left_def jr_Peek_def split: if_splits)

lemma left_Put [simp]: "left (jr_Put c s) = left s"
  by (simp add: left_def)

section \<open>White space\<close>

definition is_ws :: "char \<Rightarrow> bool" where
  "is_ws c \<longleftrightarrow> c = CHR '' '' \<or> c = CHR 0x0A \<or> c = CHR 0x0D \<or> c = CHR 0x09"

function SkipWhitespace :: "reader \<Rightarrow> reader" where
  "SkipWhitespace s = (if is_ws (jr_Peek s) then SkipWhitespace (jr_Take s) else s)"
  by pat_completeness auto
termination
proof (relation "measure left")
  show "is_ws (jr_Peek s) \<Longrightarrow> (jr_Take s, s) \<in> measure left" for s
    using left_Take [of s] by (auto simp: is_ws_def)
qed simp

declare SkipWhitespace.simps [simp del]

section \<open>Strings\<close>

definition hex_val :: "char \<Rightarrow> nat option" where
  "hex_val c =
     (let n = of_char c :: nat in
      if 48 \<le> n \<and> n \<le> 57 then Some (n - 48)
      else if 65 \<le> n \<and> n \<le> 70 then Some (n - 55)
      else if 97 \<le> n \<and> n \<le> 102 then Some (n - 87)
      else None)"

fun ParseHex_digits :: "nat \<Rightarrow> nat \<Rightarrow> nat \<Rightarrow> reader \<Rightarrow> nat parsed" where
  "ParseHex_digits 0 codepoint escapeOffset s = (Inr codepoint, s)"
| "ParseHex_digits (Suc i) codepoint escapeOffset s =
     (case hex_val (jr_Peek s) of
        None \<Rightarrow> parse_fail StringUnicodeEscapeInvalidHex escapeOffset s
      | Some v \<Rightarrow> ParseHex_digits i (codepoint * 16 + v) escapeOffset (jr_Take s))"

definition ParseHex4 :: "nat \<Rightarrow> reader \<Rightarrow> nat parsed" where
  "ParseHex4 escapeOffset s = ParseHex_digits 4 0 escapeOffset s"

text \<open>\<^verbatim>\<open>UTF8::Encode\<close>\<close>

definition utf8 :: "nat \<Rightarrow> string" where
  "utf8 codepoint =
     (if codepoint \<le> 0x7F then [char_of codepoint]
      else if codepoint \<le> 0x7FF then
        [char_of (0xC0 + codepoint div 64), char_of (0x80 + codepoint mod 64)]
      else if codepoint \<le> 0xFFFF then
        [char_of (0xE0 + codepoint div 4096), char_of (0x80 + codepoint div 64 mod 64), char_of (0x80 + codepoint mod 64)]
      else
        [char_of (0xF0 + codepoint div 262144), char_of (0x80 + codepoint div 4096 mod 64),
         char_of (0x80 + codepoint div 64 mod 64), char_of (0x80 + codepoint mod 64)])"

definition utf8_Encode :: "nat \<Rightarrow> reader \<Rightarrow> reader" where
  "utf8_Encode codepoint s = fold jr_Put (utf8 codepoint) s"

text \<open>A \<^verbatim>\<open>\u\<close> escape after its letter: a code unit, or a surrogate pair.\<close>

definition ParseUnicode :: "nat \<Rightarrow> reader \<Rightarrow> nat parsed" where
  "ParseUnicode escapeOffset s =
     pbind (ParseHex4 escapeOffset s) (\<lambda>codepoint s.
       if 0xD800 \<le> codepoint \<and> codepoint \<le> 0xDFFF then
         if codepoint \<le> 0xDBFF then
           (case Consume_all [CHR 0x5C, CHR ''u''] s of
              (False, s) \<Rightarrow> parse_fail StringUnicodeSurrogateInvalid escapeOffset s
            | (True, s) \<Rightarrow>
                pbind (ParseHex4 escapeOffset s) (\<lambda>codepoint2 s.
                  if codepoint2 < 0xDC00 \<or> codepoint2 > 0xDFFF
                  then parse_fail StringUnicodeSurrogateInvalid escapeOffset s
                  else (Inr ((codepoint - 0xD800) * 1024 + (codepoint2 - 0xDC00) + 0x10000), s)))
         else parse_fail StringUnicodeSurrogateInvalid escapeOffset s
       else (Inr codepoint, s))"

text \<open>The table of the simple escapes.\<close>

definition unescape :: "char \<Rightarrow> char option" where
  "unescape e =
     (if e = CHR 0x22 \<or> e = CHR ''/'' \<or> e = CHR 0x5C then Some e
      else if e = CHR ''b'' then Some (CHR 0x08) else if e = CHR ''f'' then Some (CHR 0x0C)
      else if e = CHR ''n'' then Some (CHR 0x0A) else if e = CHR ''r'' then Some (CHR 0x0D)
      else if e = CHR ''t'' then Some (CHR 0x09) else None)"

section \<open>What the reader does to the text\<close>

text \<open>The text ends with a terminator, the reader stands on or before it, the writer not ahead of the reader.\<close>

definition jr_inv :: "reader \<Rightarrow> bool" where
  "jr_inv s \<longleftrightarrow> jr_src s < length (jr_mem s) \<and> last (jr_mem s) = NUL \<and> jr_dst s \<le> jr_src s"

text \<open>\<open>k\<close> is the position before which the text is left alone.\<close>

definition jr_step :: "nat \<Rightarrow> reader \<Rightarrow> reader \<Rightarrow> bool" where
  "jr_step k s t \<longleftrightarrow>
     length (jr_mem t) = length (jr_mem s) \<and> jr_src s \<le> jr_src t \<and> jr_inv t \<and>
     drop (jr_src t) (jr_mem t) = drop (jr_src t) (jr_mem s) \<and> take k (jr_mem t) = take k (jr_mem s)"

lemma jr_step_refl: "jr_inv s \<Longrightarrow> jr_step k s s"
  by (simp add: jr_step_def)

lemma drop_agree: "drop m xs = drop m ys \<Longrightarrow> m \<le> n \<Longrightarrow> drop n xs = drop n ys"
  by (metis drop_drop le_add_diff_inverse2)

lemma take_agree: "take m xs = take m ys \<Longrightarrow> n \<le> m \<Longrightarrow> take n xs = take n ys"
  by (metis min.absorb1 take_take)

lemma jr_step_trans:
  assumes a: "jr_step k s t" and b: "jr_step l t u" and "k \<le> l"
  shows "jr_step k s u"
  using assms drop_agree [of "jr_src t" "jr_mem t" "jr_mem s" "jr_src u"] take_agree [of l "jr_mem u" "jr_mem t" k]
  by (simp add: jr_step_def)

lemma jr_step_trans1: "jr_step k s t \<Longrightarrow> jr_step k t u \<Longrightarrow> jr_step k s u"
  by (rule jr_step_trans [OF _ _ order_refl])

lemma jr_step_weaken: "jr_step k s t \<Longrightarrow> l \<le> k \<Longrightarrow> jr_step l s t"
  using take_agree [of k "jr_mem t" "jr_mem s" l] by (simp add: jr_step_def)

lemma jr_stepD:
  "jr_step k s t \<Longrightarrow> jr_inv t" "jr_step k s t \<Longrightarrow> jr_src s \<le> jr_src t"
  "jr_step k s t \<Longrightarrow> length (jr_mem t) = length (jr_mem s)"
  by (simp_all add: jr_step_def)

lemma jr_step_left: "jr_step k s t \<Longrightarrow> left t \<le> left s"
  by (simp add: jr_step_def left_def diff_le_mono2)

lemma inv_stack [simp]: "jr_inv (s\<lparr>jr_stack := x\<rparr>) = jr_inv s" "left (s\<lparr>jr_stack := x\<rparr>) = left s"
  by (simp_all add: jr_inv_def left_def)

lemma step_stack [simp]:
  "jr_step k s (t\<lparr>jr_stack := x\<rparr>) = jr_step k s t" "jr_step k (s\<lparr>jr_stack := x\<rparr>) t = jr_step k s t"
  by (simp_all add: jr_step_def)

lemma Peek_stack [simp]: "jr_Peek (s\<lparr>jr_stack := x\<rparr>) = jr_Peek s"
  by (simp add: jr_Peek_def)

text \<open>A character that is not the terminator can be taken.\<close>

lemma Peek_before: "jr_inv s \<Longrightarrow> jr_Peek s \<noteq> NUL \<Longrightarrow> Suc (jr_src s) < length (jr_mem s)"
proof -
  assume s: "jr_inv s" "jr_Peek s \<noteq> NUL"
  then have "jr_mem s ! (length (jr_mem s) - 1) = NUL" by (metis jr_inv_def last_conv_nth list.size(3) not_less0)
  then have "jr_src s \<noteq> length (jr_mem s) - 1" using s by (auto simp: jr_Peek_def jr_inv_def)
  then show ?thesis using s(1) unfolding jr_inv_def by linarith
qed

lemma Take_step: "jr_inv s \<Longrightarrow> jr_Peek s \<noteq> NUL \<Longrightarrow> jr_step k s (jr_Take s)"
  using Peek_before [of s] by (simp add: jr_step_def jr_inv_def)

text \<open>Writing behind the reader.\<close>

lemma Put_step:
  assumes "jr_inv s" and "jr_dst s < jr_src s" and "k \<le> jr_dst s"
  shows "jr_step k s (jr_Put c s)"
proof -
  have "last ((jr_mem s)[jr_dst s := c]) = NUL"
    using assms by (cases "jr_mem s = []") (auto simp: jr_inv_def last_list_update)
  then show ?thesis using assms by (simp add: jr_step_def jr_inv_def)
qed

lemma PutBegin_step: "jr_inv s \<Longrightarrow> jr_step k s (PutBegin s)"
  by (simp add: jr_step_def jr_inv_def)

lemma Consume_cases:
  assumes "Consume c s = (b, t)"
  shows "b \<and> jr_Peek s = c \<and> t = jr_Take s \<or> \<not> b \<and> jr_Peek s \<noteq> c \<and> t = s"
  using assms by (auto simp: Consume_def split: if_splits)

lemma Consume_step: "jr_inv s \<Longrightarrow> c \<noteq> NUL \<Longrightarrow> Consume c s = (b, t) \<Longrightarrow> jr_step k s t"
  using Consume_cases [of c s b t] Take_step [of s k] jr_step_refl [of s k] by auto

lemma Consume_all_step: "jr_inv s \<Longrightarrow> NUL \<notin> set cs \<Longrightarrow> Consume_all cs s = (b, t) \<Longrightarrow> jr_step k s t \<and> jr_dst t = jr_dst s \<and>
    (b \<longrightarrow> jr_src t = jr_src s + length cs)"
proof (induction cs arbitrary: s)
  case Nil
  then show ?case by (simp add: jr_step_refl)
next
  case (Cons c cs)
  show ?case
  proof (cases "jr_Peek s = c")
    case True
    then have t: "jr_step k s (jr_Take s)" using Cons.prems by (intro Take_step) auto
    have "Consume_all cs (jr_Take s) = (b, t)" using Cons.prems(3) True by (simp add: Consume_def)
    with Cons.IH [OF jr_stepD(1) [OF t]] Cons.prems(2) jr_step_trans1 [OF t] show ?thesis by simp
  next
    case False
    then show ?thesis using Cons.prems by (auto simp: Consume_def jr_step_refl)
  qed
qed

lemma SkipWhitespace_step: "jr_inv s \<Longrightarrow> jr_step k s (SkipWhitespace s) \<and> jr_stack (SkipWhitespace s) = jr_stack s \<and> jr_dst (SkipWhitespace s) = jr_dst s"
proof (induction s rule: SkipWhitespace.induct)
  case (1 s)
  show ?case
  proof (cases "is_ws (jr_Peek s)")
    case True
    then have n: "jr_Peek s \<noteq> NUL" by (auto simp: is_ws_def)
    have t: "jr_step k s (jr_Take s)" by (rule Take_step [OF 1(2) n])
    then show ?thesis
      using 1(1) [OF True jr_stepD(1) [OF t]] jr_step_trans1 [OF t] True by (simp add: SkipWhitespace.simps [of s])
  next
    case False
    then show ?thesis using 1(2) by (simp add: SkipWhitespace.simps [of s] jr_step_refl)
  qed
qed

section \<open>Reading a string\<close>

lemma hex_val_NUL [simp]: "hex_val NUL = None"
  by (simp add: hex_val_def)

text \<open>What a part of a string that only reads keeps.\<close>

definition reads :: "reader \<Rightarrow> reader \<Rightarrow> bool" where
  "reads s t \<longleftrightarrow> jr_mem t = jr_mem s \<and> jr_dst t = jr_dst s \<and> jr_stack t = jr_stack s \<and> jr_src s \<le> jr_src t \<and>
     (jr_inv s \<longrightarrow> jr_inv t)"

lemma reads_refl: "reads s s"
  by (simp add: reads_def)

lemma reads_trans: "reads s t \<Longrightarrow> reads t u \<Longrightarrow> reads s u"
  by (auto simp: reads_def)

lemma reads_Take: "jr_Peek s \<noteq> NUL \<Longrightarrow> reads s (jr_Take s)"
  using Peek_before [of s] by (auto simp: reads_def jr_inv_def)

lemma reads_step: "reads s t \<Longrightarrow> jr_inv s \<Longrightarrow> jr_step k s t"
  by (simp add: reads_def jr_step_def)

lemma reads_left: "reads s t \<Longrightarrow> left t \<le> left s"
  by (simp add: reads_def left_def diff_le_mono2)

lemma reads_Consume_all: "NUL \<notin> set cs \<Longrightarrow> Consume_all cs s = (b, t) \<Longrightarrow> reads s t"
proof (induction cs arbitrary: s)
  case (Cons c cs)
  show ?case
  proof (cases "jr_Peek s = c")
    case True
    then have "reads s (jr_Take s)" using Cons.prems by (intro reads_Take) auto
    moreover have "reads (jr_Take s) t" using Cons True by (simp add: Consume_def)
    ultimately show ?thesis by (rule reads_trans)
  next
    case False
    then show ?thesis using Cons.prems by (auto simp: Consume_def reads_refl)
  qed
qed (simp add: reads_refl)

lemma reads_hex: "ParseHex_digits i cp off s = (r, t) \<Longrightarrow> reads s t \<and> (isl r \<or> jr_src t = jr_src s + i)"
proof (induction i arbitrary: cp s)
  case (Suc i)
  show ?case
  proof (cases "hex_val (jr_Peek s)")
    case None
    then show ?thesis using Suc.prems by (auto simp: parse_fail_def reads_refl)
  next
    case (Some v)
    then have "reads s (jr_Take s)" by (intro reads_Take) auto
    then show ?thesis using Suc.IH Suc.prems Some reads_trans by fastforce
  qed
qed (auto simp: reads_refl)

lemma reads_unicode: "ParseUnicode off s = (r, t) \<Longrightarrow> reads s t \<and> (isl r \<or> jr_src s + 4 \<le> jr_src t)"
proof -
  assume r: "ParseUnicode off s = (r, t)"
  obtain a u where u: "ParseHex_digits 4 0 off s = (a, u)" by (cases "ParseHex_digits 4 0 off s")
  obtain b v where v: "Consume_all [CHR 0x5C, CHR ''u''] u = (b, v)" by (cases "Consume_all [CHR 0x5C, CHR ''u''] u")
  obtain c w where w: "ParseHex_digits 4 0 off v = (c, w)" by (cases "ParseHex_digits 4 0 off v")
  have su: "reads s u" "isl a \<or> jr_src u = jr_src s + 4" using reads_hex [OF u] by auto
  have uv: "reads u v" using reads_Consume_all [OF _ v] by simp
  have vw: "reads v w" using reads_hex [OF w] by simp
  have t: "t = u \<or> t = v \<or> t = w" "isl a \<longrightarrow> isl r"
    using r u v w
    by (auto simp: ParseUnicode_def pbind_def ParseHex4_def parse_fail_def simp del: Consume_all.simps
        split: sum.splits if_splits bool.splits prod.splits)
  have sv: "reads s v" by (rule reads_trans [OF su(1) uv])
  have sw: "reads s w" by (rule reads_trans [OF sv vw])
  have "jr_src u \<le> jr_src v" "jr_src v \<le> jr_src w" using uv vw by (simp_all add: reads_def)
  then have "isl a \<or> jr_src s + 4 \<le> jr_src t" using t su(2) by auto
  then show ?thesis using t su(1) sv sw by blast
qed

lemma left_Encode [simp]: "left (utf8_Encode cp s) = left s"
proof -
  have "left (fold jr_Put cs s) = left s" for cs by (induction cs arbitrary: s) simp_all
  then show ?thesis by (simp add: utf8_Encode_def)
qed

lemma left_escape: "jr_Peek s = CHR 0x5C \<Longrightarrow> left (jr_Take (jr_Take s)) < left s"
proof -
  assume "jr_Peek s = CHR 0x5C"
  then have "left (jr_Take s) < left s" by (intro left_Take) simp
  moreover have "left (jr_Take (jr_Take s)) \<le> left (jr_Take s)" by (simp add: left_def)
  ultimately show ?thesis by simp
qed

lemma left_unicode: "jr_Peek s = CHR 0x5C \<Longrightarrow> (r, v) = ParseUnicode off (jr_Take (jr_Take s)) \<Longrightarrow> left v < left s"
  using left_escape [of s] reads_left [of "jr_Take (jr_Take s)" v] reads_unicode [of off "jr_Take (jr_Take s)" r v] by simp

text \<open>\<^verbatim>\<open>ParseStringToStream\<close> behind the opening quotation mark\<close>

function ParseStringToStream :: "reader \<Rightarrow> unit parsed" where
  "ParseStringToStream s =
     (let c = jr_Peek s in
      if c = CHR 0x5C then
        (let escapeOffset = jr_src s; t = jr_Take s; e = jr_Peek t in
         case unescape e of
           Some u \<Rightarrow> ParseStringToStream (jr_Put u (jr_Take t))
         | None \<Rightarrow>
             if e = CHR ''u'' then
               (case ParseUnicode escapeOffset (jr_Take t) of
                  (Inl f, v) \<Rightarrow> (Inl f, v)
                | (Inr codepoint, v) \<Rightarrow> ParseStringToStream (utf8_Encode codepoint v))
             else parse_fail StringEscapeInvalid escapeOffset t)
      else if c = CHR 0x22 then (Inr (), jr_Put NUL (jr_Take s))
      else if (of_char c :: nat) < 0x20 then
        parse_fail (if c = NUL then StringMissQuotationMark else StringInvalidEncoding) (jr_src s) s
      else ParseStringToStream (jr_Put c (jr_Take s)))"
  by pat_completeness auto
termination
  by (relation "measure left") (auto intro: left_escape left_unicode left_Take [OF _] simp del: One_nat_def)

declare ParseStringToStream.simps [simp del]

lemma unescape_NUL [simp]: "unescape NUL = None"
  by (simp add: unescape_def)

lemma Puts_step:
  "jr_inv s \<Longrightarrow> jr_dst s + length cs \<le> jr_src s \<Longrightarrow> k \<le> jr_dst s \<Longrightarrow>
     jr_step k s (fold jr_Put cs s) \<and> jr_stack (fold jr_Put cs s) = jr_stack s \<and>
     jr_src (fold jr_Put cs s) = jr_src s \<and> jr_dst (fold jr_Put cs s) = jr_dst s + length cs"
proof (induction cs arbitrary: s)
  case (Cons c cs)
  have p: "jr_step k s (jr_Put c s)" using Cons.prems by (intro Put_step) simp_all
  then show ?case using Cons.IH [of "jr_Put c s"] Cons.prems jr_stepD(1) [OF p] jr_step_trans1 [OF p] by simp
qed (simp add: jr_step_refl)

lemma utf8_length: "length (utf8 cp) \<le> 4"
  by (simp add: utf8_def)

text \<open>What every string keeps, well-formed or not.\<close>

text \<open>
  What one round of the loop writes stays behind what it read: an escaped character, the bytes of a
  code point, a plain character.
\<close>

definition round_ok :: "nat \<Rightarrow> reader \<Rightarrow> reader \<Rightarrow> bool" where
  "round_ok k s t \<longleftrightarrow> jr_step k s t \<and> jr_stack t = jr_stack s \<and> jr_dst s \<le> jr_dst t"

lemma escape_round:
  assumes "jr_inv s" and "k \<le> jr_dst s" and "jr_Peek s = CHR 0x5C" and "unescape (jr_Peek (jr_Take s)) = Some u"
  shows "round_ok k s (jr_Put u (jr_Take (jr_Take s)))"
proof -
  let ?t = "jr_Take s" and ?u = "jr_Take (jr_Take s)"
  have t: "reads s ?t" using assms(3) by (intro reads_Take) simp
  have "jr_Peek ?t \<noteq> NUL" using assms(4) by (metis unescape_NUL option.distinct(1))
  then have u: "reads s ?u" using reads_trans [OF t reads_Take [of ?t]] by simp
  then have iu: "jr_inv ?u" using assms(1) by (simp add: reads_def)
  have "jr_dst s \<le> jr_src s" using assms(1) by (simp add: jr_inv_def)
  then have "jr_step k ?u (jr_Put u ?u)" using assms(2) by (intro Put_step [OF iu]) simp_all
  then show ?thesis using jr_step_trans1 [OF reads_step [OF u assms(1)]] by (simp add: round_ok_def)
qed

lemma unicode_round:
  assumes "jr_inv s" and "k \<le> jr_dst s" and "jr_Peek s = CHR 0x5C" and "jr_Peek (jr_Take s) = CHR ''u''"
    and "ParseUnicode (jr_src s) (jr_Take (jr_Take s)) = (a, v)"
  shows "reads s v" "a = Inr cp \<Longrightarrow> round_ok k s (utf8_Encode cp v)"
proof -
  let ?t = "jr_Take s"
  have "reads s ?t" using assms(3) by (intro reads_Take) simp
  then have u: "reads s (jr_Take ?t)" using reads_trans [OF _ reads_Take [of ?t]] assms(4) by simp
  have sv: "reads s v" "isl a \<or> jr_src s + 6 \<le> jr_src v"
    using reads_trans [OF u] reads_unicode [OF assms(5)] by auto
  then show "reads s v" by blast
  assume cp: "a = Inr cp"
  have iv: "jr_inv v" "jr_dst v = jr_dst s" "jr_stack v = jr_stack s" using sv(1) assms(1) by (simp_all add: reads_def)
  have "jr_dst s \<le> jr_src s" using assms(1) by (simp add: jr_inv_def)
  then have "jr_step k v (utf8_Encode cp v)" "jr_stack (utf8_Encode cp v) = jr_stack v" "jr_dst s \<le> jr_dst (utf8_Encode cp v)"
    using Puts_step [OF iv(1), of "utf8 cp" k] utf8_length [of cp] sv(2) cp iv(2) assms(2) by (simp_all add: utf8_Encode_def)
  then show "round_ok k s (utf8_Encode cp v)"
    using jr_step_trans1 [OF reads_step [OF sv(1) assms(1)]] iv(3) by (simp add: round_ok_def)
qed

lemma plain_round:
  assumes "jr_inv s" and "k \<le> jr_dst s" and "jr_Peek s \<noteq> NUL"
  shows "round_ok k s (jr_Put c (jr_Take s))"
proof -
  have s: "jr_step k s (jr_Take s)" using assms(1,3) by (rule Take_step)
  have "jr_step k (jr_Take s) (jr_Put c (jr_Take s))"
    using jr_stepD(1) [OF s] assms(1,2) by (intro Put_step) (auto simp: jr_inv_def)
  then show ?thesis using jr_step_trans1 [OF s] by (simp add: round_ok_def)
qed

lemma string_step:
  "jr_inv s \<Longrightarrow> k \<le> jr_dst s \<Longrightarrow> ParseStringToStream s = (r, t) \<Longrightarrow>
     jr_step k s t \<and> jr_stack t = jr_stack s \<and> (isl r \<or> jr_dst s < jr_dst t \<and> jr_src s < jr_src t)"
proof (induction s arbitrary: k rule: ParseStringToStream.induct)
  case (1 s)
  let ?c = "jr_Peek s" and ?t = "jr_Take s"
  let ?e = "jr_Peek ?t"
  note run = 1(6) [unfolded ParseStringToStream.simps [of s] Let_def]
  have rest: ?case if "round_ok k s u" and "jr_inv u \<Longrightarrow> k \<le> jr_dst u \<Longrightarrow>
      jr_step k u t \<and> jr_stack t = jr_stack u \<and> (isl r \<or> jr_dst u < jr_dst t \<and> jr_src u < jr_src t)" for u
    using that 1(5) jr_step_trans1 [of k s u t] jr_stepD(1,2) [of k s u] by (fastforce simp: round_ok_def)
  consider (escape) u where "?c = CHR 0x5C" "unescape ?e = Some u"
    | (unicode) "?c = CHR 0x5C" "unescape ?e = None" "?e = CHR ''u''"
    | (bad) "?c = CHR 0x5C" "unescape ?e = None" "?e \<noteq> CHR ''u''"
    | (quote) "?c \<noteq> CHR 0x5C" "?c = CHR 0x22"
    | (low) "?c \<noteq> CHR 0x5C" "?c \<noteq> CHR 0x22" "(of_char ?c :: nat) < 0x20"
    | (plain) "?c \<noteq> CHR 0x5C" "?c \<noteq> CHR 0x22" "\<not> (of_char ?c :: nat) < 0x20" by (cases "unescape ?e") blast+
  then show ?case
  proof cases
    case escape
    have "ParseStringToStream (jr_Put u (jr_Take ?t)) = (r, t)" using run escape by simp
    with 1(2) [OF refl escape(1) refl refl refl escape(2)] show ?thesis
      using rest [OF escape_round [OF 1(4,5) escape]] by blast
  next
    case unicode
    obtain a v where v: "ParseUnicode (jr_src s) (jr_Take ?t) = (a, v)" by (cases "ParseUnicode (jr_src s) (jr_Take ?t)")
    note u = unicode_round [OF 1(4,5) unicode(1,3) v]
    show ?thesis
    proof (cases a)
      case (Inl f)
      then have "t = v" "isl r" using run unicode v by auto
      then show ?thesis using reads_step [OF u(1) 1(4)] u(1) by (simp add: reads_def)
    next
      case (Inr cp)
      have "ParseStringToStream (utf8_Encode cp v) = (r, t)" using run unicode v Inr by simp
      with 1(1) [OF refl unicode(1) refl refl refl unicode(2,3) v [symmetric] Inr] show ?thesis
        using rest [OF u(2) [OF Inr]] by blast
    qed
  next
    case bad
    then have "t = ?t" "isl r" using run by (auto simp: parse_fail_def)
    then show ?thesis using Take_step [OF 1(4), of k] bad(1) by simp
  next
    case quote
    then have "r = Inr ()" "t = jr_Put NUL ?t" using run by auto
    then show ?thesis using plain_round [OF 1(4,5), of NUL] quote by (simp add: round_ok_def)
  next
    case low
    then show ?thesis using run jr_step_refl [OF 1(4)] by (auto simp: parse_fail_def)
  next
    case plain
    then have "ParseStringToStream (jr_Put ?c ?t) = (r, t)" using run by simp
    with 1(3) [OF refl plain] show ?thesis using rest [OF plain_round [OF 1(4,5)], of ?c] plain(3) by fastforce
  qed
qed

section \<open>Reading a string the writer wrote\<close>

abbreviation rest :: "reader \<Rightarrow> string" where
  "rest s \<equiv> drop (jr_src s) (jr_mem s)"

lemma rest_Cons:
  assumes "rest s = c # r"
  shows "jr_Peek s = c" and "rest (jr_Take s) = r"
proof -
  have l: "jr_src s < length (jr_mem s)" using assms by (metis drop_eq_Nil linorder_not_le list.distinct(1))
  then show "jr_Peek s = c" using assms by (simp add: jr_Peek_def flip: hd_drop_conv_nth)
  show "rest (jr_Take s) = r" using assms by (metis drop_Suc list.sel(3) stream_fields(1,2) tl_drop)
qed

lemma rest_Consume: "rest s = c # r \<Longrightarrow> Consume d s = (if c = d then (True, jr_Take s) else (False, s))"
  using rest_Cons(1) [of s c r] by (simp add: Consume_def)

lemma rest_Puts: "jr_dst s + length cs \<le> jr_src s \<Longrightarrow> rest (fold jr_Put cs s) = rest s"
  by (induction cs arbitrary: s) simp_all

lemma Puts_mem:
  "jr_dst s + length cs \<le> length (jr_mem s) \<Longrightarrow>
     jr_mem (fold jr_Put cs s) = take (jr_dst s) (jr_mem s) @ cs @ drop (jr_dst s + length cs) (jr_mem s)"
proof (induction cs arbitrary: s)
  case (Cons c cs)
  then show ?case by (simp add: take_Suc_conv_app_nth drop_update_cancel)
qed simp

text \<open>The tables of writer and reader agree.\<close>

definition escapes_agree :: "char \<Rightarrow> bool" where
  "escapes_agree c =
     (let e = escape ! of_char c; n = of_char c :: nat in
      if e = NUL then c \<noteq> CHR 0x22 \<and> c \<noteq> CHR 0x5C \<and> 32 \<le> n
      else if e = CHR ''u'' then
        hex_val (hexDigits ! (n div 16)) = Some (n div 16) \<and> hex_val (hexDigits ! (n mod 16)) = Some (n mod 16) \<and> n < 32
      else unescape e = Some c)"

lemma escapes_agree: "\<forall>c. escapes_agree c"
  by code_simp

lemma hex4_read:
  assumes "rest s = a # b # c # d # r" and "hex_val a = Some i" "hex_val b = Some j" "hex_val c = Some k" "hex_val d = Some l"
  shows "ParseHex4 off s = (Inr (((i * 16 + j) * 16 + k) * 16 + l), jr_Take (jr_Take (jr_Take (jr_Take s))))"
    and "rest (jr_Take (jr_Take (jr_Take (jr_Take s)))) = r"
proof -
  note a = rest_Cons [OF assms(1)]
  note b = rest_Cons [OF a(2)]
  note c = rest_Cons [OF b(2)]
  note d = rest_Cons [OF c(2)]
  show "ParseHex4 off s = (Inr (((i * 16 + j) * 16 + k) * 16 + l), jr_Take (jr_Take (jr_Take (jr_Take s))))"
  proof -
    have four: "4 = Suc (Suc (Suc (Suc 0)))" by simp
    show ?thesis
      unfolding ParseHex4_def four by (simp add: a(1) b(1) c(1) d(1) assms(2-5))
  qed
  show "rest (jr_Take (jr_Take (jr_Take (jr_Take s)))) = r" by (rule d(2))
qed

lemma write_char_read:
  assumes r: "rest s = write_char c @ r" and d: "jr_dst s \<le> jr_src s"
  shows "\<exists>t. ParseStringToStream s = ParseStringToStream t \<and> rest t = r \<and> jr_src t = jr_src s + length (write_char c) \<and>
    jr_dst t = Suc (jr_dst s) \<and> jr_stack t = jr_stack s \<and> jr_mem t = (jr_mem s)[jr_dst s := c]"
proof -
  let ?e = "escape ! of_char c" and ?n = "of_char c :: nat"
  have agree: "escapes_agree c" using escapes_agree by blast
  consider (plain) "?e = NUL" | (hex) "?e \<noteq> NUL" "?e = CHR ''u''" | (short) "?e \<noteq> NUL" "?e \<noteq> CHR ''u''" by blast
  then show ?thesis
  proof cases
    case plain
    then have w: "write_char c = [c]" by (simp add: write_char_def)
    note a = rest_Cons [of s c r, OF r [unfolded w append_Cons append_Nil]]
    let ?t = "jr_Put c (jr_Take s)"
    have "c \<noteq> CHR 0x22" "c \<noteq> CHR 0x5C" "32 \<le> ?n"
      using agree plain by (simp_all add: escapes_agree_def Let_def)
    then have "ParseStringToStream s = ParseStringToStream ?t" by (simp add: ParseStringToStream.simps [of s] a(1))
    moreover have "rest ?t = r" using a(2) d by simp
    ultimately show ?thesis using w by (intro exI [of _ ?t]) simp
  next
    case short
    then have w: "write_char c = [CHR 0x5C, ?e]" by (simp add: write_char_def Let_def)
    note a = rest_Cons [of s "CHR 0x5C" "?e # r", OF r [unfolded w append_Cons append_Nil]]
    note b = rest_Cons [OF a(2)]
    let ?t = "jr_Put c (jr_Take (jr_Take s))"
    have "unescape ?e = Some c" using agree short by (simp add: escapes_agree_def Let_def)
    then have "ParseStringToStream s = ParseStringToStream ?t" by (simp add: ParseStringToStream.simps [of s] a(1) b(1))
    moreover have "rest ?t = r" using b(2) d by simp
    ultimately show ?thesis using w by (intro exI [of _ ?t]) simp
  next
    case hex
    let ?h = "hexDigits ! (?n div 16)" and ?l = "hexDigits ! (?n mod 16)"
    have w: "write_char c = [CHR 0x5C, CHR ''u'', CHR ''0'', CHR ''0'', ?h, ?l]"
      using hex by (simp add: write_char_def Let_def)
    note a = rest_Cons [of s "CHR 0x5C" "CHR ''u'' # CHR ''0'' # CHR ''0'' # ?h # ?l # r", OF r [unfolded w append_Cons append_Nil]]
    note b = rest_Cons [OF a(2)]
    let ?v = "jr_Take (jr_Take s)"
    let ?u = "jr_Take (jr_Take (jr_Take (jr_Take ?v)))"
    have h: "hex_val ?h = Some (?n div 16)" "hex_val ?l = Some (?n mod 16)" "?n < 32"
      using agree hex by (simp_all add: escapes_agree_def Let_def)
    have z: "hex_val (CHR ''0'') = Some 0" by (simp add: hex_val_def)
    have x: "ParseHex4 off ?v = (Inr ?n, ?u)" for off
      using hex4_read(1) [OF b(2) z z h(1,2)] by simp
    then have "ParseUnicode off ?v = (Inr ?n, ?u)" for off
      using h(3) by (simp add: ParseUnicode_def pbind_def)
    moreover have "unescape (CHR ''u'') = None" by (simp add: unescape_def)
    ultimately have "ParseStringToStream s = ParseStringToStream (utf8_Encode ?n ?u)"
      by (simp add: ParseStringToStream.simps [of s] a(1) b(1))
    moreover have e: "utf8_Encode ?n ?u = jr_Put c ?u"
      using h(3) by (simp add: utf8_Encode_def utf8_def)
    moreover have "rest (jr_Put c ?u) = r"
      using hex4_read(2) [OF b(2) z z h(1,2)] d by simp
    ultimately show ?thesis using w by (intro exI [of _ "jr_Put c ?u"]) simp
  qed
qed

lemma string_written:
  "jr_inv s \<Longrightarrow> rest s = concat (map write_char x) @ CHR 0x22 # r \<Longrightarrow>
     \<exists>t. ParseStringToStream s = (Inr (), t) \<and> rest t = r \<and>
       jr_src t = jr_src s + length (concat (map write_char x)) + 1 \<and> jr_dst t = jr_dst s + length x + 1 \<and>
       jr_stack t = jr_stack s \<and> take (length x) (drop (jr_dst s) (jr_mem t)) = x"
proof (induction x arbitrary: s)
  case Nil
  note a = rest_Cons [of s "CHR 0x22" r]
  have "ParseStringToStream s = (Inr (), jr_Put NUL (jr_Take s))"
    using a(1) Nil by (simp add: ParseStringToStream.simps [of s])
  moreover have "rest (jr_Put NUL (jr_Take s)) = r" using a(2) Nil by (simp add: jr_inv_def)
  ultimately show ?case by simp
next
  case (Cons c x)
  have d: "jr_dst s \<le> jr_src s" using Cons.prems(1) by (simp add: jr_inv_def)
  from write_char_read [of s c "concat (map write_char x) @ CHR 0x22 # r"] Cons.prems d
  obtain t where t: "ParseStringToStream s = ParseStringToStream t" "rest t = concat (map write_char x) @ CHR 0x22 # r"
    "jr_src t = jr_src s + length (write_char c)" "jr_dst t = Suc (jr_dst s)" "jr_stack t = jr_stack s"
    "jr_mem t = (jr_mem s)[jr_dst s := c]" by auto
  have "jr_src t < length (jr_mem t)" using t(2) by (metis append_is_Nil_conv drop_eq_Nil linorder_not_le list.distinct(1))
  moreover have "1 \<le> length (write_char c)" by (simp add: write_char_def Let_def)
  ultimately have l: "jr_src t < length (jr_mem s)" "Suc (jr_src s) \<le> jr_src t" using t by simp_all
  then have "last (jr_mem t) = NUL" using Cons.prems(1) d by (cases "jr_mem s = []") (auto simp: t(6) jr_inv_def last_list_update)
  then have it: "jr_inv t" using l t d by (simp add: jr_inv_def)
  from Cons.IH [OF it t(2)] obtain u where
    u: "ParseStringToStream t = (Inr (), u)" "rest u = r"
      "jr_src u = jr_src t + length (concat (map write_char x)) + 1" "jr_dst u = jr_dst t + length x + 1"
      "jr_stack u = jr_stack t" "take (length x) (drop (jr_dst t) (jr_mem u)) = x" by blast
  have "take (jr_dst t) (jr_mem u) = take (jr_dst t) (jr_mem t)" "length (jr_mem u) = length (jr_mem t)"
    using string_step [OF it order_refl u(1)] by (simp_all add: jr_step_def)
  then have "jr_mem u ! jr_dst s = c" using t l d by (metis Suc_le_lessD le_trans length_list_update lessI less_le_trans nth_list_update_eq nth_take order_le_less)
  moreover have "jr_dst s < length (jr_mem u)" using \<open>length (jr_mem u) = length (jr_mem t)\<close> t l d by simp
  ultimately have "take (length (c # x)) (drop (jr_dst s) (jr_mem u)) = c # x"
    using u(6) t(4) by (simp flip: Cons_nth_drop_Suc)
  then show ?case using t u by simp
qed

section \<open>How a part of the reader ends\<close>

text \<open>An error is reported at a position between the start and where the reader stands.\<close>

definition ends_ok :: "nat \<Rightarrow> 'a parsed \<Rightarrow> bool" where
  "ends_ok k p \<longleftrightarrow> (case p of
     (Inl (Failed e off), t) \<Rightarrow> k \<le> off \<and> off \<le> jr_src t
   | (Inl OutOfFuel, t) \<Rightarrow> False
   | (Inr a, t) \<Rightarrow> True)"

lemma ends_ok_Inr [simp]: "ends_ok k (Inr a, t)"
  by (simp add: ends_ok_def)

lemma ends_ok_fail: "k \<le> off \<Longrightarrow> off \<le> jr_src t \<Longrightarrow> ends_ok k (parse_fail e off t)"
  by (simp add: ends_ok_def parse_fail_def)

lemma ends_ok_fail_iff [simp]: "ends_ok k (Inl (Failed e off), t) \<longleftrightarrow> k \<le> off \<and> off \<le> jr_src t"
  by (simp add: ends_ok_def)

lemma ends_ok_le: "ends_ok k p \<Longrightarrow> l \<le> k \<Longrightarrow> ends_ok l p"
  by (auto simp: ends_ok_def split: prod.splits sum.splits failure.splits)

lemma ends_ok_Inl: "ends_ok k ((Inl f, t) :: 'a parsed) \<Longrightarrow> ends_ok k ((Inl f, t) :: 'b parsed)"
  by (cases f) (simp_all add: ends_ok_def)

lemma hex_ends: "ParseHex_digits i cp off s = (r, t) \<Longrightarrow> off \<le> jr_src s \<Longrightarrow> ends_ok off (r, t)"
proof (induction i arbitrary: cp s)
  case (Suc i)
  then show ?case by (cases "hex_val (jr_Peek s)") (auto simp: parse_fail_def)
qed auto

lemma unicode_ends: "ParseUnicode off s = (r, t) \<Longrightarrow> off \<le> jr_src s \<Longrightarrow> ends_ok off (r, t)"
proof -
  assume r: "ParseUnicode off s = (r, t)" and o: "off \<le> jr_src s"
  obtain a u where u: "ParseHex_digits 4 0 off s = (a, u)" by (cases "ParseHex_digits 4 0 off s")
  obtain b v where v: "Consume_all [CHR 0x5C, CHR ''u''] u = (b, v)" by (cases "Consume_all [CHR 0x5C, CHR ''u''] u")
  obtain c w where w: "ParseHex_digits 4 0 off v = (c, w)" by (cases "ParseHex_digits 4 0 off v")
  have su: "reads s u" using reads_hex [OF u] by simp
  have uv: "reads u v" using reads_Consume_all [OF _ v] by simp
  have vw: "reads v w" using reads_hex [OF w] by simp
  have "off \<le> jr_src u" "off \<le> jr_src v" "off \<le> jr_src w" using su uv vw o by (simp_all add: reads_def)
  then show ?thesis
    using r u v w hex_ends [OF u o] hex_ends [OF w]
    by (auto simp: ParseUnicode_def pbind_def ParseHex4_def parse_fail_def simp del: Consume_all.simps
        split: sum.splits if_splits bool.splits prod.splits)
qed

lemma string_ends: "ParseStringToStream s = (r, t) \<Longrightarrow> ends_ok (jr_src s) (r, t)"
proof (induction s rule: ParseStringToStream.induct)
  case (1 s)
  let ?c = "jr_Peek s" and ?t = "jr_Take s"
  note run = 1(4) [unfolded ParseStringToStream.simps [of s] Let_def]
  show ?case
  proof (cases "?c = CHR 0x5C")
    case esc: True
    show ?thesis
    proof (cases "unescape (jr_Peek ?t)")
      case (Some u)
      then have "ParseStringToStream (jr_Put u (jr_Take ?t)) = (r, t)" using run esc by simp
      from 1(2) [OF refl esc refl refl refl Some this] show ?thesis by (rule ends_ok_le) simp
    next
      case None
      show ?thesis
      proof (cases "jr_Peek ?t = CHR ''u''")
        case True
        obtain a v where v: "ParseUnicode (jr_src s) (jr_Take ?t) = (a, v)" by (cases "ParseUnicode (jr_src s) (jr_Take ?t)")
        show ?thesis
        proof (cases a)
          case (Inl f)
          then show ?thesis using run esc None True v unicode_ends [OF v] by (auto intro: ends_ok_Inl)
        next
          case (Inr cp)
          then have "ParseStringToStream (utf8_Encode cp v) = (r, t)" using run esc None True v by simp
          from 1(1) [OF refl esc refl refl refl None True v [symmetric] Inr this] show ?thesis
          proof (rule ends_ok_le)
            have "jr_src (fold jr_Put cs s) = jr_src s" for cs s by (induction cs arbitrary: s) simp_all
            then show "jr_src s \<le> jr_src (utf8_Encode cp v)"
              using reads_unicode [OF v] by (simp add: utf8_Encode_def reads_def)
          qed
        qed
      next
        case False
        then show ?thesis using run esc None by (auto simp: parse_fail_def)
      qed
    qed
  next
    case plain: False
    show ?thesis
    proof (cases "?c = CHR 0x22 \<or> (of_char ?c :: nat) < 0x20")
      case True
      then show ?thesis using run plain by (auto simp: parse_fail_def split: if_splits)
    next
      case False
      then have "ParseStringToStream (jr_Put ?c ?t) = (r, t)" using run plain by simp
      from 1(3) [OF refl plain _ _ this] False show ?thesis by (auto intro: ends_ok_le)
    qed
  qed
qed

end
