(* ===== verification/Kes_JsonNumber.thy ===== *)
theory Kes_JsonNumber
  imports Kes_JsonStream
begin

text \<open>
  Reading JSON, the numbers (\<^verbatim>\<open>ParseNumber\<close> of \<^verbatim>\<open>reader.h\<close>, \<^verbatim>\<open>internal/strtod.h\<close>): as long as the
  digits fit they are collected in a 32-bit, then in a 64-bit word, then in a double. The arithmetic of
  doubles is a parameter. Integers that fit in 64 bits are proved to be read exactly.
\<close>

section \<open>Doubles\<close>

record double_ops =
  dbl_of_u64 :: "u64 \<Rightarrow> u64"
  dbl_add :: "u64 \<Rightarrow> u64 \<Rightarrow> u64"
  dbl_mul :: "u64 \<Rightarrow> u64 \<Rightarrow> u64"
  dbl_div :: "u64 \<Rightarrow> u64 \<Rightarrow> u64"
  dbl_neg :: "u64 \<Rightarrow> u64"
  dbl_less :: "u64 \<Rightarrow> u64 \<Rightarrow> bool"
  dbl_max :: u64
  dbl_Pow10 :: "nat \<Rightarrow> u64"

definition FastPath :: "double_ops \<Rightarrow> u64 \<Rightarrow> int \<Rightarrow> u64" where
  "FastPath D significand exp =
     (if exp < - 308 then 0
      else if exp \<ge> 0 then dbl_mul D significand (dbl_Pow10 D (nat exp))
      else dbl_div D significand (dbl_Pow10 D (nat (- exp))))"

definition StrtodNormalPrecision :: "double_ops \<Rightarrow> u64 \<Rightarrow> int \<Rightarrow> u64" where
  "StrtodNormalPrecision D d p =
     (if p < - 308 then FastPath D (FastPath D d (- 308)) (p + 308) else FastPath D d p)"

definition dbl_digit :: "double_ops \<Rightarrow> u64 \<Rightarrow> nat \<Rightarrow> u64" where
  "dbl_digit D d n = dbl_add D (dbl_mul D d (dbl_of_u64 D 10)) (dbl_of_u64 D (of_nat n))"

section \<open>The digits\<close>

record num =
  n_minus :: bool
  n_i :: u32
  n_i64 :: u64
  n_use64bit :: bool
  n_useDouble :: bool
  n_d :: u64
  n_significandDigit :: int
  n_expFrac :: int
  n_exp :: int

definition is_digit :: "char \<Rightarrow> bool" where
  "is_digit c \<longleftrightarrow> 48 \<le> (of_char c :: nat) \<and> (of_char c :: nat) \<le> 57"

definition digit_val :: "char \<Rightarrow> nat" where
  "digit_val c = of_char c - 48"

lemma is_digit_NUL [simp]: "\<not> is_digit NUL"
  by (simp add: is_digit_def)

lemma left_digit: "is_digit (jr_Peek s) \<Longrightarrow> left (jr_Take s) < left s"
  by (intro left_Take) auto

function int_loop :: "num \<Rightarrow> reader \<Rightarrow> num \<times> reader" where
  "int_loop v s =
     (if is_digit (jr_Peek s) then
        let lim = (if n_minus v then 214748364 else 429496729); top = (if n_minus v then 8 else 5) in
        if n_i v \<ge> lim \<and> (n_i v \<noteq> lim \<or> digit_val (jr_Peek s) > top)
        then (v\<lparr>n_i64 := ucast (n_i v), n_use64bit := True\<rparr>, s)
        else int_loop (v\<lparr>n_i := n_i v * 10 + of_nat (digit_val (jr_Peek s)),
            n_significandDigit := n_significandDigit v + 1\<rparr>) (jr_Take s)
      else (v, s))"
  by pat_completeness auto
termination by (relation "measure (\<lambda>(v, s). left s)") (auto intro: left_digit)

function int64_loop :: "double_ops \<Rightarrow> num \<Rightarrow> reader \<Rightarrow> num \<times> reader" where
  "int64_loop D v s =
     (if is_digit (jr_Peek s) then
        let lim = (if n_minus v then 0x0CCCCCCCCCCCCCCC else 0x1999999999999999); top = (if n_minus v then 8 else 5) in
        if n_i64 v \<ge> lim \<and> (n_i64 v \<noteq> lim \<or> digit_val (jr_Peek s) > top)
        then (v\<lparr>n_d := dbl_of_u64 D (n_i64 v), n_useDouble := True\<rparr>, s)
        else int64_loop D (v\<lparr>n_i64 := n_i64 v * 10 + of_nat (digit_val (jr_Peek s)),
            n_significandDigit := n_significandDigit v + 1\<rparr>) (jr_Take s)
      else (v, s))"
  by pat_completeness auto
termination by (relation "measure (\<lambda>(D, v, s). left s)") (auto intro: left_digit)

text \<open>More than 64 bits of digits.\<close>

function big_loop :: "double_ops \<Rightarrow> num \<Rightarrow> reader \<Rightarrow> num \<times> reader" where
  "big_loop D v s =
     (if is_digit (jr_Peek s)
      then big_loop D (v\<lparr>n_d := dbl_digit D (n_d v) (digit_val (jr_Peek s))\<rparr>) (jr_Take s)
      else (v, s))"
  by pat_completeness auto
termination by (relation "measure (\<lambda>(D, v, s). left s)") (auto intro: left_digit)

text \<open>The fraction, first in the 64-bit significand as long as a double holds it exactly, then in a double.\<close>

function frac_loop64 :: "num \<Rightarrow> reader \<Rightarrow> num \<times> reader" where
  "frac_loop64 v s =
     (if is_digit (jr_Peek s) \<and> \<not> n_i64 v > 0x1FFFFFFFFFFFFF then
        let i64 = n_i64 v * 10 + of_nat (digit_val (jr_Peek s)) in
        frac_loop64 (v\<lparr>n_i64 := i64, n_expFrac := n_expFrac v - 1,
            n_significandDigit := (if i64 \<noteq> 0 then n_significandDigit v + 1 else n_significandDigit v)\<rparr>) (jr_Take s)
      else (v, s))"
  by pat_completeness auto
termination by (relation "measure (\<lambda>(v, s). left s)") (auto intro: left_digit)

function frac_loop :: "double_ops \<Rightarrow> num \<Rightarrow> reader \<Rightarrow> num \<times> reader" where
  "frac_loop D v s =
     (if is_digit (jr_Peek s) then
        let d = dbl_digit D (n_d v) (digit_val (jr_Peek s)) in
        frac_loop D
          (if n_significandDigit v < 17
           then v\<lparr>n_d := d, n_expFrac := n_expFrac v - 1,
               n_significandDigit := (if dbl_less D 0 d then n_significandDigit v + 1 else n_significandDigit v)\<rparr>
           else v) (jr_Take s)
      else (v, s))"
  by pat_completeness auto
termination by (relation "measure (\<lambda>(D, v, s). left s)") (auto intro: left_digit)

function skip_digits :: "reader \<Rightarrow> reader" where
  "skip_digits s = (if is_digit (jr_Peek s) then skip_digits (jr_Take s) else s)"
  by pat_completeness auto
termination by (relation "measure left") (auto intro: left_digit)

text \<open>The digits of an exponent: a huge negative one is cut, a huge positive one is an error.\<close>

function exp_loop_neg :: "int \<Rightarrow> int \<Rightarrow> reader \<Rightarrow> int \<times> reader" where
  "exp_loop_neg maxExp e s =
     (if is_digit (jr_Peek s) then
        let e' = e * 10 + int (digit_val (jr_Peek s)) in
        if e' > maxExp then (e', skip_digits (jr_Take s)) else exp_loop_neg maxExp e' (jr_Take s)
      else (e, s))"
  by pat_completeness auto
termination by (relation "measure (\<lambda>(m, e, s). left s)") (auto intro: left_digit)

function exp_loop_pos :: "int \<Rightarrow> int \<Rightarrow> nat \<Rightarrow> reader \<Rightarrow> int parsed" where
  "exp_loop_pos maxExp e startOffset s =
     (if is_digit (jr_Peek s) then
        let e' = e * 10 + int (digit_val (jr_Peek s)) in
        if e' > maxExp then parse_fail NumberTooBig startOffset (jr_Take s)
        else exp_loop_pos maxExp e' startOffset (jr_Take s)
      else (Inr e, s))"
  by pat_completeness auto
termination by (relation "measure (\<lambda>(m, e, k, s). left s)") (auto intro: left_digit)

declare int_loop.simps [simp del] int64_loop.simps [simp del] big_loop.simps [simp del] frac_loop64.simps [simp del]
  frac_loop.simps [simp del] skip_digits.simps [simp del] exp_loop_neg.simps [simp del] exp_loop_pos.simps [simp del]

section \<open>A number\<close>

definition parse_int :: "num \<Rightarrow> reader \<Rightarrow> num parsed" where
  "parse_int v s =
     (if jr_Peek s = CHR ''0'' then (Inr v, jr_Take s)
      else if is_digit (jr_Peek s) then
        (case int_loop (v\<lparr>n_i := of_nat (digit_val (jr_Peek s))\<rparr>) (jr_Take s) of (v, s) \<Rightarrow> (Inr v, s))
      else parse_fail ValueInvalid (jr_src s) s)"

definition parse_int64 :: "double_ops \<Rightarrow> num \<Rightarrow> reader \<Rightarrow> num \<times> reader" where
  "parse_int64 D v s =
     (case (if n_use64bit v then int64_loop D v s else (v, s)) of
        (v, s) \<Rightarrow> if n_useDouble v then big_loop D v s else (v, s))"

definition parse_frac :: "double_ops \<Rightarrow> num \<Rightarrow> reader \<Rightarrow> num parsed" where
  "parse_frac D v s =
     (case Consume CHR ''.'' s of
        (False, s) \<Rightarrow> (Inr v, s)
      | (True, s) \<Rightarrow>
          if \<not> is_digit (jr_Peek s) then parse_fail NumberMissFraction (jr_src s) s
          else
            (case (if n_useDouble v then (v, s)
                   else case frac_loop64 (if n_use64bit v then v else v\<lparr>n_i64 := ucast (n_i v)\<rparr>) s of
                     (v, s) \<Rightarrow> (v\<lparr>n_d := dbl_of_u64 D (n_i64 v), n_useDouble := True\<rparr>, s)) of
               (v, s) \<Rightarrow> (case frac_loop D v s of (v, s) \<Rightarrow> (Inr v, s))))"

definition parse_exp :: "double_ops \<Rightarrow> nat \<Rightarrow> num \<Rightarrow> reader \<Rightarrow> num parsed" where
  "parse_exp D startOffset v s =
     (if jr_Peek s \<noteq> CHR ''e'' \<and> jr_Peek s \<noteq> CHR ''E'' then (Inr v, s)
      else
        let s = jr_Take s;
            v = (if n_useDouble v then v
                 else v\<lparr>n_d := dbl_of_u64 D (if n_use64bit v then n_i64 v else ucast (n_i v)), n_useDouble := True\<rparr>);
            expMinus = (jr_Peek s = CHR ''-'');
            s = (if jr_Peek s = CHR ''+'' \<or> expMinus then jr_Take s else s) in
        if is_digit (jr_Peek s) then
          let e = int (digit_val (jr_Peek s)); s = jr_Take s in
          if expMinus then
            (case exp_loop_neg ((n_expFrac v + 2147483639) div 10) e s of (e, s) \<Rightarrow> (Inr (v\<lparr>n_exp := - e\<rparr>), s))
          else pbind (exp_loop_pos (308 - n_expFrac v) e startOffset s) (\<lambda>e s. (Inr (v\<lparr>n_exp := e\<rparr>), s))
        else parse_fail NumberMissExponent (jr_src s) s)"

definition push :: "node \<Rightarrow> reader \<Rightarrow> reader" where
  "push x s = s\<lparr>jr_stack := x # jr_stack s\<rparr>"

definition finish_number :: "double_ops \<Rightarrow> nat \<Rightarrow> num \<Rightarrow> reader \<Rightarrow> unit parsed" where
  "finish_number D startOffset v s =
     (if n_useDouble v then
        let d = StrtodNormalPrecision D (n_d v) (n_exp v + n_expFrac v) in
        if dbl_less D (dbl_max D) d then parse_fail NumberTooBig startOffset s
        else (Inr (), push (NDouble (if n_minus v then dbl_neg D d else d)) s)
      else if n_use64bit v then
        (Inr (), push (NInt (if n_minus v then sint (NOT (n_i64 v) + 1) else uint (n_i64 v))) s)
      else (Inr (), push (NInt (if n_minus v then sint (NOT (n_i v) + 1) else uint (n_i v))) s))"

definition no_digits :: "bool \<Rightarrow> num" where
  "no_digits neg =
     \<lparr>n_minus = neg, n_i = 0, n_i64 = 0, n_use64bit = False, n_useDouble = False, n_d = 0,
      n_significandDigit = 0, n_expFrac = 0, n_exp = 0\<rparr>"

definition ParseNumber :: "double_ops \<Rightarrow> reader \<Rightarrow> unit parsed" where
  "ParseNumber D s =
     (let startOffset = jr_src s in
      case Consume CHR ''-'' s of
        (neg, s) \<Rightarrow>
          pbind (parse_int (no_digits neg) s) (\<lambda>v s.
            case parse_int64 D v s of
              (v, s) \<Rightarrow>
                pbind (parse_frac D v s) (\<lambda>v s.
                  pbind (parse_exp D startOffset v s) (\<lambda>v s. finish_number D startOffset v s))))"

section \<open>Reading a number only reads\<close>

lemma reads_digit: "is_digit (jr_Peek s) \<Longrightarrow> reads s (jr_Take s)"
  by (intro reads_Take) auto

text \<open>Every loop over digits reads as long as it takes digits.\<close>

lemma reads_int: "int_loop v s = (w, t) \<Longrightarrow> reads s t"
proof (induction v s rule: int_loop.induct)
  case (1 v s)
  show ?case using 1(2) 1(1) [OF _ refl refl] reads_digit [of s] reads_trans [of s "jr_Take s" t]
    by (simp add: int_loop.simps [of v s] Let_def split: if_splits) (auto intro: reads_refl)
qed

lemma reads_int64: "int64_loop D v s = (w, t) \<Longrightarrow> reads s t"
proof (induction D v s rule: int64_loop.induct)
  case (1 D v s)
  show ?case using 1(2) 1(1) [OF _ refl refl] reads_digit [of s] reads_trans [of s "jr_Take s" t]
    by (simp add: int64_loop.simps [of D v s] Let_def split: if_splits) (auto intro: reads_refl)
qed

lemma reads_big: "big_loop D v s = (w, t) \<Longrightarrow> reads s t"
proof (induction D v s rule: big_loop.induct)
  case (1 D v s)
  then show ?case using reads_digit [of s] reads_trans [of s "jr_Take s" t]
    by (cases "is_digit (jr_Peek s)") (auto simp: big_loop.simps [of D v s] reads_refl)
qed

lemma reads_frac64: "frac_loop64 v s = (w, t) \<Longrightarrow> reads s t"
proof (induction v s rule: frac_loop64.induct)
  case (1 v s)
  then show ?case using reads_digit [of s] reads_trans [of s "jr_Take s" t]
    by (cases "is_digit (jr_Peek s) \<and> \<not> n_i64 v > 0x1FFFFFFFFFFFFF") (auto simp: frac_loop64.simps [of v s] Let_def reads_refl)
qed

lemma reads_frac: "frac_loop D v s = (w, t) \<Longrightarrow> reads s t"
proof (induction D v s rule: frac_loop.induct)
  case (1 D v s)
  then show ?case using reads_digit [of s] reads_trans [of s "jr_Take s" t]
    by (cases "is_digit (jr_Peek s)") (auto simp: frac_loop.simps [of D v s] Let_def reads_refl)
qed

lemma reads_skip: "reads s (skip_digits s)"
proof (induction s rule: skip_digits.induct)
  case (1 s)
  then show ?case using reads_digit [of s] reads_trans [of s "jr_Take s"]
    by (cases "is_digit (jr_Peek s)") (auto simp: skip_digits.simps [of s] reads_refl)
qed

lemma reads_exp_neg: "exp_loop_neg m e s = (f, t) \<Longrightarrow> reads s t"
proof (induction m e s rule: exp_loop_neg.induct)
  case (1 m e s)
  then show ?case using reads_digit [of s] reads_trans [of s "jr_Take s"] reads_skip [of "jr_Take s"]
    by (cases "is_digit (jr_Peek s)") (auto simp: exp_loop_neg.simps [of m e s] Let_def reads_refl split: if_splits)
qed

lemma reads_exp_pos: "exp_loop_pos m e k s = (r, t) \<Longrightarrow> reads s t"
proof (induction m e k s rule: exp_loop_pos.induct)
  case (1 m e k s)
  then show ?case using reads_digit [of s] reads_trans [of s "jr_Take s"]
    by (cases "is_digit (jr_Peek s)") (auto simp: exp_loop_pos.simps [of m e k s] Let_def parse_fail_def reads_refl split: if_splits)
qed

lemma reads_parse_int: "parse_int v s = (r, t) \<Longrightarrow> reads s t \<and> ends_ok (jr_src s) (r, t) \<and> (isl r \<or> jr_src s < jr_src t)"
proof (cases "is_digit (jr_Peek s)")
  case True
  assume r: "parse_int v s = (r, t)"
  have d: "reads s (jr_Take s)" by (rule reads_digit [OF True])
  obtain w u where u: "int_loop (v\<lparr>n_i := of_nat (digit_val (jr_Peek s))\<rparr>) (jr_Take s) = (w, u)"
    by (cases "int_loop (v\<lparr>n_i := of_nat (digit_val (jr_Peek s))\<rparr>) (jr_Take s)")
  have "reads (jr_Take s) u" by (rule reads_int [OF u])
  then have "reads s u" "jr_src s < jr_src u" using reads_trans [OF d] by (auto simp: reads_def)
  then show ?thesis using r u d True by (auto simp: parse_int_def split: if_splits)
next
  case False
  moreover have "is_digit (CHR ''0'')" by (simp add: is_digit_def)
  moreover assume "parse_int v s = (r, t)"
  ultimately show ?thesis by (auto simp: parse_int_def parse_fail_def reads_refl split: if_splits)
qed

lemma reads_parse_int64: "parse_int64 D v s = (w, t) \<Longrightarrow> reads s t"
proof -
  assume r: "parse_int64 D v s = (w, t)"
  obtain v1 s1 where s1: "(if n_use64bit v then int64_loop D v s else (v, s)) = (v1, s1)" by fastforce
  then have "reads s s1" using reads_int64 [of D v s v1 s1] by (auto simp: reads_refl split: if_splits)
  moreover have "reads s1 t" using r s1 reads_big [of D v1 s1 w t] by (auto simp: parse_int64_def reads_refl split: if_splits)
  ultimately show ?thesis by (rule reads_trans)
qed

lemma reads_parse_frac: "parse_frac D v s = (r, t) \<Longrightarrow> reads s t \<and> ends_ok (jr_src s) (r, t)"
proof (cases "jr_Peek s = CHR ''.''")
  case True
  assume r: "parse_frac D v s = (r, t)"
  let ?s = "jr_Take s"
  have d: "reads s ?s" using True by (intro reads_Take) simp
  let ?m = "if n_useDouble v then (v, ?s)
     else case frac_loop64 (if n_use64bit v then v else v\<lparr>n_i64 := ucast (n_i v)\<rparr>) ?s of
       (v, s) \<Rightarrow> (v\<lparr>n_d := dbl_of_u64 D (n_i64 v), n_useDouble := True\<rparr>, s)"
  obtain v1 s1 where s1: "?m = (v1, s1)" by (cases ?m)
  have a: "reads ?s s1"
    using s1 reads_frac64 by (fastforce simp: reads_refl split: if_splits prod.splits)
  obtain v2 s2 where s2: "frac_loop D v1 s1 = (v2, s2)" by (cases "frac_loop D v1 s1")
  have e: "reads s s2" by (rule reads_trans [OF d reads_trans [OF a reads_frac [OF s2]]])
  show ?thesis
  proof (cases "is_digit (jr_Peek ?s)")
    case True
    then have "t = s2" "r = Inr v2" using r s1 s2 \<open>jr_Peek s = CHR ''.''\<close> by (simp_all add: parse_frac_def Consume_def)
    then show ?thesis using e by simp
  next
    case False
    then show ?thesis using r d \<open>jr_Peek s = CHR ''.''\<close> by (auto simp: parse_frac_def Consume_def parse_fail_def)
  qed
next
  case False
  assume "parse_frac D v s = (r, t)"
  then show ?thesis using False by (auto simp: parse_frac_def Consume_def reads_refl)
qed

lemma exp_pos_ends: "exp_loop_pos m e k s = (r, t) \<Longrightarrow> k \<le> jr_src s \<Longrightarrow> ends_ok k (r, t)"
proof (induction m e k s rule: exp_loop_pos.induct)
  case (1 m e k s)
  then show ?case
    by (cases "is_digit (jr_Peek s)") (auto simp: exp_loop_pos.simps [of m e k s] Let_def parse_fail_def split: if_splits)
qed

lemma reads_parse_exp:
  assumes r: "parse_exp D k v s = (r, t)" and k: "k \<le> jr_src s"
  shows "reads s t \<and> ends_ok k (r, t)"
proof (cases "jr_Peek s = CHR ''e'' \<or> jr_Peek s = CHR ''E''")
  case True
  let ?s = "jr_Take s"
  let ?u = "if jr_Peek ?s = CHR ''+'' \<or> jr_Peek ?s = CHR ''-'' then jr_Take ?s else ?s"
  have u: "reads s ?u"
    using True reads_trans [OF reads_Take [of s] reads_Take [of ?s]] reads_Take [of s] by auto
  show ?thesis
  proof (cases "is_digit (jr_Peek ?u)")
    case d: True
    have v: "reads s (jr_Take ?u)" by (rule reads_trans [OF u reads_digit [OF d]])
    then have kv: "k \<le> jr_src (jr_Take ?u)" using k by (simp add: reads_def)
    show ?thesis
    proof (cases "jr_Peek ?s = CHR ''-''")
      case True
      then show ?thesis
        using r \<open>jr_Peek s = CHR ''e'' \<or> jr_Peek s = CHR ''E''\<close> d v reads_trans [OF v reads_exp_neg]
        by (auto simp: parse_exp_def Let_def split: prod.splits)
    next
      case False
      obtain a w where w: "exp_loop_pos (308 - n_expFrac v) (int (digit_val (jr_Peek ?u))) k (jr_Take ?u) = (a, w)"
        by (cases "exp_loop_pos (308 - n_expFrac v) (int (digit_val (jr_Peek ?u))) k (jr_Take ?u)")
      have "reads s w" "ends_ok k (a, w)"
        using reads_trans [OF v reads_exp_pos [OF w]] exp_pos_ends [OF w kv] by simp_all
      then show ?thesis
        using r \<open>jr_Peek s = CHR ''e'' \<or> jr_Peek s = CHR ''E''\<close> d False w
        by (cases a) (auto simp: parse_exp_def Let_def pbind_def split: if_splits intro: ends_ok_Inl)
    qed
  next
    case False
    then show ?thesis using r True u k by (auto simp: parse_exp_def Let_def parse_fail_def reads_def split: if_splits)
  qed
next
  case False
  then show ?thesis using r by (auto simp: parse_exp_def reads_refl)
qed

lemma pbindE:
  assumes "pbind m f = (r, t)"
  obtains e where "m = (Inl e, t)" "r = Inl e" | a u where "m = (Inr a, u)" "f a u = (r, t)"
  using assms by (auto simp: pbind_def split: prod.splits sum.splits)

text \<open>A number is read without touching the text, and one node is pushed.\<close>

fun is_number :: "node \<Rightarrow> bool" where
  "is_number (NInt i) = True" | "is_number (NDouble d) = True" | "is_number _ = False"

lemma finish_cases:
  assumes "finish_number D k v s = (r, t)"
  shows "(\<exists>x. r = Inr () \<and> is_number x \<and> t = push x s) \<or> (r = Inl (Failed NumberTooBig k) \<and> t = s)"
  using assms unfolding finish_number_def Let_def parse_fail_def
  by (simp split: if_splits) (metis is_number.simps(1,2))+

lemma number_cases:
  assumes r: "ParseNumber D s = (r, t)"
  shows "\<exists>u. reads s u \<and> ends_ok (jr_src s) (r, t) \<and>
    ((\<exists>x. r = Inr () \<and> is_number x \<and> t = push x u \<and> jr_src s < jr_src u) \<or> (isl r \<and> t = u))"
proof -
  obtain neg s1 where c: "Consume CHR ''-'' s = (neg, s1)" by (cases "Consume CHR ''-'' s")
  then have a: "reads s s1" using reads_Consume_all [of "[CHR ''-'']" s neg s1] by (auto split: bool.splits)
  have "pbind (parse_int (no_digits neg) s1) (\<lambda>v s2. case parse_int64 D v s2 of (v, s3) \<Rightarrow>
      pbind (parse_frac D v s3) (\<lambda>v s4. pbind (parse_exp D (jr_src s) v s4) (\<lambda>v s5. finish_number D (jr_src s) v s5))) = (r, t)"
    using r c by (simp add: ParseNumber_def Let_def)
  then show ?thesis
  proof (cases rule: pbindE)
    case (1 e)
    with reads_parse_int [OF 1(1)] a reads_trans [OF a] show ?thesis
      by (auto simp: reads_def intro: ends_ok_Inl ends_ok_le)
  next
    case (2 v s2)
    obtain v3 s3 where v3: "parse_int64 D v s2 = (v3, s3)" by (cases "parse_int64 D v s2")
    have b: "reads s s3" "jr_src s < jr_src s3"
      using reads_parse_int [OF 2(1)] reads_parse_int64 [OF v3] a reads_trans by (auto simp: reads_def)
    have "pbind (parse_frac D v3 s3) (\<lambda>v s4. pbind (parse_exp D (jr_src s) v s4) (\<lambda>v s5. finish_number D (jr_src s) v s5)) = (r, t)"
      using 2(2) v3 by simp
    then show ?thesis
    proof (cases rule: pbindE)
      case (1 e)
      with reads_parse_frac [OF 1(1)] b reads_trans [OF b(1)] show ?thesis
        by (auto simp: reads_def intro: ends_ok_Inl ends_ok_le)
    next
      case (2 v4 s4)
      have c: "reads s s4" "jr_src s < jr_src s4"
        using reads_parse_frac [OF 2(1)] b reads_trans by (auto simp: reads_def)
      from 2(2) show ?thesis
      proof (cases rule: pbindE)
        case (1 e)
        with reads_parse_exp [OF 1(1)] c reads_trans [OF c(1)] show ?thesis
          by (auto simp: reads_def intro: ends_ok_Inl ends_ok_le)
      next
        case (2 v5 s5)
        have d: "reads s s5" "jr_src s < jr_src s5"
          using reads_parse_exp [OF 2(1)] c reads_trans by (auto simp: reads_def)
        from finish_cases [OF 2(2)] d show ?thesis by (auto simp: reads_def)
      qed
    qed
  qed
qed

section \<open>Integers are read exactly\<close>

definition decimal :: "nat \<Rightarrow> string \<Rightarrow> nat" where
  "decimal a ds = foldl (\<lambda>a c. a * 10 + digit_val c) a ds"

lemma decimal_simps [simp]: "decimal a [] = a" "decimal a (c # ds) = decimal (a * 10 + digit_val c) ds"
  "decimal a (ds @ es) = decimal (decimal a ds) es"
  by (simp_all add: decimal_def)

lemma decimal_grows: "a \<le> decimal a ds"
proof (induction ds arbitrary: a)
  case (Cons c ds)
  show ?case using le_trans [OF _ Cons.IH [of "a * 10 + digit_val c"]] by simp
qed simp

lemma digit_val_less: "is_digit c \<Longrightarrow> digit_val c < 10"
  unfolding is_digit_def digit_val_def by linarith

text \<open>The largest magnitude that still fits.\<close>

definition max32 :: "bool \<Rightarrow> nat" where
  "max32 neg = (if neg then 2147483648 else 4294967295)"

definition max64 :: "bool \<Rightarrow> nat" where
  "max64 neg = (if neg then 9223372036854775808 else 18446744073709551615)"

lemma fits32:
  fixes i :: u32
  assumes "d < 10"
  shows "(i \<ge> (if neg then 214748364 else 429496729) \<and>
      (i \<noteq> (if neg then 214748364 else 429496729) \<or> d > (if neg then 8 else 5 :: nat))) \<longleftrightarrow> max32 neg < unat i * 10 + d"
    and "unat i * 10 + d \<le> max32 neg \<Longrightarrow> unat (i * 10 + of_nat d) = unat i * 10 + d"
proof -
  show "(i \<ge> (if neg then 214748364 else 429496729) \<and>
      (i \<noteq> (if neg then 214748364 else 429496729) \<or> d > (if neg then 8 else 5 :: nat))) \<longleftrightarrow> max32 neg < unat i * 10 + d"
    using assms by (auto simp: max32_def word_le_nat_alt word_unat_eq_iff)
  assume "unat i * 10 + d \<le> max32 neg"
  then have "unat i * 10 + d < 2 ^ 32" by (simp add: max32_def split: if_splits)
  then show "unat (i * 10 + of_nat d) = unat i * 10 + d"
    by (simp add: unat_word_ariths unat_of_nat)
qed

lemma fits64:
  fixes i :: u64
  assumes "d < 10"
  shows "(i \<ge> (if neg then 0x0CCCCCCCCCCCCCCC else 0x1999999999999999) \<and>
      (i \<noteq> (if neg then 0x0CCCCCCCCCCCCCCC else 0x1999999999999999) \<or> d > (if neg then 8 else 5 :: nat))) \<longleftrightarrow> max64 neg < unat i * 10 + d"
    and "unat i * 10 + d \<le> max64 neg \<Longrightarrow> unat (i * 10 + of_nat d) = unat i * 10 + d"
proof -
  show "(i \<ge> (if neg then 0x0CCCCCCCCCCCCCCC else 0x1999999999999999) \<and>
      (i \<noteq> (if neg then 0x0CCCCCCCCCCCCCCC else 0x1999999999999999) \<or> d > (if neg then 8 else 5 :: nat))) \<longleftrightarrow> max64 neg < unat i * 10 + d"
    using assms by (auto simp: max64_def word_le_nat_alt word_unat_eq_iff)
  assume "unat i * 10 + d \<le> max64 neg"
  then have "unat i * 10 + d < 2 ^ 64" by (simp add: max64_def split: if_splits)
  then show "unat (i * 10 + of_nat d) = unat i * 10 + d"
    by (simp add: unat_word_ariths unat_of_nat)
qed

text \<open>What the loops leave alone.\<close>

definition same_rest :: "num \<Rightarrow> num \<Rightarrow> bool" where
  "same_rest v w \<longleftrightarrow> n_minus w = n_minus v \<and> n_useDouble w = n_useDouble v \<and> n_exp w = n_exp v \<and> n_expFrac w = n_expFrac v"

lemma rest_not_digit: "rest s = r \<Longrightarrow> r \<noteq> [] \<Longrightarrow> \<not> is_digit (hd r) \<Longrightarrow> \<not> is_digit (jr_Peek s)"
  using rest_Cons(1) [of s "hd r" "tl r"] by simp

lemma int_loop_decimal:
  "list_all is_digit ds \<Longrightarrow> rest s = ds @ r \<Longrightarrow> r \<noteq> [] \<Longrightarrow> \<not> is_digit (hd r) \<Longrightarrow> \<not> n_use64bit v \<Longrightarrow>
     unat (n_i v) \<le> max32 (n_minus v) \<Longrightarrow>
     \<exists>w t es. int_loop v s = (w, t) \<and> rest t = es @ r \<and> list_all is_digit es \<and> same_rest v w \<and>
       (if n_use64bit w then decimal (unat (n_i64 w)) es = decimal (unat (n_i v)) ds
        else es = [] \<and> unat (n_i w) = decimal (unat (n_i v)) ds \<and> unat (n_i w) \<le> max32 (n_minus v))"
proof (induction ds arbitrary: v s)
  case Nil
  then have "int_loop v s = (v, s)" using rest_not_digit [of s r] by (simp add: int_loop.simps [of v s])
  then show ?case using Nil by (simp add: same_rest_def)
next
  case (Cons c ds)
  note p = rest_Cons [of s c "ds @ r"]
  have c: "jr_Peek s = c" "rest (jr_Take s) = ds @ r" "is_digit c" "digit_val c < 10"
    using p Cons.prems(1,2) digit_val_less by auto
  show ?case
  proof (cases "max32 (n_minus v) < unat (n_i v) * 10 + digit_val c")
    case True
    then have "int_loop v s = (v\<lparr>n_i64 := ucast (n_i v), n_use64bit := True\<rparr>, s)"
      using fits32(1) [OF c(4), of "n_minus v" "n_i v"] c(1,3) by (simp add: int_loop.simps [of v s] Let_def)
    moreover have "unat (n_i v) < 2 ^ 64" by (rule order_less_le_trans [OF unsigned_less]) simp
    then have "unat (ucast (n_i v) :: u64) = unat (n_i v)" by (simp add: unsigned_ucast_eq take_bit_nat_eq_self_iff)
    ultimately show ?thesis using Cons.prems(1,2) 
      by (intro exI [of _ "v\<lparr>n_i64 := ucast (n_i v), n_use64bit := True\<rparr>"] exI [of _ s] exI [of _ "c # ds"])
        (auto simp: same_rest_def)
  next
    case False
    let ?v = "v\<lparr>n_i := n_i v * 10 + of_nat (digit_val c), n_significandDigit := n_significandDigit v + 1\<rparr>"
    have "int_loop v s = int_loop ?v (jr_Take s)"
      using False fits32(1) [OF c(4), of "n_minus v" "n_i v"] c(1,3)
      by (cases "n_minus v") (auto simp: int_loop.simps [of v s] Let_def)
    moreover have "unat (n_i ?v) = unat (n_i v) * 10 + digit_val c"
      using False fits32(2) [OF c(4), of "n_i v" "n_minus v"] by simp
    moreover have "same_rest v w \<longleftrightarrow> same_rest ?v w" for w by (simp add: same_rest_def)
    ultimately show ?thesis using Cons.IH [of "jr_Take s" ?v] Cons.prems c(2) False by (simp cong: if_cong)
  qed
qed

lemma int64_loop_decimal:
  "list_all is_digit ds \<Longrightarrow> rest s = ds @ r \<Longrightarrow> r \<noteq> [] \<Longrightarrow> \<not> is_digit (hd r) \<Longrightarrow>
     decimal (unat (n_i64 v)) ds \<le> max64 (n_minus v) \<Longrightarrow>
     \<exists>w t. int64_loop D v s = (w, t) \<and> rest t = r \<and> same_rest v w \<and> n_use64bit w = n_use64bit v \<and>
       unat (n_i64 w) = decimal (unat (n_i64 v)) ds"
proof (induction ds arbitrary: v s)
  case Nil
  then have "int64_loop D v s = (v, s)" using rest_not_digit [of s r] by (simp add: int64_loop.simps [of D v s])
  then show ?case using Nil by (simp add: same_rest_def)
next
  case (Cons c ds)
  note p = rest_Cons [of s c "ds @ r"]
  have c: "jr_Peek s = c" "rest (jr_Take s) = ds @ r" "is_digit c" "digit_val c < 10"
    using p Cons.prems(1,2) digit_val_less by auto
  have f: "unat (n_i64 v) * 10 + digit_val c \<le> max64 (n_minus v)"
    using Cons.prems(5) decimal_grows [of "unat (n_i64 v) * 10 + digit_val c" ds] by simp
  let ?v = "v\<lparr>n_i64 := n_i64 v * 10 + of_nat (digit_val c), n_significandDigit := n_significandDigit v + 1\<rparr>"
  have "int64_loop D v s = int64_loop D ?v (jr_Take s)"
    using f fits64(1) [OF c(4), of "n_minus v" "n_i64 v"] c(1,3)
    by (cases "n_minus v") (auto simp: int64_loop.simps [of D v s] Let_def)
  moreover have "unat (n_i64 ?v) = unat (n_i64 v) * 10 + digit_val c"
    using f fits64(2) [OF c(4), of "n_i64 v" "n_minus v"] by simp
  moreover have "same_rest v w \<longleftrightarrow> same_rest ?v w" for w by (simp add: same_rest_def)
  ultimately show ?case using Cons.IH [of "jr_Take s" ?v] Cons.prems c(2) by simp
qed

text \<open>The decimal notation of a number, read back.\<close>

lemma digit_char_digit: "d < 10 \<Longrightarrow> is_digit (digit_char d) \<and> digit_val (digit_char d) = d"
  by (simp add: is_digit_def digit_val_def digit_char_def of_char_of take_bit_nat_eq_self_iff)

lemma show_nat_decimal: "list_all is_digit (show_nat n) \<and> decimal 0 (show_nat n) = n"
proof (induction n rule: show_nat.induct)
  case (1 n)
  show ?case
  proof (cases "n < 10")
    case True
    then show ?thesis using digit_char_digit [of n] by (simp add: show_nat.simps [of n])
  next
    case False
    then show ?thesis using 1 digit_char_digit [of "n mod 10"] by (simp add: show_nat.simps [of n])
  qed
qed

lemma show_nat_head: "\<exists>c ds. show_nat n = c # ds \<and> is_digit c \<and> (c = CHR ''0'' \<longrightarrow> n = 0 \<and> ds = [])"
proof (induction n rule: show_nat.induct)
  case (1 n)
  show ?case
  proof (cases "n < 10")
    case True
    then have "digit_char n = CHR ''0'' \<longrightarrow> n = 0" using digit_char_digit [of n] by (auto simp: digit_val_def)
    then show ?thesis using True digit_char_digit [of n] by (simp add: show_nat.simps [of n])
  next
    case False
    then show ?thesis using 1 by (auto simp: show_nat.simps [of n])
  qed
qed

lemma parse_int_decimal:
  assumes s: "rest s = show_nat n @ r" and r: "r \<noteq> []" "\<not> is_digit (hd r)"
  shows "\<exists>w t es. parse_int (no_digits neg) s = (Inr w, t) \<and> rest t = es @ r \<and> list_all is_digit es \<and>
    same_rest (no_digits neg) w \<and>
    (if n_use64bit w then decimal (unat (n_i64 w)) es = n else es = [] \<and> unat (n_i w) = n \<and> n \<le> max32 neg)"
proof -
  obtain c ds where c: "show_nat n = c # ds" "is_digit c" "c = CHR ''0'' \<longrightarrow> n = 0 \<and> ds = []"
    using show_nat_head by blast
  note p = rest_Cons [of s c "ds @ r"]
  have t: "jr_Peek s = c" "rest (jr_Take s) = ds @ r" using p s c(1) by simp_all
  show ?thesis
  proof (cases "c = CHR ''0''")
    case True
    then show ?thesis using t c(3) by (simp add: parse_int_def no_digits_def same_rest_def)
  next
    case False
    let ?v = "(no_digits neg)\<lparr>n_i := of_nat (digit_val c)\<rparr>"
    have d: "digit_val c < 10" by (rule digit_val_less [OF c(2)])
    then have u: "unat (n_i ?v) = digit_val c" by (simp add: unat_of_nat)
    have v: "decimal (digit_val c) ds = n" "list_all is_digit ds" using show_nat_decimal [of n] c(1) by simp_all
    have m: "unat (n_i ?v) \<le> max32 (n_minus ?v)" using d u by (simp add: max32_def)
    have "\<not> n_use64bit ?v" by (simp add: no_digits_def)
    from int_loop_decimal [OF v(2) t(2) r this m] obtain w q es where
      w: "int_loop ?v (jr_Take s) = (w, q)" "rest q = es @ r" "list_all is_digit es" "same_rest ?v w"
        "if n_use64bit w then decimal (unat (n_i64 w)) es = decimal (unat (n_i ?v)) ds
         else es = [] \<and> unat (n_i w) = decimal (unat (n_i ?v)) ds \<and> unat (n_i w) \<le> max32 (n_minus ?v)" by blast
    note x = w(5) [unfolded u v(1)]
    have "parse_int (no_digits neg) s = (Inr w, q)" using w(1) t(1) c(2) False by (simp add: parse_int_def)
    moreover have "same_rest (no_digits neg) w" using w(4) by (simp add: same_rest_def)
    ultimately show ?thesis using w(2,3) x by (auto simp: no_digits_def split: if_splits)
  qed
qed

lemma parse_int64_decimal:
  assumes "rest s = es @ r" and "r \<noteq> []" "\<not> is_digit (hd r)" and "list_all is_digit es" and "\<not> n_useDouble v"
    and "n_use64bit v \<Longrightarrow> decimal (unat (n_i64 v)) es \<le> max64 (n_minus v)" and "\<not> n_use64bit v \<Longrightarrow> es = []"
  shows "\<exists>w t. parse_int64 D v s = (w, t) \<and> rest t = r \<and> same_rest v w \<and> n_use64bit w = n_use64bit v \<and>
    (if n_use64bit v then unat (n_i64 w) = decimal (unat (n_i64 v)) es else n_i w = n_i v)"
proof (cases "n_use64bit v")
  case True
  from int64_loop_decimal [OF assms(4,1,2,3) assms(6) [OF True], of D] obtain w t where
    "int64_loop D v s = (w, t)" "rest t = r" "same_rest v w" "n_use64bit w = n_use64bit v"
    "unat (n_i64 w) = decimal (unat (n_i64 v)) es" by blast
  then show ?thesis using True assms(5) by (simp add: parse_int64_def same_rest_def)
next
  case False
  then show ?thesis using assms by (simp add: parse_int64_def same_rest_def)
qed

lemma push_inject [simp]: "push x s = push y t \<longleftrightarrow> x = y \<and> s = t"
  by (cases s, cases t) (auto simp: push_def)

text \<open>Where a number ends.\<close>

definition number_end :: "string \<Rightarrow> bool" where
  "number_end r \<longleftrightarrow> r \<noteq> [] \<and> \<not> is_digit (hd r) \<and> hd r \<noteq> CHR ''.'' \<and> hd r \<noteq> CHR ''e'' \<and> hd r \<noteq> CHR ''E''"

lemma number_end_Peek: "number_end r \<Longrightarrow> rest s = r \<Longrightarrow> jr_Peek s = hd r"
  using rest_Cons(1) [of s "hd r" "tl r"] by (simp add: number_end_def)

lemma frac_exp_none:
  assumes "number_end r" and "rest s = r"
  shows "parse_frac D v s = (Inr v, s)" and "parse_exp D k v s = (Inr v, s)"
  using assms number_end_Peek [OF assms] by (simp_all add: parse_frac_def parse_exp_def Consume_def number_end_def)

lemma sint_negated:
  fixes i :: "'a :: len word"
  assumes "unat i \<le> 2 ^ (LENGTH('a) - 1)"
  shows "sint (NOT i + 1) = - int (unat i)"
proof -
  have e: "NOT i + 1 = word_of_int (- int (unat i))" by (simp add: minus_eq_not_plus_1 [symmetric])
  have "int (unat i) \<le> int (2 ^ (LENGTH('a) - 1))" using assms by (simp only: of_nat_le_iff)
  then have b: "- (2 ^ (LENGTH('a) - Suc 0)) \<le> - int (unat i)" by simp
  have "- int (unat i) < 2 ^ (LENGTH('a) - Suc 0)" by (rule le_less_trans [of _ 0]) simp_all
  then have "signed_take_bit (LENGTH('a) - Suc 0) (- int (unat i)) = - int (unat i)"
    using b by (intro signed_take_bit_int_eq_self)
  then show ?thesis unfolding e signed_of_int by simp
qed

lemma finish_decimal:
  assumes "\<not> n_useDouble v" and "n_minus v = neg" and "n \<le> max64 neg"
    and "if n_use64bit v then unat (n_i64 v) = n else unat (n_i v) = n \<and> n \<le> max32 neg"
  shows "finish_number D k v s = (Inr (), push (NInt (if neg then - int n else int n)) s)"
proof -
  have u: "uint w = int (unat w)" for w :: "'a :: len word" by simp
  show ?thesis
  proof (cases "n_use64bit v")
    case True
    then have "n_minus v \<Longrightarrow> sint (NOT (n_i64 v) + 1) = - int n"
      using assms sint_negated [of "n_i64 v"] by (simp add: max64_def)
    then show ?thesis using True assms u [of "n_i64 v"] by (cases neg) (simp_all add: finish_number_def)
  next
    case False
    then have "n_minus v \<Longrightarrow> sint (NOT (n_i v) + 1) = - int n"
      using assms sint_negated [of "n_i v"] by (simp add: max32_def)
    then show ?thesis using False assms u [of "n_i v"] by (cases neg) (simp_all add: finish_number_def)
  qed
qed

lemma magnitude_read:
  assumes s: "rest s1 = show_nat n @ r" and r: "number_end r" and n: "n \<le> max64 neg" and c: "Consume CHR ''-'' s = (neg, s1)"
  shows "\<exists>u. ParseNumber D s = (Inr (), push (NInt (if neg then - int n else int n)) u) \<and> rest u = r"
proof -
  have d: "r \<noteq> []" "\<not> is_digit (hd r)" using r by (simp_all add: number_end_def)
  from parse_int_decimal [OF s d, of neg] obtain v s2 es where
    v: "parse_int (no_digits neg) s1 = (Inr v, s2)" "rest s2 = es @ r" "list_all is_digit es" "same_rest (no_digits neg) v"
      "if n_use64bit v then decimal (unat (n_i64 v)) es = n else es = [] \<and> unat (n_i v) = n \<and> n \<le> max32 neg" by blast
  have m: "n_minus v = neg" "\<not> n_useDouble v" using v(4) by (simp_all add: same_rest_def no_digits_def)
  have "\<exists>w t. parse_int64 D v s2 = (w, t) \<and> rest t = r \<and> same_rest v w \<and> n_use64bit w = n_use64bit v \<and>
    (if n_use64bit v then unat (n_i64 w) = decimal (unat (n_i64 v)) es else n_i w = n_i v)"
    using parse_int64_decimal [OF v(2) d v(3) m(2)] v(5) n m(1) by (auto split: if_splits)
  then obtain w t where w: "parse_int64 D v s2 = (w, t)" "rest t = r" "same_rest v w" "n_use64bit w = n_use64bit v"
    "if n_use64bit v then unat (n_i64 w) = decimal (unat (n_i64 v)) es else n_i w = n_i v" by blast
  have "finish_number D (jr_src s) w t = (Inr (), push (NInt (if neg then - int n else int n)) t)"
    using w m v(5) n by (intro finish_decimal) (auto simp: same_rest_def split: if_splits)
  then have "ParseNumber D s = (Inr (), push (NInt (if neg then - int n else int n)) t)"
    using c v(1) w(1) frac_exp_none [OF r w(2)] by (simp add: ParseNumber_def pbind_def)
  then show ?thesis using w(2) by blast
qed

lemma number_read:
  assumes s: "rest s = show_int n @ r" and r: "number_end r" and n: "- (2 ^ 63) \<le> n" "n < 2 ^ 64"
  shows "\<exists>u. ParseNumber D s = (Inr (), push (NInt n) u) \<and> rest u = r \<and> reads s u"
proof -
  have "\<exists>u. ParseNumber D s = (Inr (), push (NInt n) u) \<and> rest u = r"
  proof (cases "n < 0")
    case True
    note p = rest_Cons [of s "CHR ''-''" "show_nat (nat (- n)) @ r"]
    have t: "rest (jr_Take s) = show_nat (nat (- n)) @ r" "Consume CHR ''-'' s = (True, jr_Take s)"
      using p s True by (simp_all add: show_int_def Consume_def)
    have "nat (- n) \<le> max64 True" using n by (simp add: max64_def)
    from magnitude_read [OF t(1) r this t(2)] True show ?thesis by simp
  next
    case False
    obtain c ds where c: "show_nat (nat n) = c # ds" "is_digit c" using show_nat_head by blast
    have "jr_Peek s = c" using rest_Cons(1) [of s c "ds @ r"] s c(1) False by (simp add: show_int_def)
    then have t: "Consume CHR ''-'' s = (False, s)" using c(2) by (auto simp: Consume_def is_digit_def)
    have b: "nat n \<le> max64 False" using n by (simp add: max64_def)
    have "rest s = show_nat (nat n) @ r" using s False by (simp add: show_int_def)
    from magnitude_read [OF this r b t] False show ?thesis by simp
  qed
  then obtain u where u: "ParseNumber D s = (Inr (), push (NInt n) u)" "rest u = r" by blast
  with number_cases [OF u(1)] show ?thesis by auto
qed

end
