(* ===== verification/Kes_JsonReader.thy ===== *)
theory Kes_JsonReader
  imports Kes_JsonNumber
begin

text \<open>
  Reading JSON, the documents: the recursive reader (\<^verbatim>\<open>reader.h\<close>) with the document as its handler
  (\<^verbatim>\<open>document.h\<close>), as \<^verbatim>\<open>ParseInsitu\<close> runs it with the default flags. The functions call each other
  on fuel; twice the length of the text is enough, because every second call takes a character. The
  theorems: every text is read without leaving its memory, what the writer prints is read back.
\<close>

section \<open>The handler\<close>

fun pairs :: "node list \<Rightarrow> (node \<times> node) list" where
  "pairs (a # b # xs) = (a, b) # pairs xs"
| "pairs _ = []"

definition EndObject :: "nat \<Rightarrow> reader \<Rightarrow> reader" where
  "EndObject memberCount s =
     s\<lparr>jr_stack := NObj (pairs (rev (take (2 * memberCount) (jr_stack s)))) # drop (2 * memberCount + 1) (jr_stack s)\<rparr>"

definition EndArray :: "nat \<Rightarrow> reader \<Rightarrow> reader" where
  "EndArray elementCount s =
     s\<lparr>jr_stack := NArr (rev (take elementCount (jr_stack s))) # drop (elementCount + 1) (jr_stack s)\<rparr>"

section \<open>The reader\<close>

definition ParseString :: "reader \<Rightarrow> unit parsed" where
  "ParseString s =
     (let s = PutBegin (jr_Take s); head = jr_dst s in
      pbind (ParseStringToStream s) (\<lambda>_ s. (Inr (), push (NStr head (jr_dst s - head - 1)) s)))"

definition parse_literal :: "string \<Rightarrow> node \<Rightarrow> reader \<Rightarrow> unit parsed" where
  "parse_literal cs x s =
     (case Consume_all cs (jr_Take s) of
        (True, s) \<Rightarrow> (Inr (), push x s)
      | (False, s) \<Rightarrow> parse_fail ValueInvalid (jr_src s) s)"

definition ParseNull :: "reader \<Rightarrow> unit parsed" where
  "ParseNull s = parse_literal ''ull'' NNull s"

definition ParseTrue :: "reader \<Rightarrow> unit parsed" where
  "ParseTrue s = parse_literal ''rue'' (NBool True) s"

definition ParseFalse :: "reader \<Rightarrow> unit parsed" where
  "ParseFalse s = parse_literal ''alse'' (NBool False) s"

text \<open>The beginning of an object or an array: is it empty?\<close>

definition start_object :: "reader \<Rightarrow> bool \<times> reader" where
  "start_object s =
     (case Consume (CHR ''}'') (SkipWhitespace (push (NObj []) (jr_Take s))) of
        (True, s) \<Rightarrow> (True, EndObject 0 s)
      | (False, s) \<Rightarrow> (False, s))"

definition start_array :: "reader \<Rightarrow> bool \<times> reader" where
  "start_array s =
     (case Consume (CHR '']'') (SkipWhitespace (push (NArr []) (jr_Take s))) of
        (True, s) \<Rightarrow> (True, EndArray 0 s)
      | (False, s) \<Rightarrow> (False, s))"

fun ParseValue :: "double_ops \<Rightarrow> nat \<Rightarrow> reader \<Rightarrow> unit parsed"
  and ParseMembers :: "double_ops \<Rightarrow> nat \<Rightarrow> nat \<Rightarrow> reader \<Rightarrow> unit parsed"
  and ParseElements :: "double_ops \<Rightarrow> nat \<Rightarrow> nat \<Rightarrow> reader \<Rightarrow> unit parsed" where
  "ParseValue D 0 s = (Inl OutOfFuel, s)"
| "ParseValue D (Suc n) s =
     (let c = jr_Peek s in
      if c = CHR ''n'' then ParseNull s
      else if c = CHR ''t'' then ParseTrue s
      else if c = CHR ''f'' then ParseFalse s
      else if c = CHR 0x22 then ParseString s
      else if c = CHR ''{'' then
        (case start_object s of (True, s) \<Rightarrow> (Inr (), s) | (False, s) \<Rightarrow> ParseMembers D n 0 s)
      else if c = CHR ''['' then
        (case start_array s of (True, s) \<Rightarrow> (Inr (), s) | (False, s) \<Rightarrow> ParseElements D n 0 s)
      else ParseNumber D s)"
| "ParseMembers D 0 k s = (Inl OutOfFuel, s)"
| "ParseMembers D (Suc n) k s =
     (if jr_Peek s \<noteq> CHR 0x22 then parse_fail ObjectMissName (jr_src s) s
      else
        pbind (ParseString s) (\<lambda>_ s.
          case Consume (CHR '':'') (SkipWhitespace s) of
            (False, s) \<Rightarrow> parse_fail ObjectMissColon (jr_src s) s
          | (True, s) \<Rightarrow>
              pbind (ParseValue D n (SkipWhitespace s)) (\<lambda>_ s.
                let s = SkipWhitespace s in
                if jr_Peek s = CHR '','' then ParseMembers D n (Suc k) (SkipWhitespace (jr_Take s))
                else if jr_Peek s = CHR ''}'' then (Inr (), EndObject (Suc k) (jr_Take s))
                else parse_fail ObjectMissCommaOrCurlyBracket (jr_src s) s)))"
| "ParseElements D 0 k s = (Inl OutOfFuel, s)"
| "ParseElements D (Suc n) k s =
     pbind (ParseValue D n s) (\<lambda>_ s.
       let s = SkipWhitespace s in
       if jr_Peek s = CHR '','' then ParseElements D n (Suc k) (SkipWhitespace (jr_Take s))
       else if jr_Peek s = CHR '']'' then (Inr (), EndArray (Suc k) (jr_Take s))
       else parse_fail ArrayMissCommaOrSquareBracket (jr_src s) s)"

definition Parse :: "double_ops \<Rightarrow> nat \<Rightarrow> reader \<Rightarrow> unit parsed" where
  "Parse D n s =
     (let s = SkipWhitespace s in
      if jr_Peek s = NUL then parse_fail DocumentEmpty (jr_src s) s
      else
        pbind (ParseValue D n s) (\<lambda>_ s.
          let s = SkipWhitespace s in
          if jr_Peek s \<noteq> NUL then parse_fail DocumentRootNotSingular (jr_src s) s else (Inr (), s)))"

section \<open>The document\<close>

text \<open>What a node stands for, once the text has its final form.\<close>

fun node_text :: "string \<Rightarrow> node \<Rightarrow> string" where
  "node_text mem (NStr p l) = take l (drop p mem)"
| "node_text mem _ = []"

lemma size_node_member: "(k, x) \<in> set ms \<Longrightarrow> size x < Suc (size_list (size_prod size size) ms)"
  by (induction ms) auto

function resolve :: "string \<Rightarrow> node \<Rightarrow> json" where
  "resolve mem NNull = JNull"
| "resolve mem (NBool b) = JBool b"
| "resolve mem (NInt i) = JInt i"
| "resolve mem (NDouble d) = JDouble d"
| "resolve mem (NStr p l) = JStr (node_text mem (NStr p l))"
| "resolve mem (NArr xs) = JArr (map (resolve mem) xs)"
| "resolve mem (NObj ms) = JObj (map (\<lambda>m. (node_text mem (fst m), resolve mem (snd m))) ms)"
  by pat_completeness auto
termination
proof (relation "measure (\<lambda>(mem, x). size x)")
  show "((mem, x), mem, NArr xs) \<in> measure (\<lambda>(mem, x). size x)" if "x \<in> set xs" for mem :: string and x xs
    using that by (induction xs) auto
  show "((mem, snd m), mem, NObj ms) \<in> measure (\<lambda>(mem, x). size x)" if "m \<in> set ms" for mem :: string and m ms
    using that size_node_member [of "fst m" "snd m" ms] by simp
qed simp

definition reader_of :: "string \<Rightarrow> reader" where
  "reader_of text = \<lparr>jr_mem = text @ [NUL], jr_src = 0, jr_dst = 0, jr_stack = []\<rparr>"

definition ParseInsitu :: "double_ops \<Rightarrow> string \<Rightarrow> string \<times> nat + json" where
  "ParseInsitu D text =
     (case Parse D (2 * length text + 3) (reader_of text) of
        (Inl (Failed e off), s) \<Rightarrow> Inl (GetParseError_En e, off)
      | (Inl OutOfFuel, s) \<Rightarrow> Inl ([], 0)
      | (Inr _, s) \<Rightarrow> Inr (resolve (jr_mem s) (hd (jr_stack s))))"

section \<open>Nothing leaves the text\<close>

text \<open>The pointers of a node lie in a part of the text.\<close>

function within :: "nat \<Rightarrow> nat \<Rightarrow> node \<Rightarrow> bool" where
  "within lo hi NNull = True"
| "within lo hi (NBool b) = True"
| "within lo hi (NInt i) = True"
| "within lo hi (NDouble d) = True"
| "within lo hi (NStr p l) = (lo \<le> p \<and> p + l \<le> hi)"
| "within lo hi (NArr xs) = (\<forall>x \<in> set xs. within lo hi x)"
| "within lo hi (NObj ms) = (\<forall>m \<in> set ms. within lo hi (fst m) \<and> within lo hi (snd m))"
  by pat_completeness auto
termination
proof (relation "measure (\<lambda>(lo, hi, x). size x)")
  show "((lo, hi, x), lo, hi, NArr xs) \<in> measure (\<lambda>(lo, hi, x). size x)" if "x \<in> set xs" for lo hi :: nat and x xs
    using that by (induction xs) auto
  show "((lo, hi, fst m), lo, hi, NObj ms) \<in> measure (\<lambda>(lo, hi, x). size x)" if "m \<in> set ms" for lo hi :: nat and m ms
    using that by (induction ms) (auto simp: less_Suc_eq_le)
  show "((lo, hi, snd m), lo, hi, NObj ms) \<in> measure (\<lambda>(lo, hi, x). size x)" if "m \<in> set ms" for lo hi :: nat and m ms
    using that size_node_member [of "fst m" "snd m" ms] by simp
qed simp

lemma within_mono: "within lo hi x \<Longrightarrow> lo' \<le> lo \<Longrightarrow> hi \<le> hi' \<Longrightarrow> within lo' hi' x"
  by (induction lo hi x rule: within.induct) auto

lemma within_number: "is_number x \<Longrightarrow> within lo hi x"
  by (cases x) auto

lemma pairs_set: "m \<in> set (pairs xs) \<Longrightarrow> fst m \<in> set xs \<and> snd m \<in> set xs"
  by (induction xs rule: pairs.induct) auto

lemma push_fields [simp]:
  "jr_mem (push x s) = jr_mem s" "jr_src (push x s) = jr_src s" "jr_dst (push x s) = jr_dst s"
  "jr_stack (push x s) = x # jr_stack s" "jr_Peek (push x s) = jr_Peek s" "jr_inv (push x s) = jr_inv s"
  "jr_step k s' (push x s) = jr_step k s' s" "left (push x s) = left s"
  by (simp_all add: push_def)

lemma push_step: "jr_inv s \<Longrightarrow> jr_step k s (push x s)"
  by (simp add: jr_step_refl)

lemma EndObject_fields [simp]:
  "jr_mem (EndObject k s) = jr_mem s" "jr_src (EndObject k s) = jr_src s" "jr_inv (EndObject k s) = jr_inv s"
  "jr_step i s' (EndObject k s) = jr_step i s' s"
  by (simp_all add: EndObject_def)

lemma EndArray_fields [simp]:
  "jr_mem (EndArray k s) = jr_mem s" "jr_src (EndArray k s) = jr_src s" "jr_inv (EndArray k s) = jr_inv s"
  "jr_step i s' (EndArray k s) = jr_step i s' s"
  by (simp_all add: EndArray_def)

lemma EndObject_stack:
  "jr_stack s = xs @ y # base \<Longrightarrow> length xs = 2 * k \<Longrightarrow> jr_stack (EndObject k s) = NObj (pairs (rev xs)) # base"
  by (simp add: EndObject_def)

lemma EndArray_stack:
  "jr_stack s = xs @ y # base \<Longrightarrow> length xs = k \<Longrightarrow> jr_stack (EndArray k s) = NArr (rev xs) # base"
  by (simp add: EndArray_def)

text \<open>What a part that reads one value does.\<close>

definition value_ok :: "reader \<Rightarrow> unit parsed \<Rightarrow> bool" where
  "value_ok s p \<longleftrightarrow> (case p of (r, t) \<Rightarrow> jr_step (jr_src s) s t \<and> ends_ok (jr_src s) (r, t) \<and>
     (\<not> isl r \<longrightarrow> jr_src s < jr_src t \<and> (\<exists>x. jr_stack t = x # jr_stack s \<and> within (jr_src s) (jr_src t) x)))"

lemma value_okD:
  assumes "value_ok s (r, t)"
  shows "jr_step (jr_src s) s t" "ends_ok (jr_src s) (r, t)"
    "\<not> isl r \<Longrightarrow> jr_src s < jr_src t \<and> (\<exists>x. jr_stack t = x # jr_stack s \<and> within (jr_src s) (jr_src t) x)"
  using assms by (simp_all add: value_ok_def)

lemma string_value: "jr_inv s \<Longrightarrow> jr_Peek s = CHR 0x22 \<Longrightarrow> value_ok s (ParseString s)"
proof -
  assume s: "jr_inv s" "jr_Peek s = CHR 0x22"
  let ?u = "PutBegin (jr_Take s)"
  have a: "jr_step k s (jr_Take s)" for k by (rule Take_step) (simp_all add: s)
  then have u: "jr_step k s ?u" for k by (rule jr_step_trans1 [OF _ PutBegin_step [OF jr_stepD(1)]]) (rule a)
  obtain r t where t: "ParseStringToStream ?u = (r, t)" by (cases "ParseStringToStream ?u")
  have b: "jr_step (jr_src s) ?u t" "jr_stack t = jr_stack s" "isl r \<or> jr_src s + 1 < jr_dst t \<and> jr_src s + 1 < jr_src t"
    using string_step [OF jr_stepD(1) [OF u] _ t, of "jr_src s"] by simp_all
  have c: "jr_step (jr_src s) s t" by (rule jr_step_trans1 [OF u b(1)])
  have d: "jr_dst t \<le> jr_src t" using jr_stepD(1) [OF c] by (simp add: jr_inv_def)
  have e: "ends_ok (jr_src s) (r, t)" using ends_ok_le [OF string_ends [OF t]] by simp
  show ?thesis
  proof (cases r)
    case (Inl f)
    then show ?thesis using t c e by (simp add: ParseString_def pbind_def value_ok_def)
  next
    case (Inr a)
    then show ?thesis using t b c d by (auto simp: ParseString_def pbind_def value_ok_def)
  qed
qed

lemma literal_value:
  assumes "jr_inv s" and "jr_Peek s \<noteq> NUL" and "NUL \<notin> set cs" and "within (jr_src s) (jr_src s) x"
  shows "value_ok s (parse_literal cs x s)"
proof -
  have a: "jr_step (jr_src s) s (jr_Take s)" by (rule Take_step [OF assms(1,2)])
  obtain b t where t: "Consume_all cs (jr_Take s) = (b, t)" by (cases "Consume_all cs (jr_Take s)")
  have c: "jr_step (jr_src s) (jr_Take s) t" "jr_stack t = jr_stack s"
    using Consume_all_step [OF jr_stepD(1) [OF a] assms(3) t] reads_Consume_all [OF assms(3) t] by (simp_all add: reads_def)
  have d: "jr_step (jr_src s) s t" by (rule jr_step_trans1 [OF a c(1)])
  have "jr_src s < jr_src t" using jr_stepD(2) [OF c(1)] by simp
  then show ?thesis
    using t d c(2) within_mono [OF assms(4) order_refl, of "jr_src t"]
    by (cases b) (simp_all add: parse_literal_def parse_fail_def value_ok_def)
qed

lemma number_value: "jr_inv s \<Longrightarrow> value_ok s (ParseNumber D s)"
proof -
  assume s: "jr_inv s"
  obtain r t where t: "ParseNumber D s = (r, t)" by (cases "ParseNumber D s")
  from number_cases [OF t] obtain u where u: "reads s u" "ends_ok (jr_src s) (r, t)"
    "(\<exists>x. r = Inr () \<and> is_number x \<and> t = push x u \<and> jr_src s < jr_src u) \<or> (isl r \<and> t = u)" by blast
  then show ?thesis
    using t reads_step [OF u(1) s, of "jr_src s"] by (auto simp: value_ok_def reads_def within_number)
qed

lemma start_object_step:
  assumes "jr_inv s" and "jr_Peek s = CHR ''{''" and "start_object s = (b, t)"
  shows "jr_step (jr_src s) s t \<and> jr_src s < jr_src t \<and> jr_stack t = NObj [] # jr_stack s"
proof -
  let ?u = "push (NObj []) (jr_Take s)"
  have a: "jr_step (jr_src s) s ?u" using assms(1,2) by (simp add: Take_step)
  then have c: "jr_step (jr_src s) ?u (SkipWhitespace ?u)" "jr_stack (SkipWhitespace ?u) = NObj [] # jr_stack s"
    using SkipWhitespace_step [OF jr_stepD(1) [OF a], of "jr_src s"] by simp_all
  obtain d v where v: "Consume (CHR ''}'') (SkipWhitespace ?u) = (d, v)" by (cases "Consume (CHR ''}'') (SkipWhitespace ?u)")
  have e: "jr_step (jr_src s) (SkipWhitespace ?u) v" "jr_stack v = NObj [] # jr_stack s"
    using Consume_step [OF jr_stepD(1) [OF c(1)] _ v] Consume_cases [OF v] c(2) by auto
  have "jr_step (jr_src s) s v" by (rule jr_step_trans1 [OF jr_step_trans1 [OF a c(1)] e(1)])
  moreover have "jr_src s < jr_src v" using jr_stepD(2) [OF c(1)] jr_stepD(2) [OF e(1)] by simp
  ultimately show ?thesis using assms(3) v e(2) by (auto simp: start_object_def EndObject_def split: bool.splits)
qed

lemma start_array_step:
  assumes "jr_inv s" and "jr_Peek s = CHR ''[''" and "start_array s = (b, t)"
  shows "jr_step (jr_src s) s t \<and> jr_src s < jr_src t \<and> jr_stack t = NArr [] # jr_stack s"
proof -
  let ?u = "push (NArr []) (jr_Take s)"
  have a: "jr_step (jr_src s) s ?u" using assms(1,2) by (simp add: Take_step)
  then have c: "jr_step (jr_src s) ?u (SkipWhitespace ?u)" "jr_stack (SkipWhitespace ?u) = NArr [] # jr_stack s"
    using SkipWhitespace_step [OF jr_stepD(1) [OF a], of "jr_src s"] by simp_all
  obtain d v where v: "Consume (CHR '']'') (SkipWhitespace ?u) = (d, v)" by (cases "Consume (CHR '']'') (SkipWhitespace ?u)")
  have e: "jr_step (jr_src s) (SkipWhitespace ?u) v" "jr_stack v = NArr [] # jr_stack s"
    using Consume_step [OF jr_stepD(1) [OF c(1)] _ v] Consume_cases [OF v] c(2) by auto
  have "jr_step (jr_src s) s v" by (rule jr_step_trans1 [OF jr_step_trans1 [OF a c(1)] e(1)])
  moreover have "jr_src s < jr_src v" using jr_stepD(2) [OF c(1)] jr_stepD(2) [OF e(1)] by simp
  ultimately show ?thesis using assms(3) v e(2) by (auto simp: start_array_def EndArray_def split: bool.splits)
qed

definition list_ok :: "nat \<Rightarrow> node list \<Rightarrow> reader \<Rightarrow> unit parsed \<Rightarrow> bool" where
  "list_ok lo base s p \<longleftrightarrow> (case p of (r, t) \<Rightarrow> jr_step (jr_src s) s t \<and> ends_ok (jr_src s) (r, t) \<and>
     (\<not> isl r \<longrightarrow> jr_src s \<le> jr_src t \<and> (\<exists>x. jr_stack t = x # base \<and> within lo (jr_src t) x)))"

text \<open>What is on the stack while a list of \<open>k\<close> values is open.\<close>

definition open_list :: "nat \<Rightarrow> nat \<Rightarrow> node list \<Rightarrow> reader \<Rightarrow> bool" where
  "open_list k lo base s \<longleftrightarrow>
     (\<exists>xs y. jr_stack s = xs @ y # base \<and> length xs = k \<and> (\<forall>x \<in> set xs. within lo (jr_src s) x)) \<and> lo \<le> jr_src s"

lemma open_list_push:
  "open_list k lo base s \<Longrightarrow> jr_stack t = x # jr_stack s \<Longrightarrow> within lo (jr_src t) x \<Longrightarrow> jr_src s \<le> jr_src t \<Longrightarrow>
     open_list (Suc k) lo base t"
proof -
  assume "open_list k lo base s" and t: "jr_stack t = x # jr_stack s" "within lo (jr_src t) x" "jr_src s \<le> jr_src t"
  then obtain xs y where "jr_stack s = xs @ y # base" "length xs = k" "\<forall>z \<in> set xs. within lo (jr_src s) z" "lo \<le> jr_src s"
    by (auto simp: open_list_def)
  then have "jr_stack t = (x # xs) @ y # base" "length (x # xs) = Suc k" "\<forall>z \<in> set (x # xs). within lo (jr_src t) z" "lo \<le> jr_src t"
    using t by (auto intro: within_mono)
  then show "open_list (Suc k) lo base t" unfolding open_list_def by blast
qed

lemma open_list_mono:
  "open_list k lo base s \<Longrightarrow> jr_stack t = jr_stack s \<Longrightarrow> jr_src s \<le> jr_src t \<Longrightarrow> open_list k lo base t"
  unfolding open_list_def by (fastforce intro: within_mono)

lemma EndArray_list:
  assumes "open_list k lo base s"
  shows "\<exists>x. jr_stack (EndArray k s) = x # base \<and> within lo (jr_src s) x"
proof -
  from assms obtain xs y where x: "jr_stack s = xs @ y # base" "length xs = k" "\<forall>x \<in> set xs. within lo (jr_src s) x"
    by (auto simp: open_list_def)
  then show ?thesis using EndArray_stack [OF x(1,2)] by simp
qed

lemma EndObject_list:
  assumes "open_list (2 * k) lo base s"
  shows "\<exists>x. jr_stack (EndObject k s) = x # base \<and> within lo (jr_src s) x"
proof -
  from assms obtain xs y where x: "jr_stack s = xs @ y # base" "length xs = 2 * k" "\<forall>x \<in> set xs. within lo (jr_src s) x"
    by (auto simp: open_list_def)
  then show ?thesis using EndObject_stack [OF x(1,2)] pairs_set [of _ "rev xs"] by fastforce
qed

text \<open>White space in front of the next part.\<close>

lemma skipped:
  assumes "jr_inv s"
  shows "jr_inv (SkipWhitespace s)" "jr_step k s (SkipWhitespace s)" "jr_src s \<le> jr_src (SkipWhitespace s)"
    "jr_stack (SkipWhitespace s) = jr_stack s" "left (SkipWhitespace s) \<le> left s"
  using SkipWhitespace_step [OF assms, of k] jr_stepD jr_step_left by blast+

lemma list_ok_after:
  assumes "jr_step (jr_src s) s u" and "list_ok lo base u (r, t)"
  shows "list_ok lo base s (r, t)"
  using assms jr_step_trans [of "jr_src s" s u "jr_src u" t] jr_stepD(2) [OF assms(1)]
  by (auto simp: list_ok_def intro: ends_ok_le)

text \<open>A separator or a closing bracket after a value, in arrays and objects alike.\<close>

lemma after_value:
  assumes v: "jr_inv v" and u: "jr_step (jr_src s) s v" and o: "open_list m lo base v"
    and again: "\<And>w. jr_inv w \<Longrightarrow> left w < left v \<Longrightarrow> open_list m lo base w \<Longrightarrow> list_ok lo base w (again w)"
    and close: "\<And>w. open_list m lo base w \<Longrightarrow>
      jr_src (fin w) = jr_src w \<and> (jr_step (jr_src s) s w \<longrightarrow> jr_step (jr_src s) s (fin w)) \<and>
      (\<exists>x. jr_stack (fin w) = x # base \<and> within lo (jr_src w) x)"
    and c: "c \<noteq> NUL" and p: "p = (let w = SkipWhitespace v in
      if jr_Peek w = CHR '','' then again (SkipWhitespace (jr_Take w))
      else if jr_Peek w = c then (Inr (), fin (jr_Take w))
      else parse_fail e (jr_src w) w)"
  shows "list_ok lo base s p"
proof -
  let ?w = "SkipWhitespace v"
  note w = skipped [OF v]
  have sw: "jr_step (jr_src s) s ?w" by (rule jr_step_trans1 [OF u w(2)])
  have ow: "open_list m lo base ?w" by (rule open_list_mono [OF o w(4,3)])
  have sl: "jr_src s \<le> jr_src ?w" by (rule jr_stepD(2) [OF sw])
  consider (comma) "jr_Peek ?w = CHR '',''" | (close) "jr_Peek ?w \<noteq> CHR '',''" "jr_Peek ?w = c"
    | (neither) "jr_Peek ?w \<noteq> CHR '',''" "jr_Peek ?w \<noteq> c" by blast
  then show ?thesis
  proof cases
    case comma
    let ?x = "SkipWhitespace (jr_Take ?w)"
    have n: "jr_Peek ?w \<noteq> NUL" using comma by simp
    have t: "jr_step (jr_src s) s (jr_Take ?w)" by (rule jr_step_trans1 [OF sw Take_step [OF w(1) n]])
    note x = skipped [OF jr_stepD(1) [OF t]]
    have "left ?x < left v" using x(5) left_Take [OF n] w(5) by linarith
    moreover have "open_list m lo base ?x" using open_list_mono [OF ow] x(3,4) by simp
    ultimately have "list_ok lo base ?x (again ?x)" using again x(1) by blast
    then show ?thesis
      using list_ok_after [OF jr_step_trans1 [OF t x(2)]] comma p by (cases "again ?x") simp
  next
    case close: close
    then have n: "jr_Peek ?w \<noteq> NUL" using c by simp
    have t: "jr_step (jr_src s) s (jr_Take ?w)" by (rule jr_step_trans1 [OF sw Take_step [OF w(1) n]])
    have "open_list m lo base (jr_Take ?w)" using open_list_mono [OF ow] by simp
    then show ?thesis using assms(5) [of "jr_Take ?w"] t close sl p by (auto simp: list_ok_def)
  next
    case neither
    then show ?thesis using sw sl p by (simp add: list_ok_def parse_fail_def Let_def)
  qed
qed

lemma step_less_left: "jr_step k s t \<Longrightarrow> jr_src s < jr_src t \<Longrightarrow> left t < left s"
  by (auto simp: jr_step_def jr_inv_def left_def)

lemma value_list:
  assumes "value_ok s (r, u)" and "isl r"
  shows "list_ok lo base s (r, u)"
  using assms by (simp add: value_ok_def list_ok_def)

lemma value_push:
  assumes "value_ok s (Inr a, t)" and "open_list k lo base s"
  shows "open_list (Suc k) lo base t"
proof -
  from value_okD(3) [OF assms(1)] obtain x where x: "jr_src s < jr_src t" "jr_stack t = x # jr_stack s"
    "within (jr_src s) (jr_src t) x" by auto
  have "lo \<le> jr_src s" using assms(2) by (auto simp: open_list_def)
  then have "within lo (jr_src t) x" using x(3) by (auto intro: within_mono)
  then show ?thesis using open_list_push [OF assms(2) x(2)] x(1) by simp
qed

lemma elements_step:
  assumes val: "\<And>s. jr_inv s \<Longrightarrow> 2 * left s + 1 \<le> n \<Longrightarrow> value_ok s (ParseValue D n s)"
    and elements: "\<And>k s. jr_inv s \<Longrightarrow> 2 * left s + 2 \<le> n \<Longrightarrow> open_list k lo base s \<Longrightarrow> list_ok lo base s (ParseElements D n k s)"
    and s: "jr_inv s" "2 * left s + 2 \<le> Suc n" "open_list k lo base s"
  shows "list_ok lo base s (ParseElements D (Suc n) k s)"
proof -
  obtain r v where v: "ParseValue D n s = (r, v)" by (cases "ParseValue D n s")
  have ok: "value_ok s (r, v)" using val [OF s(1)] s(2) v by simp
  show ?thesis
  proof (cases r)
    case (Inl f)
    then show ?thesis using value_list [OF ok, of lo base] v by (simp add: pbind_def)
  next
    case (Inr a)
    note okD = value_okD [OF ok]
    have l: "left v < left s" using okD Inr by (intro step_less_left) auto
    have "list_ok lo base s (let w = SkipWhitespace v in
        if jr_Peek w = CHR '','' then ParseElements D n (Suc k) (SkipWhitespace (jr_Take w))
        else if jr_Peek w = CHR '']'' then (Inr (), EndArray (Suc k) (jr_Take w))
        else parse_fail ArrayMissCommaOrSquareBracket (jr_src w) w)"
    proof (rule after_value [where v = v and m = "Suc k" and again = "ParseElements D n (Suc k)" and fin = "EndArray (Suc k)"])
      show "list_ok lo base w (ParseElements D n (Suc k) w)"
        if "jr_inv w" "left w < left v" "open_list (Suc k) lo base w" for w
        using elements [of w "Suc k"] that l s(2) by simp
      show "jr_src (EndArray (Suc k) w) = jr_src w \<and>
        (jr_step (jr_src s) s w \<longrightarrow> jr_step (jr_src s) s (EndArray (Suc k) w)) \<and>
        (\<exists>x. jr_stack (EndArray (Suc k) w) = x # base \<and> within lo (jr_src w) x)" if "open_list (Suc k) lo base w" for w
        using EndArray_list [OF that] by simp
    qed (use okD(1) jr_stepD(1) value_push [of s a v k lo base] ok s(3) Inr in auto)
    then show ?thesis using v Inr by (simp add: pbind_def Let_def)
  qed
qed

text \<open>The value of a member and what follows it; the colon in front of it; its name.\<close>

lemma members_value_step:
  assumes s: "jr_inv s" "2 * left s + 2 \<le> n" "open_list (Suc (2 * k)) lo base s"
    and val: "\<And>s. jr_inv s \<Longrightarrow> 2 * left s + 1 \<le> n \<Longrightarrow> value_ok s (ParseValue D n s)"
    and members: "\<And>k s. jr_inv s \<Longrightarrow> 2 * left s + 2 \<le> n \<Longrightarrow> open_list (2 * k) lo base s \<Longrightarrow> list_ok lo base s (ParseMembers D n k s)"
  shows "list_ok lo base s (pbind (ParseValue D n s) (\<lambda>_ v. let w = SkipWhitespace v in
      if jr_Peek w = CHR '','' then ParseMembers D n (Suc k) (SkipWhitespace (jr_Take w))
      else if jr_Peek w = CHR ''}'' then (Inr (), EndObject (Suc k) (jr_Take w))
      else parse_fail ObjectMissCommaOrCurlyBracket (jr_src w) w))"
proof -
  obtain r v where v: "ParseValue D n s = (r, v)" by (cases "ParseValue D n s")
  have ok: "value_ok s (r, v)" using val [OF s(1)] s(2) v by simp
  note okD = value_okD [OF ok]
  show ?thesis
  proof (cases r)
    case (Inl f)
    then show ?thesis using value_list [OF ok, of lo base] v by (simp add: pbind_def)
  next
    case (Inr b)
    have l: "left v \<le> left s" by (rule jr_step_left [OF okD(1)])
    have o: "open_list (2 * Suc k) lo base v" using value_push [of s b v] ok Inr s(3) by simp
    have "list_ok lo base s (let w = SkipWhitespace v in
        if jr_Peek w = CHR '','' then ParseMembers D n (Suc k) (SkipWhitespace (jr_Take w))
        else if jr_Peek w = CHR ''}'' then (Inr (), EndObject (Suc k) (jr_Take w))
        else parse_fail ObjectMissCommaOrCurlyBracket (jr_src w) w)"
    proof (rule after_value [where v = v and m = "2 * Suc k" and again = "ParseMembers D n (Suc k)" and fin = "EndObject (Suc k)"])
      show "list_ok lo base w (ParseMembers D n (Suc k) w)"
        if "jr_inv w" "left w < left v" "open_list (2 * Suc k) lo base w" for w
        using members [of w "Suc k"] that l s(2) by simp
      show "jr_src (EndObject (Suc k) w) = jr_src w \<and>
        (jr_step (jr_src s) s w \<longrightarrow> jr_step (jr_src s) s (EndObject (Suc k) w)) \<and>
        (\<exists>x. jr_stack (EndObject (Suc k) w) = x # base \<and> within lo (jr_src w) x)" if "open_list (2 * Suc k) lo base w" for w
        using EndObject_list [OF that] by simp
    qed (use okD(1) jr_stepD(1) [OF okD(1)] o in auto)
    then show ?thesis using v Inr by (simp add: pbind_def)
  qed
qed

lemma members_colon_step:
  assumes s: "jr_inv s" "2 * left s + 2 \<le> n" "open_list (Suc (2 * k)) lo base s"
    and val: "\<And>s. jr_inv s \<Longrightarrow> 2 * left s + 1 \<le> n \<Longrightarrow> value_ok s (ParseValue D n s)"
    and members: "\<And>k s. jr_inv s \<Longrightarrow> 2 * left s + 2 \<le> n \<Longrightarrow> open_list (2 * k) lo base s \<Longrightarrow> list_ok lo base s (ParseMembers D n k s)"
  shows "list_ok lo base s (case Consume (CHR '':'') (SkipWhitespace s) of
      (False, s) \<Rightarrow> parse_fail ObjectMissColon (jr_src s) s
    | (True, s) \<Rightarrow>
        pbind (ParseValue D n (SkipWhitespace s)) (\<lambda>_ v. let w = SkipWhitespace v in
          if jr_Peek w = CHR '','' then ParseMembers D n (Suc k) (SkipWhitespace (jr_Take w))
          else if jr_Peek w = CHR ''}'' then (Inr (), EndObject (Suc k) (jr_Take w))
          else parse_fail ObjectMissCommaOrCurlyBracket (jr_src w) w))"
    (is "list_ok lo base s (case Consume _ ?u of (False, s) \<Rightarrow> _ | (True, s) \<Rightarrow> ?value s)")
proof (cases "jr_Peek ?u = CHR '':''")
  note w = skipped [OF s(1)]
  case False
  then show ?thesis using w(2) [of "jr_src s"] w(3) by (simp add: Consume_def list_ok_def parse_fail_def)
next
  note w = skipped [OF s(1)]
  case colon: True
  then have n: "jr_Peek ?u \<noteq> NUL" by simp
  let ?x = "SkipWhitespace (jr_Take ?u)"
  have t: "jr_step (jr_src s) s (jr_Take ?u)" by (rule jr_step_trans1 [OF w(2) Take_step [OF w(1) n]])
  note x = skipped [OF jr_stepD(1) [OF t]]
  have l: "2 * left ?x + 2 \<le> n" using x(5) left_Take [OF n] w(5) s(2) by linarith
  have o: "open_list (Suc (2 * k)) lo base ?x" using open_list_mono [OF s(3)] w(3,4) x(3,4) by simp
  obtain r v where v: "?value (jr_Take ?u) = (r, v)" by (cases "?value (jr_Take ?u)")
  have "list_ok lo base ?x (r, v)" using members_value_step [OF x(1) l o val members] v by simp
  then have "list_ok lo base s (r, v)" by (rule list_ok_after [OF jr_step_trans1 [OF t x(2)]])
  then show ?thesis using v colon by (simp add: Consume_def)
qed

lemma members_step:
  assumes s: "jr_inv s" "2 * left s + 2 \<le> Suc n" "open_list (2 * k) lo base s"
    and val: "\<And>s. jr_inv s \<Longrightarrow> 2 * left s + 1 \<le> n \<Longrightarrow> value_ok s (ParseValue D n s)"
    and members: "\<And>k s. jr_inv s \<Longrightarrow> 2 * left s + 2 \<le> n \<Longrightarrow> open_list (2 * k) lo base s \<Longrightarrow> list_ok lo base s (ParseMembers D n k s)"
  shows "list_ok lo base s (ParseMembers D (Suc n) k s)"
proof (cases "jr_Peek s = CHR 0x22")
  case False
  then show ?thesis using s(1) by (simp add: list_ok_def parse_fail_def jr_step_refl)
next
  case quote: True
  obtain r t where t: "ParseString s = (r, t)" by (cases "ParseString s")
  have ok: "value_ok s (r, t)" using string_value [OF s(1) quote] t by simp
  note okD = value_okD [OF ok]
  show ?thesis
  proof (cases r)
    case (Inl f)
    then show ?thesis using value_list [OF ok, of lo base] t quote by (simp add: pbind_def)
  next
    case (Inr a)
    have "left t < left s" using okD Inr by (intro step_less_left) auto
    then have l: "2 * left t + 2 \<le> n" using s(2) by simp
    have o: "open_list (Suc (2 * k)) lo base t" using value_push [of s a t] ok Inr s(3) by simp
    obtain r' v where v: "ParseMembers D (Suc n) k s = (r', v)" by (cases "ParseMembers D (Suc n) k s")
    have "list_ok lo base t (r', v)"
      using members_colon_step [OF jr_stepD(1) [OF okD(1)] l o val members] v t Inr quote
      by (simp add: pbind_def)
    then show ?thesis using list_ok_after [OF okD(1)] v by simp
  qed
qed

lemma list_value:
  assumes "jr_step (jr_src s) s t" and "jr_src s < jr_src t" and "list_ok (jr_src s) (jr_stack s) t p"
  shows "value_ok s p"
proof -
  obtain r u where p: "p = (r, u)" by (cases p)
  have "list_ok (jr_src s) (jr_stack s) s p" using list_ok_after [OF assms(1)] assms(3) p by simp
  moreover have "\<not> isl r \<longrightarrow> jr_src t \<le> jr_src u" using assms(3) p by (simp add: list_ok_def)
  ultimately show ?thesis using assms(2) p by (auto simp: value_ok_def list_ok_def)
qed

lemma object_step:
  assumes s: "jr_inv s" "2 * left s + 1 \<le> Suc n" "jr_Peek s = CHR ''{''"
    and inside: "\<And>k lo base s. jr_inv s \<Longrightarrow> 2 * left s + 2 \<le> n \<Longrightarrow> open_list (2 * k) lo base s \<Longrightarrow>
      list_ok lo base s (ParseMembers D n k s)"
  shows "value_ok s (case start_object s of (True, s) \<Rightarrow> (Inr (), s) | (False, s) \<Rightarrow> ParseMembers D n 0 s)"
proof -
  obtain b t where t: "start_object s = (b, t)" by (cases "start_object s")
  note st = start_object_step [OF s(1,3) t]
  have "open_list (2 * 0) (jr_src s) (jr_stack s) t" using st by (simp add: open_list_def)
  moreover have "2 * left t + 2 \<le> n" using step_less_left [of "jr_src s" s t] st s(2) by simp
  ultimately have "list_ok (jr_src s) (jr_stack s) t (ParseMembers D n 0 t)" using inside jr_stepD(1) st by blast
  then show ?thesis using list_value [of s t] st t by (cases b) (simp_all add: value_ok_def)
qed

lemma array_step:
  assumes s: "jr_inv s" "2 * left s + 1 \<le> Suc n" "jr_Peek s = CHR ''[''"
    and inside: "\<And>k lo base s. jr_inv s \<Longrightarrow> 2 * left s + 2 \<le> n \<Longrightarrow> open_list k lo base s \<Longrightarrow>
      list_ok lo base s (ParseElements D n k s)"
  shows "value_ok s (case start_array s of (True, s) \<Rightarrow> (Inr (), s) | (False, s) \<Rightarrow> ParseElements D n 0 s)"
proof -
  obtain b t where t: "start_array s = (b, t)" by (cases "start_array s")
  note st = start_array_step [OF s(1,3) t]
  have "open_list 0 (jr_src s) (jr_stack s) t" using st by (simp add: open_list_def)
  moreover have "2 * left t + 2 \<le> n" using step_less_left [of "jr_src s" s t] st s(2) by simp
  ultimately have "list_ok (jr_src s) (jr_stack s) t (ParseElements D n 0 t)" using inside jr_stepD(1) st by blast
  then show ?thesis using list_value [of s t] st t by (cases b) (simp_all add: value_ok_def)
qed

lemma value_step:
  assumes members: "\<And>k lo base s. jr_inv s \<Longrightarrow> 2 * left s + 2 \<le> n \<Longrightarrow> open_list (2 * k) lo base s \<Longrightarrow>
      list_ok lo base s (ParseMembers D n k s)"
    and elements: "\<And>k lo base s. jr_inv s \<Longrightarrow> 2 * left s + 2 \<le> n \<Longrightarrow> open_list k lo base s \<Longrightarrow>
      list_ok lo base s (ParseElements D n k s)"
    and s: "jr_inv s" "2 * left s + 1 \<le> Suc n"
  shows "value_ok s (ParseValue D (Suc n) s)"
proof -
  consider (literal) "jr_Peek s = CHR ''n'' \<or> jr_Peek s = CHR ''t'' \<or> jr_Peek s = CHR ''f''"
    | (string) "jr_Peek s = CHR 0x22" | (object) "jr_Peek s = CHR ''{''" | (array) "jr_Peek s = CHR ''[''"
    | (number) "jr_Peek s \<notin> {CHR ''n'', CHR ''t'', CHR ''f'', CHR 0x22, CHR ''{'', CHR ''[''}" by blast
  then show ?thesis
  proof cases
    case literal
    then have n: "jr_Peek s \<noteq> NUL" by auto
    show ?thesis
      using literal literal_value [OF s(1) n, of "''ull''" NNull] literal_value [OF s(1) n, of "''rue''" "NBool True"]
        literal_value [OF s(1) n, of "''alse''" "NBool False"]
      by (auto simp: ParseNull_def ParseTrue_def ParseFalse_def)
  next
    case string
    then show ?thesis using string_value [OF s(1)] by simp
  next
    case object
    then show ?thesis using object_step [OF s object members] by simp
  next
    case array
    then show ?thesis using array_step [OF s array elements] by simp
  next
    case number
    then show ?thesis using number_value [OF s(1), of D] by simp
  qed
qed

lemma reader_steps:
  "(\<forall>s. jr_inv s \<longrightarrow> 2 * left s + 1 \<le> n \<longrightarrow> value_ok s (ParseValue D n s)) \<and>
   (\<forall>k lo base s. jr_inv s \<longrightarrow> 2 * left s + 2 \<le> n \<longrightarrow> open_list (2 * k) lo base s \<longrightarrow> list_ok lo base s (ParseMembers D n k s)) \<and>
   (\<forall>k lo base s. jr_inv s \<longrightarrow> 2 * left s + 2 \<le> n \<longrightarrow> open_list k lo base s \<longrightarrow> list_ok lo base s (ParseElements D n k s))"
proof (induction n)
  case (Suc n)
  then have v: "\<And>s. jr_inv s \<Longrightarrow> 2 * left s + 1 \<le> n \<Longrightarrow> value_ok s (ParseValue D n s)"
    and m: "\<And>k lo base s. jr_inv s \<Longrightarrow> 2 * left s + 2 \<le> n \<Longrightarrow> open_list (2 * k) lo base s \<Longrightarrow> list_ok lo base s (ParseMembers D n k s)"
    and e: "\<And>k lo base s. jr_inv s \<Longrightarrow> 2 * left s + 2 \<le> n \<Longrightarrow> open_list k lo base s \<Longrightarrow> list_ok lo base s (ParseElements D n k s)"
    by blast+
  have "value_ok s (ParseValue D (Suc n) s)" if "jr_inv s" "2 * left s + 1 \<le> Suc n" for s
    by (rule value_step [OF m e that])
  moreover have "list_ok lo base s (ParseMembers D (Suc n) k s)"
    if "jr_inv s" "2 * left s + 2 \<le> Suc n" "open_list (2 * k) lo base s" for k lo base s
    by (rule members_step [OF that v m])
  moreover have "list_ok lo base s (ParseElements D (Suc n) k s)"
    if "jr_inv s" "2 * left s + 2 \<le> Suc n" "open_list k lo base s" for k lo base s
    by (rule elements_step [OF v e that])
  ultimately show ?case by blast
qed simp

lemma value_total: "jr_inv s \<Longrightarrow> 2 * left s + 1 \<le> n \<Longrightarrow> value_ok s (ParseValue D n s)"
  using reader_steps by blast

lemma reader_of_inv: "jr_inv (reader_of text)" "left (reader_of text) = length text + 1"
  by (simp_all add: reader_of_def jr_inv_def left_def)

lemma Parse_total:
  assumes "Parse D (2 * length text + 3) (reader_of text) = (r, t)"
  shows "jr_step 0 (reader_of text) t \<and> ends_ok 0 (r, t) \<and>
    (\<not> isl r \<longrightarrow> (\<exists>x. jr_stack t = [x] \<and> within 0 (length text) x))"
proof -
  let ?n = "2 * length text + 3"
  let ?s = "SkipWhitespace (reader_of text)"
  note s = skipped [OF reader_of_inv(1) [of "text"]]
  show ?thesis
  proof (cases "jr_Peek ?s = NUL")
    case True
    then show ?thesis using assms s(2) by (auto simp: Parse_def parse_fail_def Let_def)
  next
    case False
    obtain q u where u: "ParseValue D ?n ?s = (q, u)" by (cases "ParseValue D ?n ?s")
    have "2 * left ?s + 1 \<le> ?n" using s(5) reader_of_inv(2) [of "text"] by simp
    then have ok: "value_ok ?s (q, u)" using value_total [OF s(1)] u by metis
    note okD = value_okD [OF ok]
    have a: "jr_step 0 (reader_of text) u" by (rule jr_step_trans [OF s(2) okD(1)]) simp
    note w = skipped [OF jr_stepD(1) [OF a]]
    have b: "jr_step 0 (reader_of text) (SkipWhitespace u)" by (rule jr_step_trans1 [OF a w(2)])
    have e: "ends_ok 0 (q, u)" by (rule ends_ok_le [OF okD(2)]) simp
    show ?thesis
    proof (cases q)
      case (Inl f)
      then show ?thesis using assms False u a e by (auto simp: Parse_def pbind_def Let_def)
    next
      case (Inr c)
      have "jr_src u \<le> length text" using jr_stepD(1,3) [OF a] by (simp add: jr_inv_def reader_of_def)
      then have "\<exists>x. jr_stack (SkipWhitespace u) = [x] \<and> within 0 (length text) x"
        using okD(3) Inr s(4) w(4) by (auto simp: reader_of_def intro: within_mono)
      then show ?thesis using assms False u b Inr
        by (auto simp: Parse_def pbind_def parse_fail_def Let_def split: if_splits)
    qed
  qed
qed

section \<open>What the writer prints is read back\<close>

text \<open>Documents without doubles, whose integers have 64 bits.\<close>

function printable :: "json \<Rightarrow> bool" where
  "printable JNull = True"
| "printable (JBool b) = True"
| "printable (JInt i) = (- (2 ^ 63) \<le> i \<and> i < 2 ^ 64)"
| "printable (JDouble d) = False"
| "printable (JStr s) = True"
| "printable (JArr js) = (\<forall>j \<in> set js. printable j)"
| "printable (JObj ms) = (\<forall>m \<in> set ms. printable (snd m))"
  by pat_completeness auto
termination
proof (relation "measure size")
  show "(j, JArr js) \<in> measure size" if "j \<in> set js" for j js
    using that by (induction js) auto
  show "(snd m, JObj ms) \<in> measure size" if "m \<in> set ms" for m and ms :: "(string \<times> json) list"
    using that size_member [of "fst m" "snd m" ms] by simp
qed simp

lemma node_text_agree: "within lo hi x \<Longrightarrow> take hi mem = take hi mem' \<Longrightarrow> node_text mem x = node_text mem' x"
proof (cases x)
  case (NStr p l)
  assume "within lo hi x" and m: "take hi mem = take hi mem'"
  then have "p + l \<le> hi" using NStr by simp
  then have "take l (drop p mem) = take l (drop p mem')"
    using take_agree [OF m, of "p + l"] by (metis add_diff_cancel_left' drop_take)
  then show ?thesis using NStr by simp
qed simp_all

lemma resolve_agree: "within lo hi x \<Longrightarrow> take hi mem = take hi mem' \<Longrightarrow> resolve mem x = resolve mem' x"
proof (induction mem x rule: resolve.induct)
  case (5 mem p l)
  then show ?case using node_text_agree [OF 5] by (simp only: resolve.simps)
next
  case (7 mem ms)
  have "node_text mem (fst m) = node_text mem' (fst m) \<and> resolve mem (snd m) = resolve mem' (snd m)" if m: "m \<in> set ms" for m
    using 7 m node_text_agree [of lo hi "fst m" mem mem'] by simp
  then show ?case by simp
qed simp_all

lemma skip_none: "rest s = c # r \<Longrightarrow> \<not> is_ws c \<Longrightarrow> SkipWhitespace s = s"
  using rest_Cons(1) [of s c r] by (simp add: SkipWhitespace.simps [of s])

text \<open>How a text starts decides how it is read.\<close>

lemma render_head:
  assumes "printable v"
  shows "\<exists>c cs. render dtoa v = c # cs \<and> \<not> is_ws c \<and> c \<noteq> CHR '']'' \<and> c \<noteq> NUL"
proof -
  have "\<exists>c cs. show_int i = c # cs \<and> \<not> is_ws c \<and> c \<noteq> CHR '']'' \<and> c \<noteq> NUL" for i
  proof (cases "i < 0")
    case True
    then show ?thesis by (simp add: show_int_def is_ws_def)
  next
    case False
    obtain c ds where "show_nat (nat i) = c # ds" "is_digit c" using show_nat_head by blast
    then show ?thesis using False by (auto simp: show_int_def is_ws_def is_digit_def)
  qed
  then show ?thesis using assms by (cases v) (auto simp: WriteString_def is_ws_def)
qed

text \<open>The relation of a reader before and after it read a text.\<close>

definition has_read :: "reader \<Rightarrow> string \<Rightarrow> json \<Rightarrow> reader \<Rightarrow> bool" where
  "has_read s r v t \<longleftrightarrow> jr_step (jr_src s) s t \<and> rest t = r \<and> jr_src s < jr_src t \<and>
     (\<exists>x. jr_stack t = x # jr_stack s \<and> within (jr_src s) (jr_src t) x \<and> resolve (jr_mem t) x = v)"

lemma has_readI:
  assumes "jr_inv s" and "2 * left s + 1 \<le> n" and "ParseValue D n s = (Inr (), t)"
    and "rest t = r" and "jr_stack t = x # xs" and "resolve (jr_mem t) x = v"
  shows "has_read s r v t"
  using value_okD [OF value_total [OF assms(1,2), of D, unfolded assms(3)]] assms(4-6)
  by (auto simp: has_read_def)

lemma literal_read:
  assumes "rest s = c # cs @ r" 
  shows "\<exists>t. parse_literal cs x s = (Inr (), push x t) \<and> rest t = r \<and> jr_stack t = jr_stack s"
proof -
  have "rest u = cs @ r \<Longrightarrow> \<exists>t. Consume_all cs u = (True, t) \<and> rest t = r \<and> jr_stack t = jr_stack u" for u
  proof (induction cs arbitrary: u)
    case (Cons d ds)
    note p = rest_Cons [of u d "ds @ r"]
    have "rest (jr_Take u) = ds @ r" "Consume d u = (True, jr_Take u)" using p Cons.prems by (simp_all add: Consume_def)
    then show ?case using Cons.IH [of "jr_Take u"] by simp
  qed simp
  moreover have "rest (jr_Take s) = cs @ r" using rest_Cons(2) [of s c "cs @ r"] assms by simp
  ultimately obtain t where "Consume_all cs (jr_Take s) = (True, t)" "rest t = r" "jr_stack t = jr_stack (jr_Take s)" by blast
  then show ?thesis by (auto simp: parse_literal_def)
qed

lemma string_read:
  assumes "jr_inv s" and "rest s = WriteString x @ r"
  shows "\<exists>t p l. ParseString s = (Inr (), t) \<and> rest t = r \<and> jr_stack t = NStr p l # jr_stack s \<and>
    node_text (jr_mem t) (NStr p l) = x"
proof -
  note a = rest_Cons [of s "CHR 0x22" "concat (map write_char x) @ CHR 0x22 # r"]
  let ?u = "PutBegin (jr_Take s)"
  have p: "jr_Peek s = CHR 0x22" and u: "rest ?u = concat (map write_char x) @ CHR 0x22 # r"
    using a assms(2) by (simp_all add: WriteString_def)
  have "jr_inv (jr_Take s)" using p by (intro jr_stepD(1) [OF Take_step [OF assms(1)]]) simp
  then have "jr_inv ?u" by (rule jr_stepD(1) [OF PutBegin_step])
  from string_written [OF this u] obtain t where
    t: "ParseStringToStream ?u = (Inr (), t)" "rest t = r" "jr_dst t = jr_dst ?u + length x + 1"
      "jr_stack t = jr_stack s" "take (length x) (drop (jr_dst ?u) (jr_mem t)) = x" by auto
  then have "ParseString s = (Inr (), push (NStr (jr_dst ?u) (length x)) t)"
    by (simp add: ParseString_def pbind_def)
  then show ?thesis using t by (intro exI [of _ "push (NStr (jr_dst ?u) (length x)) t"]) auto
qed

definition reads_as :: "double_ops \<Rightarrow> (u64 \<Rightarrow> string) \<Rightarrow> json \<Rightarrow> bool" where
  "reads_as D dtoa v \<longleftrightarrow>
     (\<forall>s r n. jr_inv s \<longrightarrow> rest s = render dtoa v @ r \<longrightarrow> number_end r \<longrightarrow> 2 * left s + 1 \<le> n \<longrightarrow>
        (\<exists>t. ParseValue D n s = (Inr (), t) \<and> has_read s r v t))"

lemma reads_asD:
  assumes "reads_as D dtoa v" and "jr_inv s" and "rest s = render dtoa v @ r" and "number_end r" and "2 * left s + 1 \<le> n"
  obtains t x where "ParseValue D n s = (Inr (), t)" "jr_step (jr_src s) s t" "rest t = r" "left t < left s" "jr_inv t"
    "jr_stack t = x # jr_stack s" "within (jr_src s) (jr_src t) x" "resolve (jr_mem t) x = v" "jr_src s < jr_src t"
  using assms step_less_left jr_stepD(1) unfolding reads_as_def has_read_def by metis

lemma number_end_punct: "c = CHR '','' \<or> c = CHR '']'' \<or> c = CHR ''}'' \<or> c = NUL \<Longrightarrow> number_end (c # r)"
  by (auto simp: number_end_def is_digit_def)

lemma punct_not_ws: "c = CHR '','' \<or> c = CHR '']'' \<or> c = CHR ''}'' \<or> c = CHR '':'' \<or> c = CHR 0x22 \<Longrightarrow> \<not> is_ws c"
  by (auto simp: is_ws_def)

lemma resolve_list:
  assumes "jr_step k s t" and "\<forall>x \<in> set xs. within 0 k x"
  shows "map (resolve (jr_mem t)) xs = map (resolve (jr_mem s)) xs"
    and "map (node_text (jr_mem t)) xs = map (node_text (jr_mem s)) xs"
  using assms resolve_agree [of 0 k _ "jr_mem t" "jr_mem s"] node_text_agree [of 0 k _ "jr_mem t" "jr_mem s"]
  by (simp_all add: jr_step_def)

text \<open>The rest of an array.\<close>

lemma elements_read:
  assumes "\<forall>j \<in> set js. printable j \<and> reads_as D dtoa j" and "js \<noteq> []" and "jr_inv s"
    and "rest s = commas (map (render dtoa) js) @ CHR '']'' # r"
    and "jr_stack s = xs @ y # base" and "length xs = k" and "\<forall>x \<in> set xs. within 0 (jr_src s) x" and "2 * left s + 2 \<le> n"
  shows "\<exists>t zs. ParseElements D n k s = (Inr (), t) \<and> rest t = r \<and> jr_stack t = NArr zs # base \<and>
    map (resolve (jr_mem t)) zs = map (resolve (jr_mem s)) (rev xs) @ js"
  using assms
proof (induction js arbitrary: n k s xs)
  case (Cons j js)
  obtain m where n: "n = Suc m" using Cons.prems(8) by (cases n) auto
  define q where "q = (if js = [] then CHR '']'' # r else CHR '','' # commas (map (render dtoa) js) @ CHR '']'' # r)"
  have s: "rest s = render dtoa j @ q" using Cons.prems(4) by (cases js) (simp_all add: q_def)
  have "number_end q" by (simp add: q_def number_end_punct)
  moreover have "reads_as D dtoa j" "2 * left s + 1 \<le> m" using Cons.prems(1,8) n by simp_all
  ultimately obtain t x where t: "ParseValue D m s = (Inr (), t)" "jr_step (jr_src s) s t" "rest t = q" "left t < left s" "jr_inv t"
    "jr_stack t = x # jr_stack s" "within (jr_src s) (jr_src t) x" "resolve (jr_mem t) x = j" "jr_src s < jr_src t"
    using reads_asD Cons.prems(3) s by metis
  have old: "map (resolve (jr_mem t)) (rev xs) = map (resolve (jr_mem s)) (rev xs)"
    using resolve_list(1) [OF t(2), of "rev xs"] Cons.prems(7) by simp
  have xs: "jr_stack t = (x # xs) @ y # base" "length (x # xs) = Suc k" using t(6) Cons.prems(5,6) by simp_all
  show ?case
  proof (cases js)
    case Nil
    then have q: "rest t = CHR '']'' # r" using t(3) by (simp add: q_def)
    note p = rest_Cons [OF q]
    have "SkipWhitespace t = t" using skip_none [OF q] punct_not_ws by simp
    then have "ParseElements D n k s = (Inr (), EndArray (Suc k) (jr_Take t))"
      using t(1) n p(1) by (simp add: pbind_def)
    then show ?thesis using EndArray_stack [of "jr_Take t" "x # xs" y base "Suc k"] xs p(2) old t(8) Nil by simp
  next
    case (Cons j' js')
    then have q: "rest t = CHR '','' # commas (map (render dtoa) js) @ CHR '']'' # r" using t(3) by (simp add: q_def)
    note p = rest_Cons [OF q]
    let ?u = "jr_Take t"
    have "SkipWhitespace t = t" using skip_none [OF q] punct_not_ws by simp
    moreover have "SkipWhitespace ?u = ?u"
    proof -
      obtain c cs where c: "render dtoa j' = c # cs" "\<not> is_ws c"
        using render_head Cons.prems(1) Cons by (metis list.set_intros(1,2))
      then have "\<exists>w. commas (map (render dtoa) js) @ CHR '']'' # r = c # w" using Cons by (cases js') auto
      then show ?thesis using skip_none p(2) c(2) by metis
    qed
    ultimately have run: "ParseElements D n k s = ParseElements D m (Suc k) ?u"
      using t(1) n p(1) by (simp add: pbind_def)
    have inv: "jr_inv ?u" using p(1) by (intro jr_stepD(1) [OF Take_step [OF t(5)]]) simp
    have "\<forall>z \<in> set (x # xs). within 0 (jr_src ?u) z"
      using t(7,9) Cons.prems(7) by (auto intro: within_mono)
    moreover have "2 * left ?u + 2 \<le> m" using Cons.prems(8) n t(4) by (simp add: left_def)
    ultimately obtain u zs where u: "ParseElements D m (Suc k) ?u = (Inr (), u)" "rest u = r" "jr_stack u = NArr zs # base"
      "map (resolve (jr_mem u)) zs = map (resolve (jr_mem ?u)) (rev (x # xs)) @ js"
      using Cons.IH [of ?u "x # xs" "Suc k" m] Cons.prems(1) Cons inv p(2) xs by auto
    then show ?thesis using run old t(8) by simp
  qed
qed simp

lemma pairs_append: "even (length xs) \<Longrightarrow> pairs (xs @ ys) = pairs xs @ pairs ys"
  by (induction xs rule: pairs.induct) auto

definition member_value :: "string \<Rightarrow> node \<times> node \<Rightarrow> string \<times> json" where
  "member_value mem m = (node_text mem (fst m), resolve mem (snd m))"

lemma resolve_members:
  assumes "jr_step k s t" and "\<forall>x \<in> set xs. within 0 k x"
  shows "map (member_value (jr_mem t)) (pairs xs) = map (member_value (jr_mem s)) (pairs xs)"
  using assms resolve_agree [of 0 k _ "jr_mem t" "jr_mem s"] node_text_agree [of 0 k _ "jr_mem t" "jr_mem s"] pairs_set [of _ xs]
  by (auto simp: jr_step_def member_value_def)

text \<open>A key with its colon, and the value.\<close>

lemma member_read:
  assumes v: "reads_as D dtoa v" and inv: "jr_inv s" and s: "rest s = WriteString k @ '':'' @ render dtoa v @ q"
    and q: "number_end q" and n: "2 * left s \<le> n" and pv: "printable v"
    and xs: "\<forall>x \<in> set xs. within 0 (jr_src s) x"
  shows "\<exists>t a b. jr_inv t \<and> left t < left s \<and> rest t = q \<and> jr_stack t = b # a # jr_stack s \<and>
    (\<forall>x \<in> set (b # a # xs). within 0 (jr_src t) x) \<and> member_value (jr_mem t) (a, b) = (k, v) \<and>
    map (member_value (jr_mem t)) (pairs (rev xs)) = map (member_value (jr_mem s)) (pairs (rev xs)) \<and>
    jr_Peek s = CHR 0x22 \<and>
    (\<forall>f. pbind (ParseString s) (\<lambda>_ s. case Consume (CHR '':'') (SkipWhitespace s) of
            (False, s) \<Rightarrow> parse_fail ObjectMissColon (jr_src s) s
          | (True, s) \<Rightarrow> pbind (ParseValue D n (SkipWhitespace s)) f) = f () t)"
proof -
  from string_read [OF inv s] obtain t1 p l where
    t1: "ParseString s = (Inr (), t1)" "rest t1 = '':'' @ render dtoa v @ q" "jr_stack t1 = NStr p l # jr_stack s"
      "node_text (jr_mem t1) (NStr p l) = k" by blast
  have pk: "jr_Peek s = CHR 0x22" using rest_Cons(1) [of s "CHR 0x22"] s by (simp add: WriteString_def)
  note ok = value_okD [OF string_value [OF inv pk, unfolded t1(1)]]
  have w1: "within (jr_src s) (jr_src t1) (NStr p l)" "jr_src s < jr_src t1" using ok(3) t1(3) by auto
  have q1: "rest t1 = CHR '':'' # render dtoa v @ q" using t1(2) by simp
  note c = rest_Cons [OF q1]
  have i1: "jr_inv t1" by (rule jr_stepD(1) [OF ok(1)])
  have skip1: "SkipWhitespace t1 = t1" using skip_none [OF q1] punct_not_ws by simp
  let ?u = "jr_Take t1"
  have ju: "jr_step k t1 ?u" for k using c(1) by (intro Take_step [OF i1]) simp
  have skip2: "SkipWhitespace ?u = ?u"
    using render_head [OF pv, of dtoa] skip_none [of ?u] c(2) by auto
  have lu: "left ?u < left s" using step_less_left [OF ok(1) w1(2)] left_Take [of t1] c(1) by simp
  have iu: "jr_inv ?u" by (rule jr_stepD(1) [OF ju])
  have "2 * left ?u + 1 \<le> n" using lu n by simp
  then obtain t b where
    t: "ParseValue D n ?u = (Inr (), t)" "jr_step (jr_src ?u) ?u t" "rest t = q" "left t < left ?u" "jr_inv t"
      "jr_stack t = b # jr_stack ?u" "within (jr_src ?u) (jr_src t) b" "resolve (jr_mem t) b = v" "jr_src ?u < jr_src t"
    by (rule reads_asD [OF v iu c(2) q])
  have j1: "jr_step (jr_src t1) t1 t" using jr_step_trans [OF ju t(2)] by simp
  have j: "jr_step (jr_src s) s t" using jr_step_trans [OF ok(1) j1] w1(2) by simp
  have "node_text (jr_mem t) (NStr p l) = k"
    using node_text_agree [OF w1(1), of "jr_mem t" "jr_mem t1"] j1 t1(4) by (simp add: jr_step_def)
  moreover have "map (member_value (jr_mem t)) (pairs (rev xs)) = map (member_value (jr_mem s)) (pairs (rev xs))"
    using resolve_members [OF j, of "rev xs"] xs by simp
  moreover have "jr_src s < jr_src t" "jr_src t1 \<le> jr_src t" using w1(2) t(9) by simp_all
  then have "\<forall>x \<in> set (b # NStr p l # xs). within 0 (jr_src t) x"
    using t(7) w1(1) xs within_mono [of 0 "jr_src s" _ 0 "jr_src t"] within_mono [OF t(7), of 0 "jr_src t"]
      within_mono [OF w1(1), of 0 "jr_src t"] by auto
  moreover have "pbind (ParseString s) (\<lambda>_ s. case Consume (CHR '':'') (SkipWhitespace s) of
            (False, s) \<Rightarrow> parse_fail ObjectMissColon (jr_src s) s
          | (True, s) \<Rightarrow> pbind (ParseValue D n (SkipWhitespace s)) f) = f () t" for f
    using t1(1) skip1 skip2 t(1) c(1) by (simp add: pbind_def Consume_def)
  ultimately show ?thesis
    using t pk lu t1(3) by (intro exI [of _ t] exI [of _ "NStr p l"] exI [of _ b]) (auto simp: member_value_def)
qed

text \<open>The rest of an object.\<close>

lemma members_read:
  assumes "\<forall>m \<in> set ms. printable (snd m) \<and> reads_as D dtoa (snd m)" and "ms \<noteq> []" and "jr_inv s"
    and "rest s = commas (map (member_text dtoa) ms) @ CHR ''}'' # r"
    and "jr_stack s = xs @ y # base" and "length xs = 2 * k" and "\<forall>x \<in> set xs. within 0 (jr_src s) x" and "2 * left s + 2 \<le> n"
  shows "\<exists>t zs. ParseMembers D n k s = (Inr (), t) \<and> rest t = r \<and> jr_stack t = NObj zs # base \<and>
    map (member_value (jr_mem t)) zs = map (member_value (jr_mem s)) (pairs (rev xs)) @ ms"
  using assms
proof (induction ms arbitrary: n k s xs)
  case (Cons m ms)
  obtain n' where n: "n = Suc n'" using Cons.prems(8) by (cases n) auto
  define q where "q = (if ms = [] then CHR ''}'' # r else CHR '','' # commas (map (member_text dtoa) ms) @ CHR ''}'' # r)"
  have "rest s = member_text dtoa m @ q" using Cons.prems(4) by (cases ms) (simp_all add: q_def)
  then have s: "rest s = WriteString (fst m) @ '':'' @ render dtoa (snd m) @ q" by (simp add: member_text_def)
  have q: "number_end q" by (simp add: q_def number_end_punct)
  have "reads_as D dtoa (snd m)" "printable (snd m)" "2 * left s \<le> n'" using Cons.prems(1,8) n by simp_all
  from member_read [OF this(1) Cons.prems(3) s q this(3,2) Cons.prems(7)] obtain t a b where
    t: "jr_inv t" "left t < left s" "rest t = q" "jr_stack t = b # a # jr_stack s"
      "\<forall>x \<in> set (b # a # xs). within 0 (jr_src t) x" "member_value (jr_mem t) (a, b) = m"
      "map (member_value (jr_mem t)) (pairs (rev xs)) = map (member_value (jr_mem s)) (pairs (rev xs))"
      "jr_Peek s = CHR 0x22"
      "\<And>f :: unit \<Rightarrow> reader \<Rightarrow> unit parsed. pbind (ParseString s) (\<lambda>_ s. case Consume (CHR '':'') (SkipWhitespace s) of
            (False, s) \<Rightarrow> parse_fail ObjectMissColon (jr_src s) s
          | (True, s) \<Rightarrow> pbind (ParseValue D n' (SkipWhitespace s)) f) = f () t" by auto
  have xs: "jr_stack t = (b # a # xs) @ y # base" "length (b # a # xs) = 2 * Suc k" using t(4) Cons.prems(5,6) by simp_all
  have even: "pairs (rev (b # a # xs)) = pairs (rev xs) @ [(a, b)]" using pairs_append [of "rev xs" "[a, b]"] Cons.prems(6) by simp
  have run: "ParseMembers D n k s = (let s = SkipWhitespace t in
                if jr_Peek s = CHR '','' then ParseMembers D n' (Suc k) (SkipWhitespace (jr_Take s))
                else if jr_Peek s = CHR ''}'' then (Inr (), EndObject (Suc k) (jr_Take s))
                else parse_fail ObjectMissCommaOrCurlyBracket (jr_src s) s)"
    using t(8) n t(9) by (simp only: ParseMembers.simps) simp
  show ?case
  proof (cases ms)
    case Nil
    then have q: "rest t = CHR ''}'' # r" using t(3) by (simp add: q_def)
    note p = rest_Cons [OF q]
    have "SkipWhitespace t = t" using skip_none [OF q] punct_not_ws by simp
    then have "ParseMembers D n k s = (Inr (), EndObject (Suc k) (jr_Take t))" using run p(1) by simp
    then show ?thesis
      using EndObject_stack [of "jr_Take t" "b # a # xs" y base "Suc k"] xs even p(2) t(6,7) Nil by simp
  next
    case (Cons m' ms')
    then have q: "rest t = CHR '','' # commas (map (member_text dtoa) ms) @ CHR ''}'' # r" using t(3) by (simp add: q_def)
    note p = rest_Cons [OF q]
    let ?u = "jr_Take t"
    have "SkipWhitespace t = t" using skip_none [OF q] punct_not_ws by simp
    moreover have "\<exists>w. rest ?u = CHR 0x22 # w" using p(2) Cons by (cases ms') (auto simp: member_text_def WriteString_def)
    then have "SkipWhitespace ?u = ?u" using skip_none punct_not_ws by blast
    ultimately have run: "ParseMembers D n k s = ParseMembers D n' (Suc k) ?u" using run p(1) by simp
    have inv: "jr_inv ?u" using p(1) by (intro jr_stepD(1) [OF Take_step [OF t(1)]]) simp
    have "\<forall>z \<in> set (b # a # xs). within 0 (jr_src ?u) z" using t(5) by (auto intro: within_mono)
    moreover have "2 * left ?u + 2 \<le> n'" using Cons.prems(8) n t(2) by (simp add: left_def)
    ultimately obtain u zs where u: "ParseMembers D n' (Suc k) ?u = (Inr (), u)" "rest u = r" "jr_stack u = NObj zs # base"
      "map (member_value (jr_mem u)) zs = map (member_value (jr_mem ?u)) (pairs (rev (b # a # xs))) @ ms"
      using Cons.IH [of ?u "b # a # xs" "Suc k" n'] Cons.prems(1) Cons inv p(2) xs by auto
    then show ?thesis using run even t(6,7) by simp
  qed
qed simp

text \<open>Arrays and objects, from their first character.\<close>

lemma array_read:
  assumes js: "\<forall>j \<in> set js. printable j \<and> reads_as D dtoa j" and inv: "jr_inv s"
    and s: "rest s = render dtoa (JArr js) @ r" and n: "2 * left s + 1 \<le> n"
  shows "\<exists>t zs. ParseValue D n s = (Inr (), t) \<and> rest t = r \<and> jr_stack t = NArr zs # jr_stack s \<and>
    map (resolve (jr_mem t)) zs = js"
proof -
  obtain m where m: "n = Suc m" using n by (cases n) auto
  let ?u = "push (NArr []) (jr_Take s)"
  have s': "rest s = CHR ''['' # commas (map (render dtoa) js) @ CHR '']'' # r" using s by simp
  note p = rest_Cons [OF s']
  have u: "rest ?u = commas (map (render dtoa) js) @ CHR '']'' # r" using p(2) by simp
  have inv': "jr_inv ?u" using p(1) jr_stepD(1) [OF Take_step [OF inv]] by simp
  have lu: "2 * left ?u + 2 \<le> m" using n m p(1) left_Take [of s] by simp
  show ?thesis
  proof (cases js)
    case Nil
    then have q: "rest ?u = CHR '']'' # r" using u by simp
    note c = rest_Cons [OF q]
    have "SkipWhitespace ?u = ?u" using skip_none [OF q] punct_not_ws by simp
    then show ?thesis using c p(1) m Nil
      by (simp add: start_array_def Consume_def EndArray_def)
  next
    case (Cons j js')
    obtain c cs where h: "render dtoa j = c # cs" "\<not> is_ws c" "c \<noteq> CHR '']''"
      using render_head [of j dtoa] js Cons by auto
    then obtain w where q: "rest ?u = c # w" using u Cons by (cases js') auto
    note d = rest_Cons [OF q]
    have "SkipWhitespace ?u = ?u" using skip_none [OF q h(2)] .
    then have "start_array s = (False, ?u)" using d(1) h(3) by (simp add: start_array_def Consume_def)
    then have run: "ParseValue D n s = ParseElements D m 0 ?u" using p(1) m by simp
    obtain t zs where "ParseElements D m 0 ?u = (Inr (), t)" "rest t = r" "jr_stack t = NArr zs # jr_stack s"
      "map (resolve (jr_mem t)) zs = map (resolve (jr_mem ?u)) (rev []) @ js"
      using elements_read [OF js _ inv' u, of "[]" "NArr []" "jr_stack s" 0 m] lu Cons by auto
    then show ?thesis using run by auto
  qed
qed

lemma object_read:
  assumes ms: "\<forall>m \<in> set ms. printable (snd m) \<and> reads_as D dtoa (snd m)" and inv: "jr_inv s"
    and s: "rest s = render dtoa (JObj ms) @ r" and n: "2 * left s + 1 \<le> n"
  shows "\<exists>t zs. ParseValue D n s = (Inr (), t) \<and> rest t = r \<and> jr_stack t = NObj zs # jr_stack s \<and>
    map (member_value (jr_mem t)) zs = ms"
proof -
  obtain m where m: "n = Suc m" using n by (cases n) auto
  let ?u = "push (NObj []) (jr_Take s)"
  have "member_text dtoa = (\<lambda>m. WriteString (fst m) @ '':'' @ render dtoa (snd m))"
    by (simp add: member_text_def fun_eq_iff)
  then have s': "rest s = CHR ''{'' # commas (map (member_text dtoa) ms) @ CHR ''}'' # r" using s by simp
  note p = rest_Cons [OF s']
  have u: "rest ?u = commas (map (member_text dtoa) ms) @ CHR ''}'' # r" using p(2) by simp
  have inv': "jr_inv ?u" using p(1) jr_stepD(1) [OF Take_step [OF inv]] by simp
  have lu: "2 * left ?u + 2 \<le> m" using n m p(1) left_Take [of s] by simp
  show ?thesis
  proof (cases ms)
    case Nil
    then have q: "rest ?u = CHR ''}'' # r" using u by simp
    note c = rest_Cons [OF q]
    have "SkipWhitespace ?u = ?u" using skip_none [OF q] punct_not_ws by simp
    then show ?thesis using c p(1) m Nil
      by (simp add: start_object_def Consume_def EndObject_def)
  next
    case (Cons m1 ms')
    then obtain w where q: "rest ?u = CHR 0x22 # w" using u by (cases ms') (auto simp: member_text_def WriteString_def)
    note d = rest_Cons [OF q]
    have "SkipWhitespace ?u = ?u" using skip_none [OF q] punct_not_ws by simp
    then have "start_object s = (False, ?u)" using d(1) by (simp add: start_object_def Consume_def)
    then have run: "ParseValue D n s = ParseMembers D m 0 ?u" using p(1) m by simp
    obtain t zs where "ParseMembers D m 0 ?u = (Inr (), t)" "rest t = r" "jr_stack t = NObj zs # jr_stack s"
      "map (member_value (jr_mem t)) zs = map (member_value (jr_mem ?u)) (pairs (rev [])) @ ms"
      using members_read [OF ms _ inv' u, of "[]" "NObj []" "jr_stack s" 0 m] lu Cons by auto
    then show ?thesis using run by auto
  qed
qed

text \<open>Every printable value is read as itself.\<close>

lemma scalar_read:
  assumes "printable v" and "\<not> IsArray v" and "\<not> IsObject v" and "jr_inv s" and "rest s = render dtoa v @ r" and "number_end r"
  shows "\<exists>t x. ParseValue D (Suc m) s = (Inr (), t) \<and> rest t = r \<and> jr_stack t = x # jr_stack s \<and> resolve (jr_mem t) x = v"
proof (cases v)
  case JNull
  then have q: "rest s = CHR ''n'' # ''ull'' @ r" using assms(5) by simp
  show ?thesis using literal_read [OF q, of NNull] rest_Cons(1) [OF q] JNull by (auto simp: ParseNull_def)
next
  case (JBool b)
  show ?thesis
  proof (cases b)
    case True
    then have q: "rest s = CHR ''t'' # ''rue'' @ r" using assms(5) JBool by simp
    show ?thesis using literal_read [OF q, of "NBool True"] rest_Cons(1) [OF q] JBool True by (auto simp: ParseTrue_def)
  next
    case False
    then have q: "rest s = CHR ''f'' # ''alse'' @ r" using assms(5) JBool by simp
    show ?thesis using literal_read [OF q, of "NBool False"] rest_Cons(1) [OF q] JBool False by (auto simp: ParseFalse_def)
  qed
next
  case (JInt i)
  then have q: "rest s = show_int i @ r" and i: "- (2 ^ 63) \<le> i" "i < 2 ^ 64" using assms(1,5) by simp_all
  obtain c ds where c: "show_nat (nat i) = c # ds" "is_digit c" using show_nat_head by blast
  have "jr_Peek s = CHR ''-'' \<or> is_digit (jr_Peek s)"
  proof (cases "i < 0")
    case True
    then show ?thesis using rest_Cons(1) [of s "CHR ''-''"] q by (simp add: show_int_def)
  next
    case False
    then show ?thesis using rest_Cons(1) [of s c] q c by (simp add: show_int_def)
  qed
  then have "jr_Peek s \<notin> {CHR ''n'', CHR ''t'', CHR ''f'', CHR 0x22, CHR ''{'', CHR ''[''}"
    by (auto simp: is_digit_def)
  then have "ParseValue D (Suc m) s = ParseNumber D s" by simp
  then show ?thesis using number_read [OF q assms(6) i, of D] JInt by (auto simp: reads_def)
next
  case (JStr x)
  then have q: "rest s = WriteString x @ r" using assms(5) by simp
  have "jr_Peek s = CHR 0x22" using rest_Cons(1) [of s "CHR 0x22"] q by (simp add: WriteString_def)
  then have "ParseValue D (Suc m) s = ParseString s" by simp
  moreover obtain t p l where "ParseString s = (Inr (), t)" "rest t = r" "jr_stack t = NStr p l # jr_stack s"
    "node_text (jr_mem t) (NStr p l) = x" using string_read [OF assms(4) q] by blast
  ultimately show ?thesis using JStr by (intro exI [of _ t] exI [of _ "NStr p l"]) simp
qed (use assms in simp_all)

lemma scalar_reads: "printable v \<Longrightarrow> \<not> IsArray v \<Longrightarrow> \<not> IsObject v \<Longrightarrow> reads_as D dtoa v"
  unfolding reads_as_def
proof (intro allI impI)
  fix s r n
  assume v: "printable v" "\<not> IsArray v" "\<not> IsObject v" and s: "jr_inv s" "rest s = render dtoa v @ r" "number_end r"
    and n: "2 * left s + 1 \<le> n"
  obtain m where m: "n = Suc m" using n by (cases n) auto
  from scalar_read [OF v s] obtain t x where
    t: "ParseValue D (Suc m) s = (Inr (), t)" "rest t = r" "jr_stack t = x # jr_stack s" "resolve (jr_mem t) x = v" by blast
  show "\<exists>t. ParseValue D n s = (Inr (), t) \<and> has_read s r v t"
    using has_readI [OF s(1) n _ t(2-4)] t(1) m by blast
qed

lemma value_read: "printable v \<Longrightarrow> reads_as D dtoa v"
proof (induction v rule: printable.induct)
  case (6 js)
  then have js: "\<forall>j \<in> set js. printable j \<and> reads_as D dtoa j" by simp
  show ?case
    unfolding reads_as_def
  proof (intro allI impI)
    fix s r n
    assume s: "jr_inv s" "rest s = render dtoa (JArr js) @ r" and n: "2 * left s + 1 \<le> n"
    from array_read [OF js s n] obtain t zs where
      t: "ParseValue D n s = (Inr (), t)" "rest t = r" "jr_stack t = NArr zs # jr_stack s" "map (resolve (jr_mem t)) zs = js" by blast
    then show "\<exists>t. ParseValue D n s = (Inr (), t) \<and> has_read s r (JArr js) t"
      by (intro exI [of _ t] conjI has_readI [OF s(1) n t(1-3)]) simp_all
  qed
next
  case (7 ms)
  then have ms: "\<forall>m \<in> set ms. printable (snd m) \<and> reads_as D dtoa (snd m)" by simp
  have m: "(\<lambda>m. (node_text mem (fst m), resolve mem (snd m))) = member_value mem" for mem
    by (simp add: member_value_def fun_eq_iff)
  show ?case
    unfolding reads_as_def
  proof (intro allI impI)
    fix s r n
    assume s: "jr_inv s" "rest s = render dtoa (JObj ms) @ r" and n: "2 * left s + 1 \<le> n"
    from object_read [OF ms s n] obtain t zs where
      t: "ParseValue D n s = (Inr (), t)" "rest t = r" "jr_stack t = NObj zs # jr_stack s" "map (member_value (jr_mem t)) zs = ms" by blast
    then show "\<exists>t. ParseValue D n s = (Inr (), t) \<and> has_read s r (JObj ms) t"
      by (intro exI [of _ t] conjI has_readI [OF s(1) n t(1-3)]) (simp_all add: m)
  qed
qed (simp_all add: scalar_reads)

text \<open>A whole text.\<close>

lemma value_text_read:
  assumes "printable v"
  shows "ParseInsitu D (render dtoa v) = Inr v"
proof -
  let ?text = "render dtoa v"
  let ?s = "reader_of ?text"
  let ?n = "2 * length ?text + 3"
  obtain c cs where c: "?text = c # cs" "\<not> is_ws c" "c \<noteq> NUL" using render_head [OF assms] by blast
  have s: "rest ?s = ?text @ [NUL]" by (simp add: reader_of_def)
  then have q: "rest ?s = c # cs @ [NUL]" using c(1) by simp
  have skip: "SkipWhitespace ?s = ?s" "jr_Peek ?s \<noteq> NUL" using skip_none [OF q c(2)] rest_Cons(1) [OF q] c(3) by simp_all
  have "2 * left ?s + 1 \<le> ?n" using reader_of_inv(2) [of ?text] by simp
  from reads_asD [OF value_read [OF assms, of D] reader_of_inv(1) s number_end_punct this]
  obtain t x where t: "ParseValue D ?n ?s = (Inr (), t)" "rest t = [NUL]" "resolve (jr_mem t) x = v"
      "jr_stack t = x # jr_stack ?s"
    by (metis (no_types, lifting))
  have "SkipWhitespace t = t" "jr_Peek t = NUL" using skip_none [OF t(2)] rest_Cons(1) [OF t(2)] by (simp_all add: is_ws_def)
  then have "Parse D ?n ?s = (Inr (), t)" using skip t(1) by (simp add: Parse_def pbind_def Let_def)
  then show ?thesis using t(3,4) by (simp add: ParseInsitu_def)
qed

section \<open>The theorems\<close>

text \<open>
  C28. \<^verbatim>\<open>ParseInsitu\<close> on any text, well-formed or not: it ends (the fuel of the model is enough), its
  position stays in front of the terminator, what it did not read is as it was, an error is
  at a position in the text that was read, and a success leaves one value, the root, whose strings all lie in the
  text.
\<close>

theorem json_parse_safe:
  "case Parse D (2 * length text + 3) (reader_of text) of (r, t) \<Rightarrow>
     length (jr_mem t) = length text + 1 \<and> jr_dst t \<le> jr_src t \<and> jr_src t \<le> length text \<and>
     drop (jr_src t) (jr_mem t) = drop (jr_src t) (text @ [NUL]) \<and>
     (case r of
        Inl OutOfFuel \<Rightarrow> False
      | Inl (Failed e off) \<Rightarrow> off \<le> jr_src t
      | Inr _ \<Rightarrow> \<exists>x. jr_stack t = [x] \<and> within 0 (length text) x)"
proof -
  obtain r t where t: "Parse D (2 * length text + 3) (reader_of text) = (r, t)"
    by (cases "Parse D (2 * length text + 3) (reader_of text)")
  then show ?thesis
    using Parse_total [OF t]
    by (auto simp: jr_step_def jr_inv_def ends_ok_def reader_of_def split: sum.splits failure.splits)
qed

text \<open>
  C27. What \<^verbatim>\<open>Writer\<close> prints, \<^verbatim>\<open>ParseInsitu\<close> reads back: every value without doubles, whose integers
  have 64 bits, with any bytes in its strings and any nesting.
\<close>

theorem json_text_roundtrip:
  assumes "printable v"
  shows "ParseInsitu D (render dtoa v) = Inr v"
  using assms by (rule value_text_read)

definition no_doubles :: double_ops where
  "no_doubles =
     \<lparr>dbl_of_u64 = \<lambda>x. x, dbl_add = \<lambda>x y. x, dbl_mul = \<lambda>x y. x, dbl_div = \<lambda>x y. x, dbl_neg = \<lambda>x. x,
      dbl_less = \<lambda>x y. False, dbl_max = 0, dbl_Pow10 = \<lambda>n. 1\<rparr>"

lemma json_text_roundtrip_witness:
  "ParseInsitu no_doubles (render (\<lambda>_. []) (JObj [(''id'', JInt (- 7)), (''a'', JArr [JNull, JStr [CHR 0x0A], JObj []])])) =
    Inr (JObj [(''id'', JInt (- 7)), (''a'', JArr [JNull, JStr [CHR 0x0A], JObj []])])"
  by (rule json_text_roundtrip) simp

end
