(* ===== verification/Kes_Server.thy ===== *)
theory Kes_Server
  imports Kes_ProcessManager Kes_Session Kes_Wire Kes_JsonReader
begin

text \<open>
  The server put together, as \<^verbatim>\<open>main\<close> does (\<^verbatim>\<open>src/kexplorer-server/main.cxx\<close>): one request
  processor, the global command handler and the process manager registered with it in this order, and
  a session handler for every connection.
\<close>

section \<open>The handlers of the server\<close>

datatype handler = GlobalHandler | ProcessHandler

definition server_vtable :: "string \<Rightarrow> (handler, 'z pm_world_scheme) vtable" where
  "server_vtable version = \<lparr>
     vt_process = (\<lambda>h. case h of GlobalHandler \<Rightarrow> gc_process version | ProcessHandler \<Rightarrow> pm_process),
     vt_startSession = (\<lambda>h. case h of GlobalHandler \<Rightarrow> gc_startSession | ProcessHandler \<Rightarrow> pm_startSession),
     vt_endSession = (\<lambda>h. case h of GlobalHandler \<Rightarrow> gc_endSession | ProcessHandler \<Rightarrow> pm_endSession),
     vt_address = (\<lambda>h. [])\<rparr>"

definition server_setup :: "string \<Rightarrow> 'z pm_world_scheme \<Rightarrow> handler handlers \<times> 'z pm_world_scheme" where
  "server_setup version w =
     pm_create (server_vtable version) ProcessHandler (gc_create (server_vtable version) GlobalHandler ([], w))"

definition server_handlers :: "handler handlers" where
  "server_handlers = [(''stop'', GlobalHandler), (''version'', GlobalHandler),
     (''list_processes'', ProcessHandler), (''diff_processes'', ProcessHandler)]"

definition server_processor ::
    "(string \<Rightarrow> (string \<times> nat) + json) \<Rightarrow> string \<Rightarrow> 'z pm_world_scheme request_processor" where
  "server_processor parse version = \<lparr>
     rpi_process = (\<lambda>sid request. rp_process parse server_env (server_vtable version) server_handlers sid request),
     rpi_startSession = (\<lambda>sid. startSession (server_vtable version) sid server_handlers),
     rpi_endSession = (\<lambda>sid. endSession (server_vtable version) sid server_handlers)\<rparr>"

lemma setup_handlers: "fst (server_setup version w) = server_handlers"
  by (simp add: server_setup_def pm_create_def gc_create_def pm_commands_def s_commands_def
      registerHandler_def mm_insert_def server_handlers_def)

lemma setup_world: "same_but_log (snd (server_setup version w)) w"
  by (simp add: server_setup_def pm_create_def gc_create_def pm_commands_def s_commands_def registerHandler_def)

lemma handlers_of:
  "mm_equal_range ''stop'' server_handlers = [GlobalHandler]"
  "mm_equal_range ''version'' server_handlers = [GlobalHandler]"
  "mm_equal_range ''list_processes'' server_handlers = [ProcessHandler]"
  "mm_equal_range ''diff_processes'' server_handlers = [ProcessHandler]"
  by (simp_all add: server_handlers_def mm_equal_range_def)

section \<open>The contract of the handlers holds\<close>

lemma gc_process_inv: "pm_inv w \<Longrightarrow> pm_inv (snd (gc_process version sid key rid request response w))"
proof -
  assume w: "pm_inv w"
  have "pm_inv (w\<lparr>gc_exitCondition := c\<rparr>) = pm_inv w" for c and w :: "'a pm_world_scheme"
    by (simp add: pm_inv_def)
  moreover have "pm_inv v \<Longrightarrow> (\<And>x w. pm_inv w \<Longrightarrow> pm_inv (snd (f x w))) \<Longrightarrow> pm_inv (snd (sbind (r, v) f))"
    for r :: "bag outcome" and v :: "'a pm_world_scheme" and f :: "bag \<Rightarrow> 'a pm_world_scheme \<Rightarrow> (bool \<times> bag) outcome \<times> 'a pm_world_scheme"
    by (cases r) auto
  ultimately show ?thesis using w by (simp add: gc_process_def)
qed

interpretation server: request_handlers "server_vtable version" pm_inv "\<lambda>key. key = ''diff_processes''"
proof
  fix w :: "'a pm_world_scheme" and request response h sid key rid found response'
  assume w: "pm_inv w" and tables: "isTable request" "isTable response"
  obtain r w' where p: "pm_process sid key rid request response w = (r, w')"
    by (cases "pm_process sid key rid request response w")
  note pm = pm_process_cases [OF w p tables(2)]
  note gc = gc_process_total [OF tables(2), of version sid key rid request w]
  show "pm_inv (snd (vt_process (server_vtable version) h sid key rid request response w))"
    using gc_process_inv [OF w] pm p by (cases h) (auto simp: server_vtable_def)
  show "fst (vt_process (server_vtable version) h sid key rid request response w) \<noteq> Terminate"
    using gc pm p by (cases h) (auto simp: server_vtable_def)
  show "fst (vt_process (server_vtable version) h sid key rid request response w) = Ok (found, response') \<Longrightarrow>
      isTable response'"
    using gc pm p by (cases h) (auto simp: server_vtable_def)
  show "fst (vt_process (server_vtable version) h sid key rid request response w) = UB \<Longrightarrow> key = ''diff_processes''"
    using gc pm p by (cases h) (auto simp: server_vtable_def)
next
  show "pm_inv w \<Longrightarrow> pm_inv (vt_startSession (server_vtable version) h sid w)" for w :: "'a pm_world_scheme" and h sid
    by (cases h) (simp_all add: server_vtable_def gc_startSession_def pm_start_inv)
  show "pm_inv w \<Longrightarrow> pm_inv (vt_endSession (server_vtable version) h sid w)" for w :: "'a pm_world_scheme" and h sid
    by (cases h) (simp_all add: server_vtable_def gc_endSession_def pm_end_inv)
qed simp

lemma pm_start_again: "pm_startSession sid (pm_startSession sid w) = pm_startSession sid w"
  by (simp add: pm_startSession_def fst_um_insert um_find_append split: option.split)

lemma pm_end_again: "pm_endSession sid (pm_endSession sid w) = pm_endSession sid w"
  by (simp add: pm_endSession_def um_find_erase split: option.split)

interpretation starts: session_listeners "\<lambda>h. vt_startSession (server_vtable version) h sid"
proof
  show "vt_startSession (server_vtable version) h sid (vt_startSession (server_vtable version) h sid w) =
      vt_startSession (server_vtable version) h sid w" for h and w :: "'a pm_world_scheme"
    by (cases h) (simp_all add: server_vtable_def gc_startSession_def pm_start_again)
  show "vt_startSession (server_vtable version) g sid (vt_startSession (server_vtable version) h sid w) =
      vt_startSession (server_vtable version) h sid (vt_startSession (server_vtable version) g sid w)"
    for g h and w :: "'a pm_world_scheme"
    by (cases g; cases h) (simp_all add: server_vtable_def gc_startSession_def)
qed

interpretation ends: session_listeners "\<lambda>h. vt_endSession (server_vtable version) h sid"
proof
  show "vt_endSession (server_vtable version) h sid (vt_endSession (server_vtable version) h sid w) =
      vt_endSession (server_vtable version) h sid w" for h and w :: "'a pm_world_scheme"
    by (cases h) (simp_all add: server_vtable_def gc_endSession_def pm_end_again)
  show "vt_endSession (server_vtable version) g sid (vt_endSession (server_vtable version) h sid w) =
      vt_endSession (server_vtable version) h sid (vt_endSession (server_vtable version) g sid w)"
    for g h and w :: "'a pm_world_scheme"
    by (cases g; cases h) (simp_all add: server_vtable_def gc_endSession_def)
qed

lemma fold_handlers: "fold (\<lambda>e. f (snd e)) hs w = fold f (map snd hs) w"
  by (induction hs arbitrary: w) simp_all

lemma server_start:
  "startSession (server_vtable version) sid server_handlers w =
     pm_startSession sid (world_log Info (''RequestProcessor: session '' @ show_d sid @ '' started'') w)"
proof -
  have "fold (\<lambda>h. vt_startSession (server_vtable version) h sid) (map snd server_handlers) v =
      fold (\<lambda>h. vt_startSession (server_vtable version) h sid) (remdups (map snd server_handlers)) v"
    for v :: "'a pm_world_scheme"
    by (rule starts.notify_remdups)
  then show ?thesis
    by (simp add: startSession_def fold_handlers [where f = "\<lambda>h. vt_startSession (server_vtable version) h sid"]
        server_handlers_def server_vtable_def gc_startSession_def)
qed

lemma server_end:
  "endSession (server_vtable version) sid server_handlers w =
     world_log Info (''RequestProcessor: session '' @ show_d sid @ '' finished'') (pm_endSession sid w)"
proof -
  have "fold (\<lambda>h. vt_endSession (server_vtable version) h sid) (map snd server_handlers) v =
      fold (\<lambda>h. vt_endSession (server_vtable version) h sid) (remdups (map snd server_handlers)) v"
    for v :: "'a pm_world_scheme"
    by (rule ends.notify_remdups)
  then show ?thesis
    by (simp add: endSession_def fold_handlers [where f = "\<lambda>h. vt_endSession (server_vtable version) h sid"]
        server_handlers_def server_vtable_def gc_endSession_def)
qed

section \<open>Requests to the server\<close>

lemma dispatch_single:
  assumes "mm_equal_range key hs = [h]" and "NUL \<notin> set key"
    and "vt_process V h sid key rid request (TableBag [] []) w = (Ok (True, response), w')"
    and "propertyBagToJson (env_reg E) response = Ok out"
  shows "rp_dispatch E V hs sid key rid request w =
    (Ok out, LogDebug (CHR 0x0A # ''<- '' @ out @ [CHR 0x0A]) w')"
  using assms by (simp add: rp_dispatch_def)

lemma request_served:
  assumes "parse request = Inr (request_json rid key)" and "mm_equal_range key hs = [h]" and "NUL \<notin> set key"
    and "vt_process V h sid key rid (request_table rid key) (TableBag [] [])
      (LogDebug (CHR 0x0A # ''-> '' @ cstr request @ [CHR 0x0A]) w) = (Ok (True, response), w')"
    and "propertyBagToJson server_registry response = Ok out"
  shows "rp_process parse server_env V hs sid request w =
    (Ok out, LogDebug (CHR 0x0A # ''<- '' @ out @ [CHR 0x0A]) w')"
  using dispatch_single [OF assms(2,3,4), of server_env out] assms(5)
  by (simp add: request_process [of parse request, OF assms(1)])

lemma entries_text:
  assumes "\<forall>pv \<in> set vs. typed_value server_registry pv"
  shows "propertyBagToJson server_registry (TableBag [] (map entry vs)) =
    Ok (render dtoa (JObj (map member_json vs)))"
proof -
  have "prints server_registry (TableBag [] (map entry vs))"
    using assms prints_entry by fastforce
  moreover have "json_of_bag (TableBag [] (map entry vs)) = JObj (map member_json vs)"
    by (simp add: member_json_def comp_def)
  ultimately show ?thesis using prints_text [of server_registry "TableBag [] (map entry vs)" dtoa]
    by (simp del: json_of_bag.simps render.simps)
qed

definition stop_json :: "i32 \<Rightarrow> json" where
  "stop_json rid = JObj [(''request.id'', JInt (sint rid)), (''response.status'', JStr Success)]"

definition version_json :: "string \<Rightarrow> i32 \<Rightarrow> json" where
  "version_json version rid = JObj [(''request.id'', JInt (sint rid)), (''response.status'', JStr Success),
     (''response.srv_version'', JStr (version_text version))]"

lemma LogDebug_fields [simp]:
  "gc_exitCondition (LogDebug m w) = gc_exitCondition w" "pm_sessions (LogDebug m w) = pm_sessions w"
  "pm_procFs (LogDebug m w) = pm_procFs w"
  by (simp_all add: LogDebug_def world_log_def)

lemma world_log_fields [simp]:
  "gc_exitCondition (world_log lvl m w) = gc_exitCondition w" "pm_sessions (world_log lvl m w) = pm_sessions w"
  "pm_procFs (world_log lvl m w) = pm_procFs w"
  by (simp_all add: world_log_def)

lemma stop_served:
  assumes "parse request = Inr (request_json rid ''stop'')"
  shows "\<exists>w'. rpi_process (server_processor parse version) sid request w =
      (Ok (render (\<lambda>_. []) (stop_json rid)), w') \<and>
    c_signaled (gc_exitCondition w') \<and> pm_sessions w' = pm_sessions w"
proof -
  have out: "propertyBagToJson server_registry
      (TableBag [] (map entry [(Request_Id, AInt rid), (Response_Status, AString Success)])) =
      Ok (render (\<lambda>_. []) (stop_json rid))"
    using entries_text [of "[(Request_Id, AInt rid), (Response_Status, AString Success)]" "\<lambda>_. []"]
    by (simp add: typed_fields stop_json_def member_json_def response_keys)
  have h: "vt_process (server_vtable version) GlobalHandler sid ''stop'' rid (request_table rid ''stop'') (TableBag [] []) v =
      (Ok (True, TableBag [] (map entry [(Request_Id, AInt rid), (Response_Status, AString Success)])),
       (world_log Info ''GlobalCmdHandler: [stop] command received'' v)
         \<lparr>gc_exitCondition := condition_set (gc_exitCondition v)\<rparr>)" for v :: "'a pm_world_scheme"
    by (simp only: server_vtable_def vtable.select_convs handler.case gc_stop)
  show ?thesis
    using request_served [of parse request, OF assms handlers_of(1) _ h out, of w]
    by (simp add: server_processor_def condition_set_def)
qed

lemma processes_served:
  assumes "parse request = Inr (request_json rid key)" and "key = ''list_processes'' \<or> key = ''diff_processes''"
    and "um_find (pm_sessions w) sid = Some s"
    and "readProcesses (key = ''list_processes'') (s, LogDebug (CHR 0x0A # ''-> '' @ cstr request @ [CHR 0x0A]) w) =
      (Ok (), (s', w1))"
  shows "\<exists>w'. rpi_process (server_processor parse version) sid request w =
      (Ok (render (\<lambda>_. []) (response_json (key = ''list_processes'') s' rid)), w') \<and>
    pm_sessions w' = um_update sid s' (pm_sessions w1)"
proof -
  let ?b = "response_bag (key = ''list_processes'') s' rid"
  have key: "mm_equal_range key server_handlers = [ProcessHandler]" "NUL \<notin> set key"
    using assms(2) handlers_of by auto
  have h: "vt_process (server_vtable version) ProcessHandler sid key rid (request_table rid key) (TableBag [] [])
        (LogDebug (CHR 0x0A # ''-> '' @ cstr request @ [CHR 0x0A]) w) =
      (Ok (True, ?b), w1\<lparr>pm_sessions := um_update sid s' (pm_sessions w1)\<rparr>)"
    using assms(2,3,4) by (auto simp: server_vtable_def pm_process_def listProcesses_def list_response_Ok)
  show ?thesis
    using request_served [of parse request, OF assms(1) key h response_text [where dtoa = "\<lambda>_. []"]]
    by (simp add: server_processor_def)
qed

section \<open>A request over the wire\<close>

lemma length_show_i32: "length (show_int (sint (i :: i32))) \<le> 11"
proof -
  have "nat (sint i) < 10 ^ Suc 9" "nat (- sint i) < 10 ^ Suc 9"
    using sint_bounds [of i] by simp_all
  then show ?thesis
    using length_show_nat [of "nat (sint i)" 9] length_show_nat [of "nat (- sint i)" 9] by (simp add: show_int_def)
qed

lemma length_simple: "length (simple rid command) \<le> 200 + 6 * length (cstr command)"
  using length_WriteString [of "cstr command"] length_WriteString [of "''request.id''"]
    length_WriteString [of "''request.request''"] length_show_i32 [of rid]
  by (simp add: simple_text request_json_def)

lemma simple_no_nul: "NUL \<notin> set (simple rid command)"
  by (simp add: simple_text message_no_nul)

lemma simple_read: "ParseInsitu D (simple rid command) = Inr (request_json rid (cstr command))"
proof -
  have "printable (request_json rid (cstr command))"
    using sint_bounds [of rid] by (simp add: request_json_def)
  then show ?thesis by (simp add: simple_text value_text_read)
qed

definition server_options :: SessionHandlerOptions where
  "server_options = \<lparr>sho_bufferSize = 65536, sho_bufferLimit = 65536\<rparr>"

end
