(* ===== verification/Kes_Client.thy ===== *)
theory Kes_Client
  imports Kes_Session Kes_World Kes_CLib
begin

text \<open>
  The client of \<^verbatim>\<open>kesctl\<close> (\<^verbatim>\<open>src/kesctl/client.cxx\<close>): it connects, sends one request, collects the
  answer with the same brace counter as the server, prints it and stops the event loop. An
  asynchronous operation is what the client is waiting for (\<open>cl_pending\<close>); its completion is an
  input. Name resolution and connecting are parameters.
\<close>

section \<open>State\<close>

datatype pending = PWrite string | PRead rbuf

datatype completion = Failed string | Sent nat | Received string

record 'e client =
  cl_verbose :: bool
  cl_cout :: string
  cl_cerr :: string
  cl_stop :: bool
  cl_endpoints :: "'e list"
  cl_socket :: "bool option"
  cl_bufferIn :: cbuf
  cl_jsonDepth :: nat
  cl_jsonDepthMax :: nat
  cl_pending :: "pending option"
  cl_ioStopped :: bool

definition kBufferSize :: nat where
  "kBufferSize = 65536"

definition kBufferLimit :: nat where
  "kBufferLimit = 64 * 1024 * 1024"

definition cout :: "string \<Rightarrow> 'e client \<Rightarrow> 'e client" where
  "cout m c = c\<lparr>cl_cout := cl_cout c @ m\<rparr>"

definition cerr :: "string \<Rightarrow> 'e client \<Rightarrow> 'e client" where
  "cerr m c = c\<lparr>cl_cerr := cl_cerr c @ m\<rparr>"

definition cout_verbose :: "string \<Rightarrow> 'e client \<Rightarrow> 'e client" where
  "cout_verbose m c = (if cl_verbose c then cout m c else c)"

section \<open>The code\<close>

text \<open>
  The constructor: \<open>resolve\<close> gives the addresses of a host name or an error text, \<open>show\<close> prints an
  address, \<open>endpoint\<close> adds the port.
\<close>

definition Client ::
    "(string \<Rightarrow> string + 'a list) \<Rightarrow> ('a \<Rightarrow> string) \<Rightarrow> ('a \<Rightarrow> u16 \<Rightarrow> 'e) \<Rightarrow> string \<Rightarrow> u16 \<Rightarrow> bool \<Rightarrow> 'e client outcome" where
  "Client resolve showa endpoint addr port verbose =
     (case resolve addr of
        Inl ec \<Rightarrow> Throw (KesExn (Exception (''Failed to resolve the server address: '' @ ec) []))
      | Inr as \<Rightarrow>
          Ok (fold (\<lambda>a c. (cout_verbose (cstr addr @ '' -> '' @ showa a @ [NL]) c)
                     \<lparr>cl_endpoints := cl_endpoints c @ [endpoint a port]\<rparr>) as
               \<lparr>cl_verbose = verbose, cl_cout = [], cl_cerr = [], cl_stop = False, cl_endpoints = [],
                cl_socket = None, cl_bufferIn = ContinuousBuffer kBufferSize kBufferLimit,
                cl_jsonDepth = 0, cl_jsonDepthMax = 0, cl_pending = None, cl_ioStopped = False\<rparr>))"

definition client_stop :: "'e client \<Rightarrow> 'e client" where
  "client_stop c = c\<lparr>cl_stop := True\<rparr>"

text \<open>The endpoints are tried in order; \<open>connect\<close> tells which of them accept the connection.\<close>

fun try_endpoints :: "('e \<Rightarrow> bool) \<Rightarrow> ('e \<Rightarrow> string) \<Rightarrow> 'e list \<Rightarrow> 'e client \<Rightarrow> bool \<times> 'e client" where
  "try_endpoints connect showe [] c = (False, c)"
| "try_endpoints connect showe (ep # eps) c =
     (let c = cout_verbose (''Connecting to '' @ showe ep @ ''...'' @ [NL]) c in
      if connect ep then
        (True, cout_verbose (''Connected to '' @ showe ep @ [NL]) (c\<lparr>cl_socket := Some True\<rparr>))
      else try_endpoints connect showe eps (c\<lparr>cl_socket := None\<rparr>))"

definition checkConnection :: "('e \<Rightarrow> bool) \<Rightarrow> ('e \<Rightarrow> string) \<Rightarrow> 'e client \<Rightarrow> bool \<times> 'e client" where
  "checkConnection connect showe c =
     (if cl_socket c = Some True then (True, c)
      else try_endpoints connect showe (cl_endpoints c) c)"

definition client_reset :: "'e client \<Rightarrow> 'e client" where
  "client_reset c = c\<lparr>cl_jsonDepth := 0, cl_jsonDepthMax := 0, cl_bufferIn := cb_reset (cl_bufferIn c)\<rparr>"

definition client_write :: "string \<Rightarrow> 'e client \<Rightarrow> 'e client" where
  "client_write data c =
     (cout_verbose (''Sending '' @ show_nat (length data) @ '' bytes'' @ [NL]) c)\<lparr>cl_pending := Some (PWrite data)\<rparr>"

definition client_command ::
    "('e \<Rightarrow> bool) \<Rightarrow> ('e \<Rightarrow> string) \<Rightarrow> string \<Rightarrow> 'e client \<Rightarrow> unit outcome \<times> 'e client" where
  "client_command connect showe cmd c =
     (if cl_stop c then (Ok (), c)
      else
        case checkConnection connect showe (client_reset c) of
          (False, c) \<Rightarrow> (Throw (KesExn (Exception ''Unable to connect to the server'' [])), c)
        | (True, c) \<Rightarrow> (Ok (), client_write cmd (cout_verbose (cmd @ [NL]) c)))"

text \<open>A buffer is made at the first read and reused afterwards.\<close>

definition client_read :: "rbuf option \<Rightarrow> 'e client \<Rightarrow> 'e client" where
  "client_read buffer c =
     c\<lparr>cl_pending := Some (PRead (case buffer of None \<Rightarrow> ReadBuffer kBufferSize | Some b \<Rightarrow> b))\<rparr>"

definition processJson :: "string \<Rightarrow> 'e client \<Rightarrow> 'e client" where
  "processJson data c = cout (data @ [NL]) c"

text \<open>The brace counter, with the counters it leaves behind when it complains.\<close>

fun count_braces :: "string \<Rightarrow> nat \<Rightarrow> nat \<Rightarrow> bool \<times> nat \<times> nat" where
  "count_braces [] depth depthMax = (True, depth, depthMax)"
| "count_braces (ch # cs) depth depthMax =
     (if ch = LBRACE then
        let depth = sz_add depth 1 in
        count_braces cs depth (if depth > depthMax then depth else depthMax)
      else if ch = RBRACE then
        if depth = 0 then (False, depth, depthMax) else count_braces cs (depth - 1) depthMax
      else count_braces cs depth depthMax)"

definition failed_response :: "string \<Rightarrow> 'e client \<Rightarrow> bool \<times> 'e client" where
  "failed_response m c = (True, cerr (''Failed to process the response: '' @ m @ [NL]) c)"

text \<open>The result tells whether the client needs no more data.\<close>

definition client_process :: "string \<Rightarrow> 'e client \<Rightarrow> bool \<times> 'e client" where
  "client_process data c =
     (let posPrev = cb_used (cl_bufferIn c); (b, pushed) = cb_push data (cl_bufferIn c);
          c = c\<lparr>cl_bufferIn := b\<rparr> in
      if \<not> pushed then failed_response ''Packet size exceeds limit'' c
      else
        let posCur = cb_used b in
        if posCur = posPrev then (False, c)
        else
          (case count_braces (drop posPrev (cb_bytes b)) (cl_jsonDepth c) (cl_jsonDepthMax c) of
             (valid, depth, depthMax) \<Rightarrow>
               let c = c\<lparr>cl_jsonDepth := depth, cl_jsonDepthMax := depthMax\<rparr> in
               if \<not> valid then failed_response ''Invalid JSON'' c
               else if depth = 0 then
                 if depthMax = 0 then (False, c)
                 else
                   let b = fst (cb_push [NUL] b);
                       c = processJson (take posCur (cb_bytes b)) (c\<lparr>cl_bufferIn := b\<rparr>) in
                   (True, c\<lparr>cl_bufferIn := fst (cb_pop (sz_add posCur 1) b), cl_jsonDepthMax := 0\<rparr>)
               else (False, c)))"

definition client_onWrite :: "completion \<Rightarrow> 'e client \<Rightarrow> 'e client" where
  "client_onWrite r c =
     (case r of
        Sent transferred \<Rightarrow>
          (let c = cout_verbose (''    Sent '' @ show_nat transferred @ '' bytes'' @ [NL]) c in
           if cl_stop c then c else client_read None c)
      | Failed m \<Rightarrow> cerr (''write() failed: '' @ m @ [NL]) c
      | Received _ \<Rightarrow> c)"

definition client_onRead :: "completion \<Rightarrow> rbuf \<Rightarrow> 'e client \<Rightarrow> 'e client" where
  "client_onRead r buffer c =
     (case r of
        Received d \<Rightarrow>
          (let c = cout_verbose (''Received '' @ show_nat (length d) @ '' bytes'' @ [NL]) c;
               buffer = rb_swap (rb_receive d buffer) in
           case client_process (take (length d) (rb_buffers buffer ! rb_r_index buffer)) c of
             (False, c) \<Rightarrow> client_read (Some buffer) c
           | (True, c) \<Rightarrow> c\<lparr>cl_ioStopped := True\<rparr>)
      | Failed m \<Rightarrow> cerr (''read() failed: '' @ m @ [NL]) c
      | Sent _ \<Rightarrow> c)"

text \<open>The event loop: the completion of the pending operation, as long as the loop is not stopped.\<close>

definition client_complete :: "completion \<Rightarrow> 'e client \<Rightarrow> 'e client" where
  "client_complete r c =
     (if cl_ioStopped c then c
      else
        case cl_pending c of
          None \<Rightarrow> c
        | Some (PWrite data) \<Rightarrow> client_onWrite r (c\<lparr>cl_pending := None\<rparr>)
        | Some (PRead buffer) \<Rightarrow> client_onRead r buffer (c\<lparr>cl_pending := None\<rparr>))"

text \<open>The destructor shuts an open socket down; when this fails it throws, and the program is terminated.\<close>

definition Client_destroy :: "string option \<Rightarrow> 'e client \<Rightarrow> unit outcome \<times> 'e client" where
  "Client_destroy shutdownError c =
     (if cl_socket c = Some True then
        (case shutdownError of
           Some ec \<Rightarrow> (Terminate, c)
         | None \<Rightarrow> (Ok (), c\<lparr>cl_socket := Some False\<rparr>))
      else (Ok (), c))"

section \<open>The collected bytes\<close>

abbreviation cl_bytes :: "'e client \<Rightarrow> string" where
  "cl_bytes c \<equiv> cb_bytes (cl_bufferIn c)"

abbreviation cl_room :: "'e client \<Rightarrow> nat" where
  "cl_room c \<equiv> cb_room (cl_bufferIn c)"

definition client_inv :: "'e client \<Rightarrow> bool" where
  "client_inv c \<longleftrightarrow>
     cb_inv (cl_bufferIn c) \<and> balance (cl_bytes c) 0 = Some (cl_jsonDepth c) \<and>
     (cl_jsonDepthMax c = 0 \<longleftrightarrow> LBRACE \<notin> set (cl_bytes c))"

lemma count_scan:
  "scan_braces s d m = (case count_braces s d m of (valid, e, m') \<Rightarrow> if valid then Some (e, m') else None)"
  by (induction s d m rule: scan_braces.induct) (simp_all add: Let_def)

lemma cout_fields [simp]:
  "cl_bufferIn (cout m c) = cl_bufferIn c" "cl_jsonDepth (cout m c) = cl_jsonDepth c"
  "cl_jsonDepthMax (cout m c) = cl_jsonDepthMax c" "cl_cout (cout m c) = cl_cout c @ m"
  "cl_pending (cout m c) = cl_pending c" "cl_ioStopped (cout m c) = cl_ioStopped c" "cl_verbose (cout m c) = cl_verbose c"
  "cl_cerr (cout m c) = cl_cerr c" "cl_stop (cout m c) = cl_stop c"
  by (simp_all add: cout_def)

lemma cerr_fields [simp]:
  "cl_bufferIn (cerr m c) = cl_bufferIn c" "cl_cout (cerr m c) = cl_cout c" "cl_cerr (cerr m c) = cl_cerr c @ m"
  "cl_pending (cerr m c) = cl_pending c" "cl_ioStopped (cerr m c) = cl_ioStopped c" "cl_verbose (cerr m c) = cl_verbose c"
  by (simp_all add: cerr_def)

text \<open>What the client does with a chunk, in terms of the bytes it has.\<close>

lemma client_process_correct:
  assumes c: "client_inv c" and d: "length data < 2 ^ 63"
  defines "acc \<equiv> cl_bytes c"
  shows "if length (acc @ data) > cl_room c then fst (client_process data c) \<and>
      cl_cerr (snd (client_process data c)) = cl_cerr c @ ''Failed to process the response: Packet size exceeds limit'' @ [NL] \<and>
      cl_cout (snd (client_process data c)) = cl_cout c
    else if data \<noteq> [] \<and> balance (acc @ data) 0 = None then fst (client_process data c) \<and>
      cl_cerr (snd (client_process data c)) = cl_cerr c @ ''Failed to process the response: Invalid JSON'' @ [NL] \<and>
      cl_cout (snd (client_process data c)) = cl_cout c
    else if data = [] \<or> \<not> complete (acc @ data) then
      (\<exists>c'. client_process data c = (False, c') \<and> client_inv c' \<and> cl_bytes c' = acc @ data \<and> cl_room c' = cl_room c \<and>
        c' = c\<lparr>cl_bufferIn := cl_bufferIn c', cl_jsonDepth := cl_jsonDepth c', cl_jsonDepthMax := cl_jsonDepthMax c'\<rparr>)
    else
      (\<exists>c'. client_process data c = (True, c') \<and> client_inv c' \<and> cl_bytes c' = [] \<and> cl_room c' = cl_room c \<and>
        cl_cerr c' = cl_cerr c \<and> cl_cout c' = cl_cout c @ acc @ data @ [NL])"
proof -
  have b: "cb_inv (cl_bufferIn c)" and bal: "balance acc 0 = Some (cl_jsonDepth c)"
    and dm: "cl_jsonDepthMax c = 0 \<longleftrightarrow> LBRACE \<notin> set acc"
    using c by (simp_all add: client_inv_def acc_def)
  obtain b1 ok where p: "cb_push data (cl_bufferIn c) = (b1, ok)" by (cases "cb_push data (cl_bufferIn c)")
  have b1: "cb_inv b1" "cb_room b1 = cl_room c" "ok = (length (acc @ data) \<le> cl_room c)"
      "cb_bytes b1 = (if ok then acc @ data else acc)"
    using cb_push_correct [OF b d] cb_length_bytes [OF b] p by (simp_all add: acc_def)
  have used: "cb_used (cl_bufferIn c) = length acc" "cb_used b1 = length (cb_bytes b1)"
    using cb_length_bytes [OF b] cb_length_bytes [OF b1(1)] by (simp_all add: acc_def)
  show ?thesis
  proof (cases ok)
    case False
    then show ?thesis using p b1 by (auto simp: client_process_def failed_response_def Let_def)
  next
    case True
    have room: "cl_room c < 2 ^ 63" using b by (simp add: cb_inv_def)
    have len: "length acc + length data < 2 ^ 63" using True b1(3) room by simp
    show ?thesis
    proof (cases "data = []")
      case nil: True
      then show ?thesis
        using p b1 used c True by (auto simp: client_process_def client_inv_def acc_def Let_def)
    next
      case more: False
      have drop: "drop (cb_used (cl_bufferIn c)) (cb_bytes b1) = data" using True b1(4) used by simp
      have "length (acc @ data) < 2 ^ 63" using len by simp
      from bal dm this show ?thesis
      proof (cases rule: chunk_scanned)
        case invalid
        then have "\<not> fst (count_braces data (cl_jsonDepth c) (cl_jsonDepthMax c))"
          using count_scan [of data "cl_jsonDepth c" "cl_jsonDepthMax c"] by (auto split: prod.splits)
        then show ?thesis
          using p b1 used True more invalid(1) drop
          by (auto simp: client_process_def failed_response_def Let_def split: prod.split)
      next
        case (valid e m)
        then have m: "count_braces data (cl_jsonDepth c) (cl_jsonDepthMax c) = (True, e, m)"
          using count_scan [of data "cl_jsonDepth c" "cl_jsonDepthMax c"] by (auto split: prod.splits if_splits)
        note b2 = cb_push_correct [OF b1(1), of "[NUL]", simplified]
        have exact: "sz_add (length (acc @ data)) 1 = Suc (length (acc @ data))" using len by (simp add: sz_add_def)
        show ?thesis
          using p b1 used True more valid drop m b2 exact cb_pop_correct(1-3) [of "fst (cb_push [NUL] b1)"]
          by (auto simp: client_process_def processJson_def client_inv_def Let_def split: if_splits)
      qed
    qed
  qed
qed

section \<open>Reading an answer in pieces\<close>

text \<open>A silent client that waits for data, with the bytes \<open>acc\<close> of the answer so far.\<close>

definition reading :: "nat \<Rightarrow> string \<Rightarrow> 'e client \<Rightarrow> bool" where
  "reading n acc c \<longleftrightarrow> \<not> cl_ioStopped c \<and> \<not> cl_verbose c \<and> client_inv c \<and> cl_bytes c = acc \<and>
     (\<exists>b. cl_pending c = Some (PRead b) \<and> rb_inv b \<and> rb_size b = n)"

lemma read_step:
  assumes "reading n acc c" and "length d \<le> n" and "length d < 2 ^ 63" and "d \<noteq> []"
    and "length (acc @ d) \<le> cl_room c" and "balance (acc @ d) 0 \<noteq> None"
  shows "if complete (acc @ d) then
      cl_ioStopped (client_complete (Received d) c) \<and> cl_cerr (client_complete (Received d) c) = cl_cerr c \<and>
      cl_cout (client_complete (Received d) c) = cl_cout c @ acc @ d @ [NL]
    else reading n (acc @ d) (client_complete (Received d) c) \<and>
      cl_room (client_complete (Received d) c) = cl_room c \<and> cl_cerr (client_complete (Received d) c) = cl_cerr c \<and>
      cl_cout (client_complete (Received d) c) = cl_cout c"
proof -
  obtain b where b: "cl_pending c = Some (PRead b)" "rb_inv b" "rb_size b = n"
    using assms(1) by (auto simp: reading_def)
  let ?b = "rb_swap (rb_receive d b)"
  let ?c = "c\<lparr>cl_pending := None\<rparr>"
  have c: "client_inv ?c" "cl_bytes ?c = acc" "\<not> cl_verbose c" "\<not> cl_ioStopped c"
    using assms(1) by (auto simp: reading_def client_inv_def)
  note rb = rb_received [OF b(2), of d]
  have step: "client_complete (Received d) c =
      (case client_process d ?c of
         (False, c) \<Rightarrow> client_read (Some ?b) c | (True, c) \<Rightarrow> c\<lparr>cl_ioStopped := True\<rparr>)"
    using b c(3,4) rb assms(2) by (simp add: client_complete_def client_onRead_def cout_verbose_def Let_def)
  show ?thesis
  proof (cases "complete (acc @ d)")
    case True
    then obtain c' where "client_process d ?c = (True, c')" "cl_cerr c' = cl_cerr c" "cl_cout c' = cl_cout c @ acc @ d @ [NL]"
      using client_process_correct [OF c(1) assms(3)] assms(4-6) c(2) by auto
    then show ?thesis using step True by simp
  next
    case False
    then obtain c' where c': "client_process d ?c = (False, c')" "client_inv c'" "cl_bytes c' = acc @ d" "cl_room c' = cl_room c"
        "c' = ?c\<lparr>cl_bufferIn := cl_bufferIn c', cl_jsonDepth := cl_jsonDepth c', cl_jsonDepthMax := cl_jsonDepthMax c'\<rparr>"
      using client_process_correct [OF c(1) assms(3)] assms(4-6) c(2) by auto
    have "cl_ioStopped c' = cl_ioStopped c" "cl_verbose c' = cl_verbose c" "cl_cout c' = cl_cout c" "cl_cerr c' = cl_cerr c"
      by (subst c'(5); simp)+
    then show ?thesis
      using step False c' c rb b assms(2) by (auto simp: reading_def client_read_def client_inv_def)
  qed
qed

lemma read_message:
  assumes "reading n acc c" and "\<forall>d \<in> set cs. length d \<le> n \<and> d \<noteq> []" and "cs \<noteq> []"
    and "message (acc @ concat cs)" and "length (acc @ concat cs) \<le> cl_room c"
  defines "c' \<equiv> fold client_complete (map Received cs) c"
  shows "cl_ioStopped c' \<and> cl_cout c' = cl_cout c @ acc @ concat cs @ [NL] \<and> cl_cerr c' = cl_cerr c"
  unfolding c'_def using assms(1-5)
proof (induction cs arbitrary: acc c)
  case (Cons d ds)
  have room: "cl_room c < 2 ^ 63" using Cons.prems(1) by (simp add: reading_def client_inv_def cb_inv_def)
  have bal: "balance (acc @ d) 0 \<noteq> None"
    using Cons.prems(4) by (auto simp: message_def complete_def balance_append split: option.splits)
  note step = read_step [OF Cons.prems(1), of d]
  show ?case
  proof (cases "ds = []")
    case True
    then have "complete (acc @ d)" using Cons.prems(4) by (simp add: message_def)
    then show ?thesis using step Cons.prems room bal True by simp
  next
    case False
    then have "concat ds \<noteq> []" using Cons.prems(2) by (cases ds) auto
    then have "\<not> complete (acc @ d)"
      using message_prefix(1) [of "acc @ d" "concat ds"] Cons.prems(4) by simp
    then have "reading n (acc @ d) (client_complete (Received d) c)"
        "cl_room (client_complete (Received d) c) = cl_room c"
        "cl_cerr (client_complete (Received d) c) = cl_cerr c"
        "cl_cout (client_complete (Received d) c) = cl_cout c"
      using step Cons.prems room bal by simp_all
    then show ?thesis using Cons.IH [of "acc @ d" "client_complete (Received d) c"] Cons.prems False by simp
  qed
qed simp

section \<open>One command\<close>

lemma client_new:
  assumes "Client resolve showa endpoint addr port False = Ok c"
  shows "client_inv c" "cl_bytes c = []" "cl_room c = kBufferLimit" "\<not> cl_verbose c" "\<not> cl_stop c" "\<not> cl_ioStopped c"
    "cl_cout c = []" "cl_cerr c = []" "cl_socket c = None"
proof -
  have "fold (\<lambda>a c. (cout_verbose (cstr addr @ '' -> '' @ showa a @ [NL]) c)\<lparr>cl_endpoints := cl_endpoints c @ [endpoint a port]\<rparr>) as d =
      d\<lparr>cl_endpoints := cl_endpoints d @ map (\<lambda>a. endpoint a port) as\<rparr>" if "\<not> cl_verbose d" for as d
    using that by (induction as arbitrary: d) (simp_all add: cout_verbose_def)
  then have "\<exists>eps. c = \<lparr>cl_verbose = False, cl_cout = [], cl_cerr = [], cl_stop = False, cl_endpoints = eps,
      cl_socket = None, cl_bufferIn = ContinuousBuffer kBufferSize kBufferLimit,
      cl_jsonDepth = 0, cl_jsonDepthMax = 0, cl_pending = None, cl_ioStopped = False\<rparr>"
    using assms by (auto simp: Client_def split: sum.splits)
  then show "client_inv c" "cl_bytes c = []" "cl_room c = kBufferLimit" "\<not> cl_verbose c" "\<not> cl_stop c" "\<not> cl_ioStopped c"
    "cl_cout c = []" "cl_cerr c = []" "cl_socket c = None"
    by (auto simp: client_inv_def cb_inv_init kBufferSize_def kBufferLimit_def cb_room_def ContinuousBuffer_def
        cb_inv_def cb_bytes_def)
qed

lemma try_endpoints_silent:
  assumes "\<not> cl_verbose c"
  shows "try_endpoints connect showe eps c =
    (if \<exists>ep \<in> set eps. connect ep then (True, c\<lparr>cl_socket := Some True\<rparr>)
     else (False, if eps = [] then c else c\<lparr>cl_socket := None\<rparr>))"
  using assms by (induction eps arbitrary: c) (auto simp: cout_verbose_def)

lemma command_sent:
  assumes "client_inv c" "\<not> cl_verbose c" "\<not> cl_stop c" "cl_socket c = None" "\<exists>ep \<in> set (cl_endpoints c). connect ep"
  shows "client_command connect showe cmd c =
    (Ok (), (client_reset c)\<lparr>cl_socket := Some True, cl_pending := Some (PWrite cmd)\<rparr>)"
  using assms by (simp add: client_command_def checkConnection_def client_reset_def try_endpoints_silent client_write_def
      cout_verbose_def)

lemma reading_after_write:
  assumes "client_inv c" "\<not> cl_verbose c" "\<not> cl_stop c" "\<not> cl_ioStopped c"
  shows "reading kBufferSize []
    (client_complete (Sent k) ((client_reset c)\<lparr>cl_socket := Some True, cl_pending := Some (PWrite cmd)\<rparr>))"
  using assms rb_inv_init [of kBufferSize] cb.reset_invar [of "cl_bufferIn c"] cb.reset_bytes [of "cl_bufferIn c"]
  by (simp add: client_complete_def client_onWrite_def cout_verbose_def client_read_def reading_def client_inv_def
      client_reset_def ReadBuffer_def)

lemma exchange:
  assumes new: "Client resolve showa endpoint addr port False = Ok c" and "\<exists>ep \<in> set (cl_endpoints c). connect ep"
    and m: "message m" "length m \<le> kBufferLimit"
    and cs: "concat cs = m" "\<forall>d \<in> set cs. length d \<le> kBufferSize \<and> d \<noteq> []"
  shows "\<exists>c1. client_command connect showe cmd c = (Ok (), c1) \<and> cl_pending c1 = Some (PWrite cmd) \<and>
    (let c2 = fold client_complete (Sent k # map Received cs) c1 in
     cl_ioStopped c2 \<and> cl_cout c2 = m @ [NL] \<and> cl_cerr c2 = [])"
proof -
  note c = client_new [OF new]
  let ?c1 = "(client_reset c)\<lparr>cl_socket := Some True, cl_pending := Some (PWrite cmd)\<rparr>"
  have r: "reading kBufferSize [] (client_complete (Sent k) ?c1)"
    by (rule reading_after_write [OF c(1,4,5,6)])
  have fields: "cl_room (client_complete (Sent k) ?c1) = kBufferLimit" "cl_cout (client_complete (Sent k) ?c1) = []"
      "cl_cerr (client_complete (Sent k) ?c1) = []"
    using c by (simp_all add: client_complete_def client_onWrite_def cout_verbose_def client_read_def client_reset_def
        cb.reset_room)
  have "cs \<noteq> []" using m cs by (auto simp: message_def complete_def)
  then show ?thesis
    using command_sent [OF c(1,4,5,9) assms(2), of showe cmd] read_message [OF r cs(2)] m cs(1) fields by simp
qed

text \<open>
  A command of the client, from start to end: the request is sent as it is given, and when the answer
  is one message, in whatever pieces of at most the buffer's size it comes, the client prints exactly
  this message and a newline and stops the event loop.
\<close>

lemma client_exchange:
  assumes "Client resolve showa endpoint addr port False = Ok c" and "\<exists>ep \<in> set (cl_endpoints c). connect ep"
    and "message m" and "length m \<le> kBufferLimit"
    and "concat cs = m" and "\<forall>d \<in> set cs. length d \<le> kBufferSize \<and> d \<noteq> []"
  shows "\<exists>c1. client_command connect showe cmd c = (Ok (), c1) \<and> cl_pending c1 = Some (PWrite cmd) \<and>
    (let c2 = fold client_complete (Sent k # map Received cs) c1 in
     cl_ioStopped c2 \<and> cl_cout c2 = m @ [NL] \<and> cl_cerr c2 = [])"
  by (rule exchange [OF assms])

text \<open>
  C34. When a read or a write fails, for instance because the server has dropped the connection, the client
  only reports it: nothing is pending any more, the event loop is not stopped, and no completion that
  could come changes this. The program waits until it gets a signal.
\<close>

theorem client_stuck:
  assumes "\<not> cl_ioStopped c" and "cl_pending c = Some p"
  shows "case client_complete (Failed m) c of c' \<Rightarrow>
    cl_pending c' = None \<and> \<not> cl_ioStopped c' \<and> cl_cout c' = cl_cout c \<and>
    fold client_complete rs c' = c'"
proof -
  have "fold client_complete rs d = d" if "cl_pending d = None" for d :: "'a client"
    using that by (induction rs) (simp_all add: client_complete_def)
  then show ?thesis
    using assms by (cases p) (simp_all add: client_complete_def client_onWrite_def client_onRead_def)
qed

section \<open>Concrete exchanges\<close>

definition sample_client :: "nat client outcome" where
  "sample_client = Client (\<lambda>_. Inr [0]) (\<lambda>_. ''localhost'') (\<lambda>a port. a) ''localhost'' 6665 False"

lemma client_exchange_witness:
  "\<exists>c c1. sample_client = Ok c \<and> client_command (\<lambda>_. True) (\<lambda>_. []) ''{}'' c = (Ok (), c1) \<and>
     cl_cout (fold client_complete (Sent 2 # map Received [''{'', ''{}'', ''}'']) c1) = ''{{}}'' @ [NL]"
proof -
  obtain c where c: "sample_client = Ok c" "cl_endpoints c = [0]"
    by (simp add: sample_client_def Client_def cout_verbose_def)
  have "length ''{{}}'' \<le> kBufferLimit" "\<forall>d \<in> set [''{'', ''{}'', ''}'']. length d \<le> kBufferSize \<and> d \<noteq> []"
      "\<exists>ep \<in> set (cl_endpoints c). (\<lambda>_. True) ep"
    using c by (simp_all add: kBufferLimit_def kBufferSize_def)
  then show ?thesis
    using client_exchange [OF c(1) [unfolded sample_client_def], of "\<lambda>_. True" "''{{}}''" "[''{'', ''{}'', ''}'']" "\<lambda>_. []" "''{}''" 2]
      message_braces c(1) by (auto simp: Let_def)
qed

definition waiting_client :: "nat client" where
  "waiting_client = \<lparr>cl_verbose = False, cl_cout = [], cl_cerr = [], cl_stop = False, cl_endpoints = [0],
     cl_socket = Some True, cl_bufferIn = ContinuousBuffer 4 4, cl_jsonDepth = 0, cl_jsonDepthMax = 0,
     cl_pending = Some (PRead (ReadBuffer 4)), cl_ioStopped = False\<rparr>"

lemma client_stuck_witness:
  "cl_pending (client_complete (Failed ''End of file'') waiting_client) = None \<and>
   fold client_complete [Received ''{}''] (client_complete (Failed ''End of file'') waiting_client) =
     client_complete (Failed ''End of file'') waiting_client"
  using client_stuck [of waiting_client "PRead (ReadBuffer 4)" "''End of file''" "[Received ''{}'']"]
  by (simp add: waiting_client_def)

end
