(* ===== verification/Kes_NetUtil.thy ===== *)
theory Kes_NetUtil
  imports Kes_CLib
begin

text \<open>
  Server addresses (\<^verbatim>\<open>src/kesrv/util/netutil.cxx\<close>): an address and a port in one text,
  \<^verbatim>\<open>127.0.0.1:8080\<close> or, for IPv6, \<^verbatim>\<open>::1.8080\<close>. Which of the two it is depends on whether the last
  colon comes after the last dot.
\<close>

section \<open>The code\<close>

definition splitAddress :: "string \<Rightarrow> (string \<times> u16) outcome" where
  "splitAddress s =
     (case (find_last CHR ''.'' s, find_last CHR '':'' s) of
        (Some p0, Some p1) \<Rightarrow>
          (let (addressPart, portPart) =
                 (if p1 > p0 then (take p1 s, drop (p1 + 1) s)
                  else if p0 > p1 then (take p0 s, drop (p0 + 1) s)
                  else ([], []));
               port = ucast (strtoul (cstr portPart)) :: u16 in
           if port = 0 then Throw (KesExn (Exception ''Invalid server port'' []))
           else Ok (addressPart, port))
      | _ \<Rightarrow> Throw (KesExn (Exception ''Invalid server address:port pair'' [])))"

text \<open>\<^verbatim>\<open>boost::asio::ip::make_address\<close> is a parameter; it throws on what it cannot read.\<close>

definition endpointFromString :: "(string \<Rightarrow> 'a outcome) \<Rightarrow> string \<Rightarrow> ('a \<times> u16) outcome" where
  "endpointFromString make_address s =
     obind (splitAddress s) (\<lambda>(address, port). omap (\<lambda>a. (a, port)) (make_address address))"

section \<open>Correctness\<close>

lemma show_nat_no [simp]: "\<not> isdigit c \<Longrightarrow> c \<notin> set (show_nat n)"
  using show_nat_digits by blast

lemma not_digits [simp]:
  "\<not> isdigit CHR ''.''" "\<not> isdigit CHR '':''" "\<not> isdigit NUL" "\<not> isdigit CHR '' ''" "\<not> isdigit CHR 0x0A"
  "\<not> isdigit CHR ''-''" "\<not> isdigit CHR '')''" "\<not> isdigit CHR ''(''"
  by (simp_all add: isdigit_def)

text \<open>A separator follows the address when it is the one of the two characters that comes last.\<close>

lemma split_at:
  assumes "sep = CHR '':'' \<and> other = CHR ''.'' \<or> sep = CHR ''.'' \<and> other = CHR '':''"
    and "other \<in> set a" and "CHR ''.'' \<notin> set t" and "CHR '':'' \<notin> set t"
  shows "splitAddress (a @ sep # t) =
    (if (ucast (strtoul (cstr t)) :: u16) = 0 then Throw (KesExn (Exception ''Invalid server port'' []))
     else Ok (a, ucast (strtoul (cstr t))))"
proof -
  obtain i where i: "find_last other a = Some i" "i < length a"
    using assms(2) find_last_Some [of other a] by (cases "find_last other a") auto
  have "find_last other (a @ sep # t) = Some i"
    using assms i by (auto simp: find_last_append split: option.split)
  moreover have "find_last sep (a @ sep # t) = Some (length a)"
    using assms by (auto intro: find_last_split)
  ultimately show ?thesis
    using assms(1) i(2) by (auto simp: splitAddress_def Let_def)
qed

lemma port_number: "n < 2 ^ 64 \<Longrightarrow> (ucast (strtoul (cstr (show_nat n))) :: u16) = of_nat n"
  using strtoul_show_nat [of "[]" n] by (simp add: unsigned_of_nat take_bit_nat_eq_self)

lemma of_nat_u16_0: "(of_nat n :: u16) = 0 \<longleftrightarrow> n mod 65536 = 0"
  by (simp add: word_of_nat_eq_0_iff dvd_eq_mod_eq_0)

text \<open>
  An address that holds a dot, a colon and a port, or one that holds a colon, a dot and a port, is
  split into these two parts. The port is reduced modulo 65536 and rejected only when the remainder
  is 0. A text without a dot or without a colon, such as \<^verbatim>\<open>localhost:6665\<close>, is always rejected.
\<close>

lemma split_address:
  assumes "n < 2 ^ 64"
  shows "(CHR ''.'' \<in> set a \<longrightarrow> splitAddress (a @ CHR '':'' # show_nat n) =
      (if n mod 65536 = 0 then Throw (KesExn (Exception ''Invalid server port'' [])) else Ok (a, of_nat n))) \<and>
    (CHR '':'' \<in> set a \<longrightarrow> splitAddress (a @ CHR ''.'' # show_nat n) =
      (if n mod 65536 = 0 then Throw (KesExn (Exception ''Invalid server port'' [])) else Ok (a, of_nat n))) \<and>
    (CHR ''.'' \<notin> set s \<or> CHR '':'' \<notin> set s \<longrightarrow>
      splitAddress s = Throw (KesExn (Exception ''Invalid server address:port pair'' [])))"
proof (intro conjI impI)
  note port = port_number [OF assms, simplified]
  show "CHR ''.'' \<in> set a \<Longrightarrow> splitAddress (a @ CHR '':'' # show_nat n) =
      (if n mod 65536 = 0 then Throw (KesExn (Exception ''Invalid server port'' [])) else Ok (a, of_nat n))"
    by (simp add: split_at [where other = "CHR ''.''"] port of_nat_u16_0)
  show "CHR '':'' \<in> set a \<Longrightarrow> splitAddress (a @ CHR ''.'' # show_nat n) =
      (if n mod 65536 = 0 then Throw (KesExn (Exception ''Invalid server port'' [])) else Ok (a, of_nat n))"
    by (simp add: split_at [where other = "CHR '':''"] port of_nat_u16_0)
  assume "CHR ''.'' \<notin> set s \<or> CHR '':'' \<notin> set s"
  then have "find_last CHR ''.'' s = None \<or> find_last CHR '':'' s = None" by simp
  then show "splitAddress s = Throw (KesExn (Exception ''Invalid server address:port pair'' []))"
    unfolding splitAddress_def by (auto split: option.split simp del: find_last_None)
qed

lemma split_address_witness:
  "splitAddress (''127.0.0.1'' @ CHR '':'' # show_nat 65616) = Ok (''127.0.0.1'', 80)"
  using split_address [of 65616 "''127.0.0.1''" "[]"] by simp

end
