(* ===== verification/Kes_Ctl.thy ===== *)
theory Kes_Ctl
  imports Kes_Client Kes_NetUtil Kes_Requests
begin

text \<open>
  The main program of \<^verbatim>\<open>kesctl\<close> (\<^verbatim>\<open>src/kesctl/main.cxx\<close>): it reads the command line, makes a client,
  starts the one command and runs the event loop until the answer has come or a signal stops it.
\<close>

record ctl_options =
  ct_help :: bool
  ct_verbose :: bool
  ct_address :: "string option"
  ct_command :: "string option"

text \<open>How the program ends, with what it wrote on its two streams; or it has not ended yet.\<close>

datatype 'e ctl_result =
    CtlExited int string string
  | CtlAborted string string
  | CtlRunning "'e client"

text \<open>The \<^verbatim>\<open>catch\<close> clause.\<close>

definition ctl_failed :: "string \<Rightarrow> string \<Rightarrow> exn \<Rightarrow> 'e ctl_result" where
  "ctl_failed out err e = CtlExited 1 out (err @ what e @ [NL])"

definition ctl_address :: "ctl_options \<Rightarrow> string" where
  "ctl_address vm = (case ct_address vm of None \<Rightarrow> ''127.0.0.1:6665'' | Some a \<Rightarrow> a)"

text \<open>Everything before the event loop: a result, or a client with its first operation pending.\<close>

definition kesctl_start ::
    "(string \<Rightarrow> string + 'a list) \<Rightarrow> ('a \<Rightarrow> string) \<Rightarrow> ('a \<Rightarrow> u16 \<Rightarrow> 'e) \<Rightarrow> ('e \<Rightarrow> bool) \<Rightarrow> ('e \<Rightarrow> string) \<Rightarrow>
     string \<Rightarrow> string + ctl_options \<Rightarrow> registry \<Rightarrow> string option \<Rightarrow> 'e ctl_result + 'e client" where
  "kesctl_start resolve showa endpoint connect showe usage parsed R shutdownError =
     (case parsed of
        Inl e \<Rightarrow> Inl (ctl_failed [] [] (StdExn e))
      | Inr vm \<Rightarrow>
          if ct_help vm \<or> ct_command vm = None then Inl (CtlExited 0 [] (usage @ [NL]))
          else
           (case obind (fst (initialize R)) (\<lambda>_.
                 obind (splitAddress (ctl_address vm)) (\<lambda>(addr, port).
                   Client resolve showa endpoint addr port (ct_verbose vm))) of
              Ok c \<Rightarrow>
                (case client_command connect showe (simple 1 (the (ct_command vm))) c of
                   (Ok _, c) \<Rightarrow> Inr c
                 | (Throw e, c) \<Rightarrow>
                     (case Client_destroy shutdownError c of
                        (Ok _, c) \<Rightarrow> Inl (ctl_failed (cl_cout c) (cl_cerr c) e)
                      | (_, c) \<Rightarrow> Inl (CtlAborted (cl_cout c) (cl_cerr c)))
                 | (_, c) \<Rightarrow> Inl (CtlAborted (cl_cout c) (cl_cerr c)))
            | Throw e \<Rightarrow> Inl (ctl_failed [] [] e)
            | _ \<Rightarrow> Inl (CtlAborted [] [])))"

text \<open>
  What the loop waits for. The wait for signals keeps the loop alive and is completed once: its handler stops
  the client and the loop.
\<close>

datatype ctl_event = Completed completion | Signalled

fun ctl_step :: "ctl_event \<Rightarrow> 'e client \<Rightarrow> 'e client" where
  "ctl_step (Completed r) c = client_complete r c"
| "ctl_step Signalled c = (if cl_ioStopped c then c else (client_stop c)\<lparr>cl_ioStopped := True\<rparr>)"

definition kesctl_main ::
    "(string \<Rightarrow> string + 'a list) \<Rightarrow> ('a \<Rightarrow> string) \<Rightarrow> ('a \<Rightarrow> u16 \<Rightarrow> 'e) \<Rightarrow> ('e \<Rightarrow> bool) \<Rightarrow> ('e \<Rightarrow> string) \<Rightarrow>
     string \<Rightarrow> string + ctl_options \<Rightarrow> registry \<Rightarrow> string option \<Rightarrow> ctl_event list \<Rightarrow> 'e ctl_result" where
  "kesctl_main resolve showa endpoint connect showe usage parsed R shutdownError events =
     (case kesctl_start resolve showa endpoint connect showe usage parsed R shutdownError of
        Inl r \<Rightarrow> r
      | Inr c \<Rightarrow>
          let c = fold ctl_step events c in
          if \<not> cl_ioStopped c then CtlRunning c
          else
           (case Client_destroy shutdownError c of
              (Ok _, c) \<Rightarrow> CtlExited 0 (cl_cout c) (cl_cerr c)
            | (_, c) \<Rightarrow> CtlAborted (cl_cout c) (cl_cerr c)))"

section \<open>A whole run\<close>

lemma client_made:
  assumes "resolve addr = Inr as"
  shows "\<exists>c. Client resolve showa endpoint addr port False = Ok c \<and> cl_endpoints c = map (\<lambda>a. endpoint a port) as"
proof -
  have "cl_endpoints (fold (\<lambda>a c. (cout_verbose (cstr addr @ '' -> '' @ showa a @ [NL]) c)\<lparr>cl_endpoints := cl_endpoints c @ [endpoint a port]\<rparr>) as d) =
      cl_endpoints d @ map (\<lambda>a. endpoint a port) as" for d
    by (induction as arbitrary: d) (simp_all add: cout_verbose_def)
  then show ?thesis using assms by (simp add: Client_def)
qed

lemma socket_kept [simp]:
  "cl_socket (cout m c) = cl_socket c" "cl_socket (cerr m c) = cl_socket c" "cl_socket (cout_verbose m c) = cl_socket c"
  "cl_socket (client_read b c) = cl_socket c" "cl_socket (client_stop c) = cl_socket c"
  by (simp_all add: cout_def cerr_def cout_verbose_def client_read_def client_stop_def)

lemma client_process_socket: "client_process d c = (b, t) \<Longrightarrow> cl_socket t = cl_socket c"
  by (auto simp: client_process_def failed_response_def processJson_def Let_def split: prod.splits if_splits)

lemma client_complete_socket: "cl_socket (client_complete r c) = cl_socket c"
proof (cases "cl_pending c")
  case (Some p)
  let ?c = "c\<lparr>cl_pending := None\<rparr>"
  have "cl_socket (client_onWrite r ?c) = cl_socket c"
    by (simp add: client_onWrite_def Let_def split: completion.split)
  moreover have "cl_socket (client_onRead r b ?c) = cl_socket c" for b
    by (auto simp: client_onRead_def Let_def split: completion.split prod.split bool.split dest: client_process_socket)
  ultimately show ?thesis using Some by (cases p) (simp_all add: client_complete_def)
qed (simp add: client_complete_def)

lemma run_socket: "cl_socket (fold client_complete rs c) = cl_socket c"
  by (induction rs arbitrary: c) (simp_all add: client_complete_socket)

lemma fold_completed: "fold ctl_step (map Completed rs) c = fold client_complete rs c"
  by (induction rs arbitrary: c) simp_all

text \<open>One command, from the command line to the end of the program.\<close>

definition quiet_options :: "string option \<Rightarrow> string \<Rightarrow> ctl_options" where
  "quiet_options address command =
     \<lparr>ct_help = False, ct_verbose = False, ct_address = address, ct_command = Some command\<rparr>"

lemma kesctl_connects:
  fixes endpoint :: "'a \<Rightarrow> u16 \<Rightarrow> 'e"
  assumes a: "splitAddress (ctl_address (quiet_options address cmd)) = Ok (addr, port)"
    and net: "getaddr addr = Inr as" "\<exists>x \<in> set as. connect (endpoint x port)"
  shows "\<exists>c c1. Client getaddr showa endpoint addr port False = Ok c \<and> (\<exists>ep \<in> set (cl_endpoints c). connect ep) \<and>
    client_command connect showe (simple 1 cmd) c = (Ok (), c1) \<and>
    cl_pending c1 = Some (PWrite (simple 1 cmd)) \<and> cl_socket c1 = Some True \<and>
    kesctl_start getaddr showa endpoint connect showe usage (Inr (quiet_options address cmd)) empty_registry err = Inr c1"
proof -
  obtain c where new: "Client getaddr showa endpoint addr port False = Ok c" "cl_endpoints c = map (\<lambda>a. endpoint a port) as"
    using client_made [of getaddr addr as showa endpoint port, OF net(1)] by blast
  then have c: "\<exists>ep \<in> set (cl_endpoints c). connect ep" using net(2) by auto
  note n = client_new [OF new(1)]
  note cmd = command_sent [OF n(1,4,5,9) c, of showe "simple 1 cmd"]
  let ?c1 = "(client_reset c)\<lparr>cl_socket := Some True, cl_pending := Some (PWrite (simple 1 cmd))\<rparr>"
  have "kesctl_start getaddr showa endpoint connect showe usage (Inr (quiet_options address cmd)) empty_registry err = Inr ?c1"
    using a new(1) cmd initialize_result by (simp add: kesctl_start_def quiet_options_def)
  then show ?thesis using new(1) c cmd by (intro exI [of _ c] exI [of _ ?c1]) simp
qed

lemma kesctl_exchange:
  fixes endpoint :: "'a \<Rightarrow> u16 \<Rightarrow> 'e"
  assumes a: "splitAddress (ctl_address (quiet_options address cmd)) = Ok (addr, port)"
    and net: "getaddr addr = Inr as" "\<exists>x \<in> set as. connect (endpoint x port)"
    and m: "message m" "length m \<le> kBufferLimit"
    and ds: "concat ds = m" "\<forall>d \<in> set ds. length d \<le> kBufferSize \<and> d \<noteq> []"
  shows "kesctl_main getaddr showa endpoint connect showe usage (Inr (quiet_options address cmd)) empty_registry err
      (map Completed (Sent k # map Received ds)) =
    (case err of None \<Rightarrow> CtlExited 0 (m @ [NL]) [] | Some ec \<Rightarrow> CtlAborted (m @ [NL]) [])"
proof -
  obtain c c1 where c: "Client getaddr showa endpoint addr port False = Ok c" "\<exists>ep \<in> set (cl_endpoints c). connect ep"
    "client_command connect showe (simple 1 cmd) c = (Ok (), c1)" "cl_socket c1 = Some True"
    and start: "kesctl_start getaddr showa endpoint connect showe usage (Inr (quiet_options address cmd)) empty_registry err = Inr c1"
    using kesctl_connects [where getaddr = getaddr and connect = connect and endpoint = endpoint, OF a net] by blast
  let ?c2 = "fold client_complete (Sent k # map Received ds) c1"
  have "cl_ioStopped ?c2" "cl_cout ?c2 = m @ [NL]" "cl_cerr ?c2 = []"
    using exchange [OF c(1,2) m ds, of showe "simple 1 cmd" k] c(3) by (auto simp: Let_def)
  moreover have "cl_socket ?c2 = Some True" using c(4) by (simp add: run_socket client_complete_socket)
  ultimately show ?thesis
    unfolding kesctl_main_def start fold_completed by (auto simp: Let_def Client_destroy_def split: option.split)
qed

end
