(* ===== verification/Kes_System.thy ===== *)
theory Kes_System
  imports Kes_Server Kes_Ctl
begin

text \<open>
  The two programs together: \<^verbatim>\<open>kesctl\<close> sends a request over a connection, a session of the server
  answers it, and \<^verbatim>\<open>kesctl\<close> prints the answer. The connection may cut what is sent into any pieces, in
  both directions.
\<close>

section \<open>A request over a connection\<close>

text \<open>
  \<^verbatim>\<open>list_processes\<close> in a live session is answered with the list of all processes \<^verbatim>\<open>/proc\<close>
  enumerates, the id and success; only this session is updated.
\<close>

lemma list_processes_served:
  assumes "ParseInsitu D request = Inr (request_json rid ''list_processes'')" and "um_find (pm_sessions w) sid = Some s"
    and "distinct (pf_enumeratePids (pm_procFs w))"
  shows "\<exists>s' w'. rpi_process (server_processor (ParseInsitu D) version) sid request w =
      (Ok (render (\<lambda>_. []) (response_json True s' rid)), w') \<and>
    um_find (pm_sessions w') = (um_find (pm_sessions w))(sid \<mapsto> s') \<and> up_to_date s' \<and>
    known s' = set (pf_enumeratePids (pm_procFs w))"
proof -
  let ?v = "LogDebug (CHR 0x0A # ''-> '' @ cstr request @ [CHR 0x0A]) w"
  obtain s' w1 where r: "readProcesses True (s, ?v) = (Ok (), (s', w1))" "same_but_log w1 ?v" "up_to_date s'"
      "known s' = set (pf_enumeratePids (pm_procFs w))"
    using list_processes_result [of ?v s] assms(3) by auto
  have "pm_sessions w1 = pm_sessions w"
    using same_but_log_sessions [OF r(2)] by simp
  then show ?thesis
    using processes_served [of "ParseInsitu D" request, OF assms(1) _ assms(2), of s' w1 version] r assms(2)
    by (fastforce simp: um_find_update)
qed

lemma list_processes_served_witness:
  "\<exists>s' w'. rpi_process (server_processor (ParseInsitu no_doubles) ''0.1'') 7 (simple 5 ''list_processes'') sample_world =
      (Ok (render (\<lambda>_. []) (response_json True s' 5)), w') \<and> known s' = {1, 2}"
proof -
  have "um_find (pm_sessions sample_world) 7 = Some (new_session 7)"
    "set (pf_enumeratePids (pm_procFs sample_world)) = {1, 2}" "distinct (pf_enumeratePids (pm_procFs sample_world))"
    by (simp_all add: sample_world_def sample_procfs_def)
  then show ?thesis
    using list_processes_served [of no_doubles "simple 5 ''list_processes''" 5 sample_world 7 "new_session 7" "''0.1''"]
      simple_read [of no_doubles 5 "''list_processes''"] by auto
qed

text \<open>A new session has an empty buffer and is known to the process manager.\<close>

lemma session_made:
  assumes "SessionHandler (server_processor parse version) server_options peer sid w = (s, w0)"
  shows "session_inv s" "sh_bytes s = []" "sh_room s = 65536" "sh_id s = sid"
    "um_find (pm_sessions w0) sid \<noteq> None" "pm_procFs w0 = pm_procFs w"
proof -
  show "session_inv s" "sh_bytes s = []" "sh_room s = 65536" "sh_id s = sid"
    using session_init_inv [of server_options "server_processor parse version" peer sid w] assms
    by (auto simp: SessionHandler_def server_options_def ContinuousBuffer_def cb_room_def)
  have "w0 = pm_startSession sid (world_log Info (''RequestProcessor: session '' @ show_d sid @ '' started'') w)"
    using assms by (simp add: SessionHandler_def server_processor_def server_start)
  then show "um_find (pm_sessions w0) sid \<noteq> None" "pm_procFs w0 = pm_procFs w"
    by (simp add: pm_startSession_find split: option.split, simp add: \<open>w0 = _\<close> pm_startSession_def world_log_def split: option.split)
qed

lemma request_over_the_wire:
  assumes s: "SessionHandler (server_processor parse version) server_options peer sid w = (s, w0)"
    and c: "plain cmd" "length cmd \<le> 100" and cs: "concat cs = simple rid cmd" "[] \<notin> set cs"
    and a: "rpi_process (server_processor parse version) sid (simple rid cmd) w0 = (Ok answer, w')"
  shows "\<exists>s'. session_run (server_processor parse version) cs s w0 =
      (replicate (length cs - 1) (Ok (Continue, [])) @ [Ok (Continue, answer)], s', w') \<and> sh_bytes s' = []"
proof -
  note f = session_made [OF s]
  have "length (cstr cmd) \<le> length cmd" "plain (cstr cmd)"
    using c(1) by (auto simp: cstr_def plain_def length_takeWhile_le dest: set_takeWhileD)
  then have m: "message (simple rid cmd)" "length (simple rid cmd) < sh_room s"
    using simple_message [of cmd rid] length_simple [of rid cmd] c f(3) by simp_all
  have "rpi_process (server_processor parse version) (sh_id s) (cstr (simple rid cmd)) w0 = (Ok answer, w')"
    using a f(4) simple_no_nul by simp
  then show ?thesis using reassembled [OF f(1,2) m cs] by blast
qed

text \<open>A \<^verbatim>\<open>stop\<close> request, in any pieces.\<close>

lemma stop_over_the_wire:
  assumes "concat cs = simple rid ''stop''" and "[] \<notin> set cs"
    and "SessionHandler (server_processor (ParseInsitu D) version) server_options peer sid w = (s, w0)"
  shows "\<exists>s' w'. session_run (server_processor (ParseInsitu D) version) cs s w0 =
      (replicate (length cs - 1) (Ok (Continue, [])) @ [Ok (Continue, render (\<lambda>_. []) (stop_json rid))], s', w') \<and>
    sh_bytes s' = [] \<and> c_signaled (gc_exitCondition w')"
proof -
  have read: "ParseInsitu D (simple rid ''stop'') = Inr (request_json rid ''stop'')"
    using simple_read [of D rid "''stop''"] by simp
  obtain w' where w': "rpi_process (server_processor (ParseInsitu D) version) sid (simple rid ''stop'') w0 =
      (Ok (render (\<lambda>_. []) (stop_json rid)), w')" "c_signaled (gc_exitCondition w')"
    using stop_served [of "ParseInsitu D" "simple rid ''stop''", OF read, of version sid w0] by auto
  show ?thesis
    using request_over_the_wire [OF assms(3) _ _ assms(1,2) w'(1)] w'(2) by (auto simp: plain_def)
qed

lemma stop_over_the_wire_witness:
  "\<exists>s s' w0 w'. SessionHandler (server_processor (ParseInsitu no_doubles) ''0.1'') server_options ''peer'' 9 sample_world = (s, w0) \<and>
    session_run (server_processor (ParseInsitu no_doubles) ''0.1'')
      [take 3 (simple 5 ''stop''), drop 3 (simple 5 ''stop'')] s w0 =
      ([Ok (Continue, []), Ok (Continue, render (\<lambda>_. []) (stop_json 5))], s', w') \<and>
    c_signaled (gc_exitCondition w')"
proof -
  let ?RP = "server_processor (ParseInsitu no_doubles) ''0.1'' :: pm_world request_processor"
  let ?cs = "[take 3 (simple 5 ''stop''), drop 3 (simple 5 ''stop'')]"
  obtain s w0 where s: "SessionHandler ?RP server_options ''peer'' 9 sample_world = (s, w0)"
    by (cases "SessionHandler ?RP server_options ''peer'' 9 sample_world")
  have "length (simple 5 ''stop'') > 3"
    by (simp add: simple_text request_json_def WriteString_def)
  then have cs: "concat ?cs = simple 5 ''stop''" "[] \<notin> set ?cs" by auto
  show ?thesis
    using stop_over_the_wire [OF cs s] s by auto
qed

section \<open>A command of kesctl\<close>

lemma default_address:
  "splitAddress (ctl_address (quiet_options None cmd)) = Ok (''127.0.0.1'', 6665)"
proof -
  have "show_nat 6665 = ''6665''" by (simp add: show_nat.simps digit_char_def char_of_def bit_0)
  moreover have "splitAddress (''127.0.0.1'' @ CHR '':'' # show_nat 6665) = Ok (''127.0.0.1'', 6665)"
    by (subst split_at [where other = "CHR ''.''"]) (simp_all add: port_number [simplified])
  ultimately show ?thesis by (simp add: ctl_address_def quiet_options_def)
qed

lemma short_answer: "length (render (\<lambda>_. []) (stop_json rid)) \<le> kBufferLimit"
  using length_WriteString [of "''request.id''"] length_WriteString [of "''response.status''"] length_WriteString [of Success]
    length_show_i32 [of rid]
  by (simp add: stop_json_def kBufferLimit_def Success_def)



section \<open>Concrete runs\<close>



end
