(* ===== verification/Kes_ProcStat.thy ===== *)
theory Kes_ProcStat
  imports Kes_ProcFs
begin

text \<open>
  The reader of \<^verbatim>\<open>/proc/<pid>/stat\<close> against the format the kernel writes: one line, the fields
  separated by single spaces, the name of the program in parentheses and not escaped.
\<close>

section \<open>The format\<close>

definition tail_text :: "string list \<Rightarrow> string" where
  "tail_text xs = concat (map (\<lambda>x. CHR '' '' # x) xs)"

definition number_fields :: "'z proc_stat_scheme \<Rightarrow> string list" where
  "number_fields r = [
     show_int (sint (st_ppid r)), show_int (sint (st_pgrp r)), show_int (sint (st_session r)),
     show_int (sint (st_tty_nr r)), show_int (sint (st_tpgid r)), show_nat (unat (st_flags r)),
     show_nat (unat (st_minflt r)), show_nat (unat (st_cminflt r)), show_nat (unat (st_majflt r)),
     show_nat (unat (st_cmajflt r)), show_nat (unat (st_utime r)), show_nat (unat (st_stime r)),
     show_int (sint (st_cutime r)), show_int (sint (st_cstime r)), show_int (sint (st_priority r)),
     show_int (sint (st_nice r)), show_int (sint (st_num_threads r)), show_int (sint (st_itrealvalue r)),
     show_nat (unat (st_starttime r)), show_nat (unat (st_vsize r)), show_int (sint (st_rss r)),
     show_nat (unat (st_rsslim r)), show_nat (unat (st_startcode r)), show_nat (unat (st_endcode r)),
     show_nat (unat (st_startstack r)), show_nat (unat (st_kstkesp r)), show_nat (unat (st_kstkeip r)),
     show_nat (unat (st_signal r)), show_nat (unat (st_blocked r)), show_nat (unat (st_sigignore r)),
     show_nat (unat (st_sigcatch r)), show_nat (unat (st_wchan r)), show_nat (unat (st_nswap r)),
     show_nat (unat (st_cnswap r)), show_int (sint (st_exit_signal r)), show_int (sint (st_processor r)),
     show_nat (unat (st_rt_priority r)), show_nat (unat (st_policy r)),
     show_nat (unat (st_delayacct_blkio_ticks r)), show_nat (unat (st_guest_time r)),
     show_int (sint (st_cguest_time r)), show_nat (unat (st_start_data r)),
     show_nat (unat (st_end_data r)), show_nat (unat (st_start_brk r)), show_nat (unat (st_arg_start r)),
     show_nat (unat (st_arg_end r)), show_nat (unat (st_env_start r)), show_nat (unat (st_env_end r)),
     show_int (sint (st_exit_code r))]"

definition stat_line :: "'z proc_stat_scheme \<Rightarrow> string" where
  "stat_line r =
     show_int (sint (st_pid r)) @ '' ('' @ st_comm r @ '')'' @ tail_text ([st_state r] # number_fields r)"

text \<open>What the kernel writes as a state: a printable character that is neither of the parentheses.\<close>

definition state_ok :: "char \<Rightarrow> bool" where
  "state_ok c \<longleftrightarrow> c \<noteq> NUL \<and> \<not> isspace c \<and> c \<noteq> CHR ''('' \<and> c \<noteq> CHR '')''"

text \<open>
  What is assumed of \<^verbatim>\<open>strtod\<close>: a decimal number of the size of an \<^verbatim>\<open>int\<close>, followed by nothing or by a
  space, is read as this number.
\<close>

definition stops :: "string \<Rightarrow> bool" where
  "stops t \<longleftrightarrow> (case t of [] \<Rightarrow> True | c # _ \<Rightarrow> c = CHR '' '')"

definition strtod_reads :: "(string \<Rightarrow> int option) \<Rightarrow> bool" where
  "strtod_reads strtod \<longleftrightarrow>
     (\<forall>i t. stops t \<longrightarrow> - (2 ^ 31) \<le> i \<longrightarrow> i < 2 ^ 31 \<longrightarrow> strtod (show_int i @ t) = Some i)"

section \<open>Single fields\<close>

lemma tail_text_simps [simp]: "tail_text [] = []" "tail_text (x # xs) = CHR '' '' # x @ tail_text xs"
  by (simp_all add: tail_text_def)

lemma stops_simps [simp]: "stops []" "stops (c # t) = (c = CHR '' '')" "stops (tail_text xs)"
  by (simp_all add: stops_def) (cases xs; simp add: stops_def)

lemma stops_ends: "stops t \<Longrightarrow> ends_number (cstr t)"
  by (cases t) (auto simp: cstr_def isdigit_def)

lemma stops_cstr: "stops t \<Longrightarrow> stops (cstr t)"
  by (cases t) (auto simp: cstr_def)

definition plain_field :: "string \<Rightarrow> bool" where
  "plain_field x \<longleftrightarrow> (\<forall>c \<in> set x. c \<noteq> NUL \<and> \<not> isspace c \<and> c \<noteq> CHR ''('')"

lemma isspace_space [simp]: "isspace CHR '' ''" "isspace NL"
  by (simp_all add: isspace_def)

lemma isspace_minus [simp]: "\<not> isspace CHR ''-''"
  by (simp add: isspace_def)

lemma field_len_stops: "stops t \<Longrightarrow> field_len t = Some 0"
  by (cases t) auto

lemma field_len_plain: "plain_field x \<Longrightarrow> stops t \<Longrightarrow> field_len (x @ t) = Some (length x)"
  by (induction x) (auto simp: plain_field_def field_len_stops)

lemma field_len_parenthesized:
  assumes "NUL \<notin> set n" and "NUL \<notin> set t" and "CHR '')'' \<notin> set t" and "stops t"
  shows "field_len (CHR ''('' # n @ CHR '')'' # t) = Some (length n + 2)"
proof -
  have "find_last CHR '')'' (CHR ''('' # n @ CHR '')'' # t) = Some (Suc (length n))"
    using find_last_split [OF assms(3), of "CHR ''('' # n"] by simp
  moreover have "cstr (CHR ''('' # n @ CHR '')'' # t) = CHR ''('' # n @ CHR '')'' # t"
    using assms by (intro cstr_ident) auto
  ultimately show ?thesis
    using field_len_stops [OF assms(4)] by (simp add: isspace_def)
qed

lemma show_nat_chars: "c \<in> set (show_nat n) \<Longrightarrow> c \<noteq> NUL \<and> \<not> isspace c \<and> c \<noteq> CHR ''('' \<and> c \<noteq> CHR '')''"
  using show_nat_digits [of c n] isdigit_not_space [of c] by (auto simp: isdigit_def)

lemma show_int_chars: "c \<in> set (show_int i) \<Longrightarrow> c \<noteq> NUL \<and> \<not> isspace c \<and> c \<noteq> CHR ''('' \<and> c \<noteq> CHR '')''"
  using show_nat_chars by (auto simp: show_int_def split: if_splits)

lemma plain_numbers [simp]: "plain_field (show_nat n)" "plain_field (show_int i)"
  using show_nat_chars show_int_chars by (auto simp: plain_field_def)

lemma cstr_numbers:
  "cstr (show_nat n @ t) = show_nat n @ cstr t" "cstr (show_int i @ t) = show_int i @ cstr t"
  using show_nat_chars [of _ n] show_int_chars [of _ i] by (auto simp: cstr_def takeWhile_append)

lemma sint_i32: "- (2 ^ 31) \<le> sint (v :: i32)" "sint (v :: i32) < 2 ^ 31"
  using sint_greater_eq [of v] sint_less [of v] by simp_all

lemma sint_i64: "- (2 ^ 63) \<le> sint (v :: i64)" "sint (v :: i64) < 2 ^ 63"
  using sint_greater_eq [of v] sint_less [of v] by simp_all

lemma unat_bounds: "unat (a :: u64) < 2 ^ 64" "unat (b :: u32) < 2 ^ 32"
  using unsigned_less [of a, where 'a = nat] unsigned_less [of b, where 'a = nat] by simp_all

lemma ucast_up_down [simp]: "ucast (ucast (b :: u32) :: u64) = b"
  by transfer simp

lemma ucast_scast [simp]: "ucast (scast (d :: i32) :: u64) = d"
  by transfer (simp add: take_bit_signed_take_bit)

lemma numbers_read:
  assumes "stops t"
  shows "strtoul (cstr (show_nat (unat (a :: u64)) @ t)) = a"
    and "ucast (strtoul (cstr (show_nat (unat (b :: u32)) @ t))) = b"
    and "strtol (cstr (show_int (sint (c :: i64)) @ t)) = c"
    and "ucast (strtol (cstr (show_int (sint (d :: i32)) @ t))) = d"
proof -
  note e = stops_ends [OF assms]
  show "strtoul (cstr (show_nat (unat a) @ t)) = a"
    using strtoul_show_nat [OF e, of "unat a"] unat_bounds(1) [of a] by (simp add: cstr_numbers)
  have "unat b < 2 ^ 64" using unat_bounds(2) [of b] by simp
  then show "ucast (strtoul (cstr (show_nat (unat b) @ t))) = b"
    using strtoul_show_nat [OF e, of "unat b"] unat_bounds(2) [of b]
    by (simp add: cstr_numbers unsigned_of_nat take_bit_nat_eq_self)
  show "strtol (cstr (show_int (sint c) @ t)) = c"
    using strtol_show_int [OF e, of "sint c"] sint_i64 [of c] by (simp add: cstr_numbers)
  have "- (2 ^ 63) \<le> sint d" "sint d < 2 ^ 63" using sint_i32 [of d] by simp_all
  then show "ucast (strtol (cstr (show_int (sint d) @ t))) = d"
    using strtol_show_int [OF e, of "sint d"]
    by (simp add: cstr_numbers)
qed

lemma strtod_read:
  "strtod_reads strtod \<Longrightarrow> stops t \<Longrightarrow> to_int (strtod (cstr (show_int (sint (v :: i32)) @ t))) = Ok v"
  using sint_i32 [of v] stops_cstr [of t] by (simp add: strtod_reads_def to_int_def cstr_numbers)

lemmas strtod_read_last = strtod_read [where t = "[]", simplified]

lemma set_field_simps:
  "set_field strtod 3 (c # f) n r = Ok (r\<lparr>st_ppid := ucast (strtol (cstr f))\<rparr>)"
  "set_field strtod 4 (c # f) n r = omap (\<lambda>v. r\<lparr>st_pgrp := v\<rparr>) (to_int (strtod (cstr f)))"
  "set_field strtod 5 (c # f) n r = omap (\<lambda>v. r\<lparr>st_session := v\<rparr>) (to_int (strtod (cstr f)))"
  "set_field strtod 6 (c # f) n r = omap (\<lambda>v. r\<lparr>st_tty_nr := v\<rparr>) (to_int (strtod (cstr f)))"
  "set_field strtod 7 (c # f) n r = omap (\<lambda>v. r\<lparr>st_tpgid := v\<rparr>) (to_int (strtod (cstr f)))"
  "set_field strtod 8 (c # f) n r = Ok (r\<lparr>st_flags := ucast (strtoul (cstr f))\<rparr>)"
  "set_field strtod 9 (c # f) n r = Ok (r\<lparr>st_minflt := strtoul (cstr f)\<rparr>)"
  "set_field strtod 10 (c # f) n r = Ok (r\<lparr>st_cminflt := strtoul (cstr f)\<rparr>)"
  "set_field strtod 11 (c # f) n r = Ok (r\<lparr>st_majflt := strtoul (cstr f)\<rparr>)"
  "set_field strtod 12 (c # f) n r = Ok (r\<lparr>st_cmajflt := strtoul (cstr f)\<rparr>)"
  "set_field strtod 13 (c # f) n r = Ok (r\<lparr>st_utime := strtoul (cstr f)\<rparr>)"
  "set_field strtod 14 (c # f) n r = Ok (r\<lparr>st_stime := strtoul (cstr f)\<rparr>)"
  "set_field strtod 15 (c # f) n r = Ok (r\<lparr>st_cutime := strtol (cstr f)\<rparr>)"
  "set_field strtod 16 (c # f) n r = Ok (r\<lparr>st_cstime := strtol (cstr f)\<rparr>)"
  "set_field strtod 17 (c # f) n r = Ok (r\<lparr>st_priority := strtol (cstr f)\<rparr>)"
  "set_field strtod 18 (c # f) n r = Ok (r\<lparr>st_nice := strtol (cstr f)\<rparr>)"
  "set_field strtod 19 (c # f) n r = Ok (r\<lparr>st_num_threads := strtol (cstr f)\<rparr>)"
  "set_field strtod 20 (c # f) n r = Ok (r\<lparr>st_itrealvalue := strtol (cstr f)\<rparr>)"
  "set_field strtod 21 (c # f) n r = Ok (r\<lparr>st_starttime := strtoul (cstr f)\<rparr>)"
  "set_field strtod 22 (c # f) n r = Ok (r\<lparr>st_vsize := strtoul (cstr f)\<rparr>)"
  "set_field strtod 23 (c # f) n r = Ok (r\<lparr>st_rss := strtol (cstr f)\<rparr>)"
  "set_field strtod 24 (c # f) n r = Ok (r\<lparr>st_rsslim := strtoul (cstr f)\<rparr>)"
  "set_field strtod 25 (c # f) n r = Ok (r\<lparr>st_startcode := strtoul (cstr f)\<rparr>)"
  "set_field strtod 26 (c # f) n r = Ok (r\<lparr>st_endcode := strtoul (cstr f)\<rparr>)"
  "set_field strtod 27 (c # f) n r = Ok (r\<lparr>st_startstack := strtoul (cstr f)\<rparr>)"
  "set_field strtod 28 (c # f) n r = Ok (r\<lparr>st_kstkesp := strtoul (cstr f)\<rparr>)"
  "set_field strtod 29 (c # f) n r = Ok (r\<lparr>st_kstkeip := strtoul (cstr f)\<rparr>)"
  "set_field strtod 30 (c # f) n r = Ok (r\<lparr>st_signal := strtoul (cstr f)\<rparr>)"
  "set_field strtod 31 (c # f) n r = Ok (r\<lparr>st_blocked := strtoul (cstr f)\<rparr>)"
  "set_field strtod 32 (c # f) n r = Ok (r\<lparr>st_sigignore := strtoul (cstr f)\<rparr>)"
  "set_field strtod 33 (c # f) n r = Ok (r\<lparr>st_sigcatch := strtoul (cstr f)\<rparr>)"
  "set_field strtod 34 (c # f) n r = Ok (r\<lparr>st_wchan := strtoul (cstr f)\<rparr>)"
  "set_field strtod 35 (c # f) n r = Ok (r\<lparr>st_nswap := strtoul (cstr f)\<rparr>)"
  "set_field strtod 36 (c # f) n r = Ok (r\<lparr>st_cnswap := strtoul (cstr f)\<rparr>)"
  "set_field strtod 37 (c # f) n r = omap (\<lambda>v. r\<lparr>st_exit_signal := v\<rparr>) (to_int (strtod (cstr f)))"
  "set_field strtod 38 (c # f) n r = omap (\<lambda>v. r\<lparr>st_processor := v\<rparr>) (to_int (strtod (cstr f)))"
  "set_field strtod 39 (c # f) n r = Ok (r\<lparr>st_rt_priority := ucast (strtoul (cstr f))\<rparr>)"
  "set_field strtod 40 (c # f) n r = Ok (r\<lparr>st_policy := ucast (strtoul (cstr f))\<rparr>)"
  "set_field strtod 41 (c # f) n r = Ok (r\<lparr>st_delayacct_blkio_ticks := strtoul (cstr f)\<rparr>)"
  "set_field strtod 42 (c # f) n r = Ok (r\<lparr>st_guest_time := strtoul (cstr f)\<rparr>)"
  "set_field strtod 43 (c # f) n r = Ok (r\<lparr>st_cguest_time := strtol (cstr f)\<rparr>)"
  "set_field strtod 44 (c # f) n r = Ok (r\<lparr>st_start_data := strtoul (cstr f)\<rparr>)"
  "set_field strtod 45 (c # f) n r = Ok (r\<lparr>st_end_data := strtoul (cstr f)\<rparr>)"
  "set_field strtod 46 (c # f) n r = Ok (r\<lparr>st_start_brk := strtoul (cstr f)\<rparr>)"
  "set_field strtod 47 (c # f) n r = Ok (r\<lparr>st_arg_start := strtoul (cstr f)\<rparr>)"
  "set_field strtod 48 (c # f) n r = Ok (r\<lparr>st_arg_end := strtoul (cstr f)\<rparr>)"
  "set_field strtod 49 (c # f) n r = Ok (r\<lparr>st_env_start := strtoul (cstr f)\<rparr>)"
  "set_field strtod 50 (c # f) n r = Ok (r\<lparr>st_env_end := strtoul (cstr f)\<rparr>)"
  "set_field strtod 51 (c # f) n r = omap (\<lambda>v. r\<lparr>st_exit_code := v\<rparr>) (to_int (strtod (cstr f)))"
  by (simp_all add: set_field_def)

lemma read_field:
  assumes "plain_field x" and "stops t" and "index > 0"
  shows "read_fields strtod index (CHR '' '' # x @ t) r =
    obind (set_field strtod index (CHR '' '' # x @ t) (Suc (length x)) r) (read_fields strtod (index + 1) t)"
  using field_len_plain [OF assms(1,2)] assms(3) by (subst read_fields.simps) (simp add: Let_def)

lemmas read_last_field = read_field [where t = "[]", simplified]

lemma read_fields_Nil [simp]: "read_fields strtod index [] r = Ok (True, r)"
  by (simp add: read_fields.simps)

section \<open>All fields\<close>

lemma read_number_fields:
  assumes "strtod_reads strtod"
  shows "read_fields strtod 3 (tail_text (number_fields s)) r = Ok (True, r\<lparr>
     st_ppid := st_ppid s, st_pgrp := st_pgrp s, st_session := st_session s, st_tty_nr := st_tty_nr s,
     st_tpgid := st_tpgid s, st_flags := st_flags s, st_minflt := st_minflt s, st_cminflt := st_cminflt s,
     st_majflt := st_majflt s, st_cmajflt := st_cmajflt s, st_utime := st_utime s, st_stime := st_stime s,
     st_cutime := st_cutime s, st_cstime := st_cstime s, st_priority := st_priority s,
     st_nice := st_nice s, st_num_threads := st_num_threads s, st_itrealvalue := st_itrealvalue s,
     st_starttime := st_starttime s, st_vsize := st_vsize s, st_rss := st_rss s, st_rsslim := st_rsslim s,
     st_startcode := st_startcode s, st_endcode := st_endcode s, st_startstack := st_startstack s,
     st_kstkesp := st_kstkesp s, st_kstkeip := st_kstkeip s, st_signal := st_signal s,
     st_blocked := st_blocked s, st_sigignore := st_sigignore s, st_sigcatch := st_sigcatch s,
     st_wchan := st_wchan s, st_nswap := st_nswap s, st_cnswap := st_cnswap s,
     st_exit_signal := st_exit_signal s, st_processor := st_processor s,
     st_rt_priority := st_rt_priority s, st_policy := st_policy s,
     st_delayacct_blkio_ticks := st_delayacct_blkio_ticks s, st_guest_time := st_guest_time s,
     st_cguest_time := st_cguest_time s, st_start_data := st_start_data s, st_end_data := st_end_data s,
     st_start_brk := st_start_brk s, st_arg_start := st_arg_start s, st_arg_end := st_arg_end s,
     st_env_start := st_env_start s, st_env_end := st_env_end s, st_exit_code := st_exit_code s\<rparr>)"
  by (simp add: number_fields_def read_field read_last_field set_field_simps numbers_read strtod_read [OF assms]
      strtod_read_last [OF assms])

section \<open>The whole line\<close>

lemma number_fields_chars:
  "x \<in> set (number_fields s) \<Longrightarrow> c \<in> set x \<Longrightarrow> c \<noteq> NUL \<and> \<not> isspace c \<and> c \<noteq> CHR ''('' \<and> c \<noteq> CHR '')''"
  using show_nat_chars [of c] show_int_chars [of c] by (auto simp: number_fields_def)

lemma set_tail_text: "set (tail_text xs) = (if xs = [] then {} else insert CHR '' '' (\<Union>x \<in> set xs. set x))"
  by (induction xs) auto

lemma state_ok_chars: "state_ok c \<Longrightarrow> NUL \<noteq> c \<and> NL \<noteq> c \<and> CHR '')'' \<noteq> c"
  by (auto simp: state_ok_def)

lemma tail_chars:
  "state_ok (st_state s) \<Longrightarrow> NUL \<notin> set (tail_text ([st_state s] # number_fields s)) \<and>
     NL \<notin> set (tail_text ([st_state s] # number_fields s)) \<and>
     CHR '')'' \<notin> set (tail_text ([st_state s] # number_fields s))"
  using number_fields_chars [of _ s NUL] number_fields_chars [of _ s NL] number_fields_chars [of _ s "CHR '')''"]
  by (auto simp: set_tail_text dest: state_ok_chars)

lemma show_int_not_Nil [simp]: "show_int i \<noteq> []"
  by (simp add: show_int_def)

lemma read_pid:
  assumes "stops t"
  shows "read_fields strtod 0 (show_int (sint (p :: i32)) @ t) r = read_fields strtod 1 t (r\<lparr>st_pid := p\<rparr>)"
  using field_len_plain [of "show_int (sint p)", OF _ assms] numbers_read(4) [OF assms, of p]
  by (subst read_fields.simps) (simp add: Let_def set_field_def)

lemma read_name:
  assumes "NUL \<notin> set n" and "NUL \<notin> set t" and "CHR '')'' \<notin> set t" and "stops t"
  shows "read_fields strtod 1 ('' ('' @ n @ CHR '')'' # t) r =
    read_fields strtod 2 t (if n = [] then r else r\<lparr>st_comm := n\<rparr>)"
  using field_len_parenthesized [OF assms]
  by (subst read_fields.simps) (simp add: Let_def set_field_def numeral_2_eq_2 del: field_len.simps)

lemma read_state:
  assumes "state_ok c" and "stops t"
  shows "read_fields strtod 2 (CHR '' '' # c # t) r = read_fields strtod 3 t (r\<lparr>st_state := c\<rparr>)"
  using read_field [of "[c]" t 2 strtod r] assms by (simp add: plain_field_def state_ok_def set_field_def)

definition parsed :: "proc_stat \<Rightarrow> proc_stat \<Rightarrow> proc_stat" where
  "parsed s r = s\<lparr>st_valid := st_valid r, st_error := st_error r, st_ruid := st_ruid r, st_startTime := st_startTime r\<rparr>"

lemma read_line:
  assumes "strtod_reads strtod" and "NUL \<notin> set (st_comm s)" and "state_ok (st_state s)" and "st_comm r = []"
  shows "read_fields strtod 0 (stat_line s) r = Ok (True, parsed s r)"
proof -
  note tail = tail_chars [OF assms(3)]
  have "read_fields strtod 0 (stat_line s) r =
      read_fields strtod 2 (tail_text ([st_state s] # number_fields s))
        (if st_comm s = [] then r\<lparr>st_pid := st_pid s\<rparr> else r\<lparr>st_pid := st_pid s, st_comm := st_comm s\<rparr>)"
    using read_pid [of "'' ('' @ st_comm s @ CHR '')'' # tail_text ([st_state s] # number_fields s)" strtod "st_pid s" r]
      read_name [OF assms(2), of "tail_text ([st_state s] # number_fields s)" strtod "r\<lparr>st_pid := st_pid s\<rparr>"] tail
    by (simp add: stat_line_def)
  also have "(if st_comm s = [] then r\<lparr>st_pid := st_pid s\<rparr> else r\<lparr>st_pid := st_pid s, st_comm := st_comm s\<rparr>) =
      r\<lparr>st_pid := st_pid s, st_comm := st_comm s\<rparr>"
    using assms(4) by (cases r) simp
  finally show ?thesis
    using read_state [OF assms(3), of "tail_text (number_fields s)" strtod] read_number_fields [OF assms(1), of s]
    by (cases s; cases r) (simp add: parsed_def)
qed

lemma readStat_line:
  assumes "fs_stat64 fs (pid_path pid) = Inr uid" and "fs_open fs (pid_path pid @ ''/stat'') = Inr contents"
    and "pf_bootTime w = Some boot" and "fs_clock fs \<noteq> 0"
    and "(case getline NL contents of None \<Rightarrow> [] | Some (l, t) \<Rightarrow> l) = l"
    and "read_fields strtod 0 l ((default_stat garbage)\<lparr>st_pid := pid, st_ruid := uid\<rparr>) = Ok (True, r)"
  shows "readStat strtod fs garbage pid w =
    (Ok (r\<lparr>st_startTime := boot + st_starttime r div fs_clock fs, st_valid := True\<rparr>), w)"
  using assms by (simp add: readStat_def fromRelativeTime_def getBootTime_def)

lemma readStat_live:
  assumes "strtod_reads strtod" and "state_ok (st_state s)" and "NUL \<notin> set (st_comm s)" and "NL \<notin> set (st_comm s)"
    and "fs_stat64 fs (pid_path pid) = Inr uid"
    and "fs_open fs (pid_path pid @ ''/stat'') = Inr (stat_line s @ NL # rest)"
    and "pf_bootTime w = Some boot" and "fs_clock fs \<noteq> 0"
  shows "readStat strtod fs garbage pid w =
    (Ok (s\<lparr>st_valid := True, st_error := [], st_ruid := uid,
           st_startTime := boot + st_starttime s div fs_clock fs\<rparr>), w)"
proof -
  have "NL \<notin> set (stat_line s)"
    using assms(4) tail_chars [OF assms(2)] show_int_chars [of NL "sint (st_pid s)"]
    by (auto simp: stat_line_def)
  then have line: "(case getline NL (stat_line s @ NL # rest) of None \<Rightarrow> [] | Some (l, t) \<Rightarrow> l) = stat_line s"
    by (simp add: getline_line)
  show ?thesis
    using readStat_line [OF assms(5-8) line read_line [OF assms(1,3,2)]]
    by (simp add: default_stat_def parsed_def)
qed

text \<open>
  C32. The record of a live process is read back exactly, whatever the name of its program is, as long
  as it contains no newline: spaces and parentheses in it do no harm.
\<close>

theorem stat_roundtrip:
  assumes "strtod_reads strtod" and "state_ok (st_state s)" and "NUL \<notin> set (st_comm s)" and "NL \<notin> set (st_comm s)"
    and "fs_stat64 fs (pid_path pid) = Inr uid"
    and "fs_open fs (pid_path pid @ ''/stat'') = Inr (stat_line s @ NL # rest)"
    and "pf_bootTime w = Some boot" and "fs_clock fs \<noteq> 0"
  shows "readStat strtod fs garbage pid w =
    (Ok (s\<lparr>st_valid := True, st_error := [], st_ruid := uid,
           st_startTime := boot + st_starttime s div fs_clock fs\<rparr>), w)"
  by (rule readStat_live [OF assms])


section \<open>Concrete files\<close>

text \<open>A conversion that satisfies the assumption on \<^verbatim>\<open>strtod\<close>.\<close>

definition read_decimal :: "string \<Rightarrow> int option" where
  "read_decimal s = (case number_at s of (neg, ds) \<Rightarrow> Some (if neg then - int (dec_value ds) else int (dec_value ds)))"

lemma read_decimal_reads: "strtod_reads read_decimal"
proof -
  have "ends_number t" if "stops t" for t using that by (cases t) (auto simp: isdigit_def)
  then show ?thesis by (auto simp: strtod_reads_def read_decimal_def number_at_show_int)
qed

definition sample_stat :: proc_stat where
  "sample_stat = (default_stat 0)\<lparr>st_pid := 5, st_comm := ''a) R (b'', st_state := CHR ''S'', st_ppid := 1\<rparr>"

definition sample_fs :: "string \<Rightarrow> filesystem" where
  "sample_fs contents = \<lparr>fs_access = (\<lambda>_. None), fs_stat64 = (\<lambda>_. Inr 0), fs_open = (\<lambda>_. Inr contents),
     fs_lstat = (\<lambda>_. Inl 2), fs_readlink = (\<lambda>_. Inl 2), fs_opendir = (\<lambda>_. Inr [''.'', ''5'', ''uptime'']),
     fs_clock = 100, fs_strerror = (\<lambda>_. [])\<rparr>"

definition sample_pf :: pf_world where
  "sample_pf = \<lparr>w_level = Info, w_log = [], pf_bootTime = Some 1000\<rparr>"

lemma stat_roundtrip_witness:
  "readStat read_decimal (sample_fs (stat_line sample_stat @ [NL])) 0 5 sample_pf =
     (Ok (sample_stat\<lparr>st_valid := True, st_error := [], st_ruid := 0,
           st_startTime := 1000 + st_starttime sample_stat div 100\<rparr>), sample_pf)"
  using stat_roundtrip [OF read_decimal_reads, of sample_stat "sample_fs (stat_line sample_stat @ [NL])" 5 0 "[]"
      sample_pf 1000 0]
  by (simp add: sample_stat_def sample_fs_def sample_pf_def state_ok_def isspace_def)


end
