(* ===== verification/Kes_ProcFiles.thy ===== *)
theory Kes_ProcFiles
  imports Kes_ProcStat Kes_ProcessManager
begin

text \<open>
  The remaining readers of \<^verbatim>\<open>/proc\<close>, and what the process manager gets from all of them when the
  files are the ones the kernel shows for a list of processes.
\<close>

section \<open>Small files\<close>

fun spaced :: "string list \<Rightarrow> string" where
  "spaced [] = []"
| "spaced [x] = x"
| "spaced (x # xs) = x @ '' '' @ spaced xs"

lemma spaced_Cons: "spaced (x # xs) = (if xs = [] then x else x @ '' '' @ spaced xs)"
  by (cases xs) simp_all

lemma join_args_terminated:
  "\<forall>a \<in> set args. NUL \<notin> set a \<Longrightarrow>
    join_args c (concat (map (\<lambda>a. a @ [NUL]) args)) =
      spaced ((if c = [] then [] else [c]) @ filter (\<lambda>a. a \<noteq> []) args)"
proof (induction args arbitrary: c)
  case Nil
  then show ?case by (simp add: join_args.simps getline_def)
next
  case (Cons a args)
  have "getline NUL (a @ NUL # concat (map (\<lambda>a. a @ [NUL]) args)) = Some (a, concat (map (\<lambda>a. a @ [NUL]) args))"
    using Cons.prems by (intro getline_line) simp
  then show ?case
    using Cons by (subst join_args.simps) (auto simp: spaced_Cons)
qed

text \<open>
  The texts of a process: the command line is the list of its arguments, separated by spaces, the
  empty ones left out; the program name is the first line of its file; the path of the executable
  is the target of the link, cut at the length \<^verbatim>\<open>lstat\<close> reported, or at 4096 bytes. A file that
  cannot be opened gives the empty text.
\<close>

lemma process_texts:
  "(\<forall>args. fs_open fs (pid_path pid @ ''/cmdline'') = Inr (concat (map (\<lambda>a. a @ [NUL]) args)) \<longrightarrow>
      (\<forall>a \<in> set args. NUL \<notin> set a) \<longrightarrow> pid \<noteq> KernelPid \<longrightarrow>
      readCmdLine fs pid w = (spaced (filter (\<lambda>a. a \<noteq> []) args), w)) \<and>
   (\<forall>name. fs_open fs (pid_path pid @ ''/comm'') = Inr (name @ [NL]) \<longrightarrow> NL \<notin> set name \<longrightarrow>
      readComm fs pid = name) \<and>
   (\<forall>n target. fs_lstat fs (pid_path pid @ ''/exe'') = Inr n \<longrightarrow> fs_readlink fs (pid_path pid @ ''/exe'') = Inr target \<longrightarrow>
      NUL \<notin> set target \<longrightarrow> readExePath fs pid w = (take (if n = 0 then 4096 else n) target, w)) \<and>
   (\<forall>e. fs_open fs (pid_path pid @ ''/comm'') = Inl e \<longrightarrow> readComm fs pid = []) \<and>
   (\<forall>e. fs_lstat fs (pid_path pid @ ''/exe'') = Inl e \<longrightarrow> fst (readExePath fs pid w) = [])"
proof (intro conjI allI impI)
  fix args
  assume "fs_open fs (pid_path pid @ ''/cmdline'') = Inr (concat (map (\<lambda>a. a @ [NUL]) args))"
    "\<forall>a \<in> set args. NUL \<notin> set a" "pid \<noteq> KernelPid"
  then show "readCmdLine fs pid w = (spaced (filter (\<lambda>a. a \<noteq> []) args), w)"
    using join_args_terminated [of args "[]"] by (simp add: readCmdLine_def)
next
  fix name
  assume "fs_open fs (pid_path pid @ ''/comm'') = Inr (name @ [NL])" "NL \<notin> set name"
  then show "readComm fs pid = name" using getline_line [of NL name "[]"] by (simp add: readComm_def)
next
  fix n and target :: string
  assume a: "fs_lstat fs (pid_path pid @ ''/exe'') = Inr n" "fs_readlink fs (pid_path pid @ ''/exe'') = Inr target"
    "NUL \<notin> set target"
  have "cstr (take k target @ replicate (k + 1 - length target) NUL) = take k target" for k
  proof (cases "length target \<le> k")
    case True
    then have "replicate (k + 1 - length target) NUL = NUL # replicate (k - length target) NUL"
      by (simp add: Suc_diff_le)
    then show ?thesis using a(3) True by simp
  next
    case False
    then show ?thesis using a(3) set_take_subset [of k target] by (auto intro!: cstr_ident)
  qed
  then show "readExePath fs pid w = (take (if n = 0 then 4096 else n) target, w)"
    using a by (simp add: readExePath_def Let_def)
qed (simp_all add: readComm_def readExePath_def Let_def)

lemma process_texts_witness:
  "readCmdLine (sample_fs (concat (map (\<lambda>a. a @ [NUL]) [''ls'', [], ''-l'']))) 5 sample_pf = (''ls -l'', sample_pf)"
proof -
  have "fs_open (sample_fs (concat (map (\<lambda>a. a @ [NUL]) [''ls'', [], ''-l'']))) (pid_path 5 @ ''/cmdline'') =
      Inr (concat (map (\<lambda>a. a @ [NUL]) [''ls'', [], ''-l'']))" "(5 :: i32) \<noteq> KernelPid"
    by (simp_all add: sample_fs_def KernelPid_def)
  then show ?thesis
    using process_texts [of "sample_fs (concat (map (\<lambda>a. a @ [NUL]) [''ls'', [], ''-l'']))" 5 sample_pf] by fastforce
qed

section \<open>The directory\<close>

definition starts_digit :: "string \<Rightarrow> bool" where
  "starts_digit name \<longleftrightarrow> (case name of [] \<Rightarrow> False | c # _ \<Rightarrow> isdigit c)"

lemma starts_digit_show_nat [simp]: "starts_digit (show_nat n)"
  using show_nat_digits [of _ n] by (cases "show_nat n") (auto simp: starts_digit_def)

lemma read_pids_numeric:
  assumes "filter starts_digit names = map show_nat ns" and "\<forall>n \<in> set ns. n < 2 ^ 64"
  shows "read_pids names w = (map of_nat ns, w)"
  using assms
proof (induction names arbitrary: ns)
  case Nil
  then show ?case by simp
next
  case (Cons name names)
  show ?case
  proof (cases "starts_digit name")
    case True
    then obtain n ms where ns: "ns = n # ms" "name = show_nat n" "filter starts_digit names = map show_nat ms"
      using Cons.prems(1) by (cases ns) auto
    have "stoul (show_nat n) = Ok (of_nat n)"
      using stoul_show_nat [of "[]" n] ns Cons.prems(2) by simp
    moreover have "(ucast (of_nat n :: u64) :: i32) = of_nat n"
      using ns Cons.prems(2) by (simp add: unsigned_of_nat take_bit_nat_eq_self)
    ultimately show ?thesis
      using Cons.IH [OF ns(3)] Cons.prems(2) ns True by (simp add: starts_digit_def)
  next
    case False
    then show ?thesis using Cons by (simp add: starts_digit_def)
  qed
qed

section \<open>The process list of the kernel\<close>

text \<open>The kernel shows the processes \<open>ps\<close>; the directory may hold other names.\<close>

definition kernel_shows :: "filesystem \<Rightarrow> proc_stat list \<Rightarrow> bool" where
  "kernel_shows fs ps \<longleftrightarrow>
     distinct (map st_pid ps) \<and>
     (\<exists>names. fs_opendir fs root = Inr names \<and>
        filter starts_digit names = map (\<lambda>r. show_nat (unat (st_pid r))) ps) \<and>
     (\<forall>r \<in> set ps. state_ok (st_state r) \<and> NUL \<notin> set (st_comm r) \<and> NL \<notin> set (st_comm r) \<and>
        fs_stat64 fs (pid_path (st_pid r)) = Inr (st_ruid r) \<and>
        fs_open fs (pid_path (st_pid r) @ ''/stat'') = Inr (stat_line r @ [NL]))"

text \<open>What the process manager sees is what the readers return.\<close>

definition readings ::
    "(string \<Rightarrow> int option) \<Rightarrow> filesystem \<Rightarrow> registry \<Rightarrow> location \<Rightarrow> pf_world \<Rightarrow> procfs \<Rightarrow> bool" where
  "readings strtod fs R here v p \<longleftrightarrow>
     pf_enumeratePids p = fst (enumeratePids fs R here v) \<and>
     (\<forall>pid. \<exists>garbage r. fst (readStat strtod fs garbage pid v) = Ok r \<and> pf_readStat p pid = stat.truncate r) \<and>
     (\<forall>pid. pf_readComm p pid = readComm fs pid \<and> pf_readExePath p pid = fst (readExePath fs pid v) \<and>
        pf_readCmdLine p pid = fst (readCmdLine fs pid v))"

lemma kernel_pids:
  assumes "kernel_shows fs ps"
  shows "fst (enumeratePids fs R here v) = map st_pid ps"
proof -
  obtain names where n: "fs_opendir fs root = Inr names"
      "filter starts_digit names = map show_nat (map (\<lambda>r. unat (st_pid r)) ps)"
    using assms by (auto simp: kernel_shows_def comp_def)
  moreover have "\<forall>n \<in> set (map (\<lambda>r. unat (st_pid r)) ps). n < 2 ^ 64"
  proof -
    have "unat (p :: i32) < 2 ^ 64" for p using unat_bounds(2) [of p] by simp
    then show ?thesis by auto
  qed
  ultimately show ?thesis
    using read_pids_numeric [OF n(2), of v] by (simp add: enumeratePids_def comp_def)
qed

lemma kernel_stat:
  assumes "kernel_shows fs ps" and "r \<in> set ps" and "strtod_reads strtod" and "pf_bootTime v = Some boot" and "fs_clock fs \<noteq> 0"
    and "fst (readStat strtod fs garbage (st_pid r) v) = Ok q"
  shows "stat.truncate q = stat.truncate (r\<lparr>st_valid := True, st_error := []\<rparr>)"
proof -
  have k: "state_ok (st_state r)" "NUL \<notin> set (st_comm r)" "NL \<notin> set (st_comm r)"
      "fs_stat64 fs (pid_path (st_pid r)) = Inr (st_ruid r)"
      "fs_open fs (pid_path (st_pid r) @ ''/stat'') = Inr (stat_line r @ NL # [])"
    using assms(1,2) by (auto simp: kernel_shows_def)
  note line = readStat_live [OF assms(3) k(1-5) assms(4,5), of garbage]
  show ?thesis using assms(6) line by (cases r) (auto simp: stat.truncate_def)
qed


section \<open>A concrete system\<close>

definition one_process :: filesystem where
  "one_process = sample_fs (stat_line sample_stat @ [NL])"

definition one_procfs :: procfs where
  "one_procfs = \<lparr>pf_enumeratePids = [5],
     pf_readStat = (\<lambda>pid. stat.truncate (sample_stat\<lparr>st_valid := True, st_error := [], st_ruid := 0\<rparr>)),
     pf_readComm = readComm one_process, pf_readExePath = (\<lambda>pid. fst (readExePath one_process pid sample_pf)),
     pf_readCmdLine = (\<lambda>pid. fst (readCmdLine one_process pid sample_pf))\<rparr>"

lemma one_process_stat:
  "readStat read_decimal one_process 0 pid sample_pf =
     (Ok (sample_stat\<lparr>st_valid := True, st_error := [], st_ruid := 0,
           st_startTime := 1000 + st_starttime sample_stat div 100\<rparr>), sample_pf)"
  using readStat_live [OF read_decimal_reads, of sample_stat one_process pid 0 "[]" sample_pf 1000 0]
  by (simp add: one_process_def sample_stat_def sample_fs_def sample_pf_def state_ok_def isspace_def)

lemma one_process_shown: "kernel_shows one_process [sample_stat\<lparr>st_ruid := 0\<rparr>]"
proof -
  have "show_nat 5 = ''5''" by code_simp
  then show ?thesis
    by (simp add: kernel_shows_def one_process_def sample_fs_def starts_digit_def isdigit_def
        state_ok_def isspace_def sample_stat_def stat_line_def number_fields_def)
qed

lemma one_process_readings: "readings read_decimal one_process empty_registry here sample_pf one_procfs"
proof -
  have "fst (enumeratePids one_process empty_registry here sample_pf) = [5]"
    using kernel_pids [OF one_process_shown] by (simp add: sample_stat_def)
  then show ?thesis
    unfolding readings_def
    by (auto simp: one_procfs_def one_process_stat stat.truncate_def intro!: exI [of _ "0 :: u64"])
qed


section \<open>The boot time\<close>

lemma read_btime_skip:
  assumes "\<forall>l \<in> set ls. NL \<notin> set l \<and> take 5 l \<noteq> ''btime''"
  shows "read_btime (concat (map (\<lambda>l. l @ [NL]) ls) @ t) = read_btime t"
  using assms
proof (induction ls)
  case (Cons l ls)
  then have "getline NL (concat (map (\<lambda>l. l @ [NL]) (l # ls)) @ t) = Some (l, concat (map (\<lambda>l. l @ [NL]) ls) @ t)"
    using getline_line [of NL l] by simp
  then show ?case using Cons by (subst read_btime.simps) simp
qed simp

lemma read_btime_found:
  assumes "n < 2 ^ 64"
  shows "read_btime (''btime '' @ show_nat n @ NL # t) = Ok (of_nat n)"
proof -
  have "NL \<notin> set (''btime '' @ show_nat n)" using show_nat_chars [of NL n] by auto
  then have line: "getline NL (''btime '' @ show_nat n @ NL # t) = Some (''btime '' @ show_nat n, t)"
    using getline_line [of NL "''btime '' @ show_nat n" t] by simp
  then show ?thesis
    using strtoul_show_nat [of "[]" n] assms cstr_numbers(1) [of n "[]"] by (subst read_btime.simps) simp
qed

lemma read_btime_bare: "read_btime (''btime'' @ NL # t) = Terminate"
  using getline_line [of NL "''btime''" t] by (subst read_btime.simps) simp

text \<open>
  The boot time is the number of the first \<^verbatim>\<open>btime\<close> line of \<^verbatim>\<open>/proc/stat\<close>. It is read once: later
  calls return the same value whatever the file holds then. A line that consists of the word alone ends
  the process.
\<close>

lemma boot_time:
  assumes "\<forall>l \<in> set ls. NL \<notin> set l \<and> take 5 l \<noteq> ''btime''" and "pf_bootTime w = None" and "n < 2 ^ 64"
    and "fs_open fs (root @ ''/stat'') = Inr (concat (map (\<lambda>l. l @ [NL]) ls) @ ''btime'' @ t)"
  shows "(t = '' '' @ show_nat n @ NL # rest \<longrightarrow>
      (case getBootTime fs w of (r, w') \<Rightarrow> r = Ok (of_nat n) \<and> (\<forall>fs'. getBootTime fs' w' = (Ok (of_nat n), w')))) \<and>
    (t = NL # rest \<longrightarrow> fst (getBootTime fs w) = Terminate)"
  using assms read_btime_skip [OF assms(1), of "''btime'' @ t"] read_btime_found [OF assms(3), of rest] read_btime_bare [of rest]
  by (auto simp: getBootTime_def getBootTimeImpl_def)

lemma boot_time_witness:
  "fst (getBootTime (sample_fs (concat (map (\<lambda>l. l @ [NL]) [''cpu 1 2'']) @ ''btime'' @ '' '' @ show_nat 1700000000 @ NL # []))
     (sample_pf\<lparr>pf_bootTime := None\<rparr>)) = Ok 1700000000"
  using boot_time [of "[''cpu 1 2'']" "sample_pf\<lparr>pf_bootTime := None\<rparr>" 1700000000
      "sample_fs (concat (map (\<lambda>l. l @ [NL]) [''cpu 1 2'']) @ ''btime'' @ '' '' @ show_nat 1700000000 @ NL # [])"
      "'' '' @ show_nat 1700000000 @ NL # []" "[]"]
  by (auto simp: sample_fs_def split: prod.splits)

end
