(* ===== verification/Kes_Condition.thy ===== *)
theory Kes_Condition
  imports Kes_GlobalCmd
begin

text \<open>
  Waiting on a \<^verbatim>\<open>Condition\<close> (\<^verbatim>\<open>include/kesrv/condition.hxx\<close>), the stateful condition variable the
  main thread sleeps on. The threads run between the points where they hold the mutex; \<open>set\<close> is two
  steps, because it notifies after it has released the mutex. A blocked thread may wake up without a
  notification, and a wait with a time limit may give up.
\<close>

section \<open>The monitor\<close>

text \<open>
  \<open>Outside\<close> is everywhere but in an operation of the condition; \<open>Setting\<close> is between the two halves of
  \<^verbatim>\<open>set\<close>, \<open>Blocked\<close> asleep in the condition variable, \<open>Woken\<close> about to look at the flag again. The
  counters record how often the flag was set and how many waits have succeeded.
\<close>

datatype thread = Outside | Setting | Blocked | Woken

record monitor =
  mo_cond :: condition
  mo_thread :: "nat \<Rightarrow> thread"
  mo_sets :: nat
  mo_passed :: nat

definition put :: "nat \<Rightarrow> thread \<Rightarrow> monitor \<Rightarrow> monitor" where
  "put t s m = m\<lparr>mo_thread := (mo_thread m)(t := s)\<rparr>"

text \<open>What follows a successful wait: an automatic condition takes its signal back.\<close>

definition passed :: "condition \<Rightarrow> condition" where
  "passed c = (if c_autoReset c then condition_reset c else c)"

text \<open>A look at the flag, with the mutex held: go on, or sleep.\<close>

definition look :: "nat \<Rightarrow> monitor \<Rightarrow> monitor" where
  "look t m =
     (if c_signaled (mo_cond m)
      then put t Outside (m\<lparr>mo_cond := passed (mo_cond m), mo_passed := mo_passed m + 1\<rparr>)
      else put t Blocked m)"

text \<open>The end of a wait with a time limit: the flag decides the result, and is reset all the same.\<close>

definition give_up :: "nat \<Rightarrow> monitor \<Rightarrow> monitor" where
  "give_up t m =
     put t Outside (m\<lparr>mo_cond := passed (mo_cond m),
       mo_passed := (if c_signaled (mo_cond m) then mo_passed m + 1 else mo_passed m)\<rparr>)"

inductive cond_step :: "monitor \<Rightarrow> monitor \<Rightarrow> bool" where
  step_set: "mo_thread m t = Outside \<Longrightarrow>
    cond_step m (put t Setting (m\<lparr>mo_cond := condition_set (mo_cond m), mo_sets := mo_sets m + 1\<rparr>))"
| step_notify_none: "mo_thread m t = Setting \<Longrightarrow> Blocked \<notin> range (mo_thread m) \<Longrightarrow> cond_step m (put t Outside m)"
| step_notify_one: "mo_thread m t = Setting \<Longrightarrow> c_autoReset (mo_cond m) \<Longrightarrow> mo_thread m u = Blocked \<Longrightarrow>
    cond_step m (put t Outside (put u Woken m))"
| step_notify_all: "mo_thread m t = Setting \<Longrightarrow> \<not> c_autoReset (mo_cond m) \<Longrightarrow>
    cond_step m (put t Outside (m\<lparr>mo_thread := (\<lambda>u. if mo_thread m u = Blocked then Woken else mo_thread m u)\<rparr>))"
| step_reset: "mo_thread m t = Outside \<Longrightarrow> cond_step m (m\<lparr>mo_cond := condition_reset (mo_cond m)\<rparr>)"
| step_wait: "mo_thread m t = Outside \<or> mo_thread m t = Woken \<Longrightarrow> cond_step m (look t m)"
| step_spurious: "mo_thread m t = Blocked \<Longrightarrow> cond_step m (put t Woken m)"
| step_timeout: "mo_thread m t = Blocked \<or> mo_thread m t = Woken \<Longrightarrow> cond_step m (give_up t m)"

inductive cond_steps :: "monitor \<Rightarrow> monitor \<Rightarrow> bool" where
  steps_refl: "cond_steps m m"
| steps_step: "cond_steps m k \<Longrightarrow> cond_step k n \<Longrightarrow> cond_steps m n"

definition monitor_of :: "condition \<Rightarrow> monitor" where
  "monitor_of c = \<lparr>mo_cond = c, mo_thread = (\<lambda>_. Outside), mo_sets = 0, mo_passed = 0\<rparr>"

section \<open>Invariants\<close>

lemma put_fields [simp]:
  "mo_cond (put t s m) = mo_cond m" "mo_sets (put t s m) = mo_sets m" "mo_passed (put t s m) = mo_passed m"
  "mo_thread (put t s m) = (mo_thread m)(t := s)"
  by (simp_all add: put_def)

lemma condition_fields [simp]:
  "c_signaled (condition_set c)" "\<not> c_signaled (condition_reset c)"
  "c_autoReset (condition_set c) = c_autoReset c" "c_autoReset (condition_reset c) = c_autoReset c"
  "c_autoReset (passed c) = c_autoReset c" "c_signaled (passed c) = (c_signaled c \<and> \<not> c_autoReset c)"
  by (simp_all add: condition_set_def condition_reset_def passed_def)

lemma look_fields:
  "mo_cond (look t m) = (if c_signaled (mo_cond m) then passed (mo_cond m) else mo_cond m)"
  "mo_thread (look t m) = (mo_thread m)(t := if c_signaled (mo_cond m) then Outside else Blocked)"
  "mo_sets (look t m) = mo_sets m"
  "mo_passed (look t m) = (if c_signaled (mo_cond m) then mo_passed m + 1 else mo_passed m)"
  by (simp_all add: look_def)

lemma give_up_fields:
  "mo_cond (give_up t m) = passed (mo_cond m)" "mo_thread (give_up t m) = (mo_thread m)(t := Outside)"
  "mo_sets (give_up t m) = mo_sets m"
  "mo_passed (give_up t m) = (if c_signaled (mo_cond m) then mo_passed m + 1 else mo_passed m)"
  by (simp_all add: give_up_def)

text \<open>
  A thread that sleeps although the flag is set is about to be woken: by a \<^verbatim>\<open>set\<close> that has not
  notified yet or, under automatic reset, the signal is meant for a thread that is already awake.
\<close>

definition awake_inv :: "monitor \<Rightarrow> bool" where
  "awake_inv m \<longleftrightarrow>
     (c_signaled (mo_cond m) \<and> Blocked \<in> range (mo_thread m) \<longrightarrow>
        Setting \<in> range (mo_thread m) \<or> (c_autoReset (mo_cond m) \<and> Woken \<in> range (mo_thread m)))"

definition count_inv :: "bool \<Rightarrow> monitor \<Rightarrow> bool" where
  "count_inv initially m \<longleftrightarrow> c_autoReset (mo_cond m) \<longrightarrow>
     mo_passed m + (if c_signaled (mo_cond m) then 1 else 0) \<le> mo_sets m + (if initially then 1 else 0)"

lemma awake_invI:
  "(\<And>u. c_signaled (mo_cond m) \<Longrightarrow> mo_thread m u = Blocked \<Longrightarrow>
     (\<exists>v. mo_thread m v = Setting) \<or> c_autoReset (mo_cond m) \<and> (\<exists>v. mo_thread m v = Woken)) \<Longrightarrow> awake_inv m"
  unfolding awake_inv_def by (metis (mono_tags, lifting) imageE rangeI)

lemma awake_invD:
  "awake_inv m \<Longrightarrow> c_signaled (mo_cond m) \<Longrightarrow> mo_thread m u = Blocked \<Longrightarrow>
     (\<exists>v. mo_thread m v = Setting) \<or> c_autoReset (mo_cond m) \<and> (\<exists>v. mo_thread m v = Woken)"
  unfolding awake_inv_def by (metis (mono_tags, lifting) imageE rangeI)

lemma awake_step: "cond_step m n \<Longrightarrow> awake_inv m \<Longrightarrow> awake_inv n"
proof (induction rule: cond_step.induct)
  case (step_set m t)
  then show ?case by (intro awake_invI) (auto intro!: exI [of _ t])
next
  case (step_notify_none m t)
  then have "mo_thread m u \<noteq> Blocked" for u by (metis rangeI)
  then show ?case by (intro awake_invI) (auto split: if_splits)
next
  case (step_notify_one m t u)
  then have "t \<noteq> u" by auto
  then show ?case using step_notify_one by (intro awake_invI) (auto intro!: exI [of _ u])
next
  case (step_notify_all m t)
  then show ?case by (intro awake_invI) (auto split: if_splits)
next
  case (step_reset m t)
  then show ?case by (intro awake_invI) auto
next
  case (step_wait m t)
  show ?case
  proof (rule awake_invI)
    fix u
    assume a: "c_signaled (mo_cond (look t m))" "mo_thread (look t m) u = Blocked"
    then have s: "c_signaled (mo_cond m)" "\<not> c_autoReset (mo_cond m)" "u \<noteq> t"
      by (auto simp: look_fields split: if_splits)
    then obtain v where v: "mo_thread m v = Setting"
      using awake_invD [OF step_wait(2), of u] a by (auto simp: look_fields)
    then have "v \<noteq> t" using step_wait(1) by auto
    then show "(\<exists>v. mo_thread (look t m) v = Setting) \<or>
        c_autoReset (mo_cond (look t m)) \<and> (\<exists>v. mo_thread (look t m) v = Woken)"
      using v s by (auto simp: look_fields)
  qed
next
  case (step_spurious m t)
  then show ?case
    using awake_invD [OF step_spurious(2)] by (intro awake_invI) (auto split: if_splits, metis thread.distinct(7))
next
  case (step_timeout m t)
  show ?case
  proof (rule awake_invI)
    fix u
    assume a: "c_signaled (mo_cond (give_up t m))" "mo_thread (give_up t m) u = Blocked"
    then have s: "c_signaled (mo_cond m)" "\<not> c_autoReset (mo_cond m)" "u \<noteq> t"
      by (auto simp: give_up_fields split: if_splits)
    then obtain v where v: "mo_thread m v = Setting"
      using awake_invD [OF step_timeout(2), of u] a by (auto simp: give_up_fields)
    then have "v \<noteq> t" using step_timeout(1) by auto
    then show "(\<exists>v. mo_thread (give_up t m) v = Setting) \<or>
        c_autoReset (mo_cond (give_up t m)) \<and> (\<exists>v. mo_thread (give_up t m) v = Woken)"
      using v s by (auto simp: give_up_fields)
  qed
qed

lemma count_step: "cond_step m n \<Longrightarrow> count_inv i m \<Longrightarrow> count_inv i n"
  by (induction rule: cond_step.induct) (auto simp: count_inv_def look_fields give_up_fields split: if_splits)

lemma autoReset_step: "cond_step m n \<Longrightarrow> c_autoReset (mo_cond n) = c_autoReset (mo_cond m)"
  by (induction rule: cond_step.induct) (auto simp: look_fields give_up_fields)

lemma cond_steps_inv:
  "cond_steps m n \<Longrightarrow> awake_inv m \<Longrightarrow> count_inv i m \<Longrightarrow>
     awake_inv n \<and> count_inv i n \<and> c_autoReset (mo_cond n) = c_autoReset (mo_cond m)"
  by (induction rule: cond_steps.induct) (auto simp: awake_step count_step autoReset_step)



end
