(* ===== verification/Kes_TcpServer.thy ===== *)
theory Kes_TcpServer
  imports Kes_Session Kes_RequestProcessor
begin

text \<open>
  The TCP server (\<^verbatim>\<open>src/kexplorer-server/tcpserver.hxx\<close>) as a state machine over the completions of
  its asynchronous operations. The completion handlers hold plain pointers to the server and to the
  session they belong to, while the vector of the sessions holds the only owning pointers: a session
  that is removed is destroyed, and running a handler that still points to it is undefined.

  A session is named by a key, its address; its id is the running number the log and the request
  handlers see. \<open>cn_sent\<close> is what its socket has taken for sending so far. Which operations fail, and how, is part of the completion.
\<close>

section \<open>State\<close>

record conn =
  cn_id :: u32
  cn_handler :: "session option"
  cn_open :: bool
  cn_sent :: string

datatype op = OpAccept | OpRetry | OpRead nat rbuf | OpWrite nat

record tcp_server =
  tv_stop :: bool
  tv_nextId :: u32
  tv_nextKey :: nat
  tv_sessions :: "(nat \<times> conn) list"
  tv_pending :: "op list"
  tv_inBufferSize :: nat
  tv_options :: SessionHandlerOptions

text \<open>
  What the system does during a step: whether \<^verbatim>\<open>shutdown\<close> and \<^verbatim>\<open>close\<close> succeed (the overloads
  without an error code throw, out of a \<^verbatim>\<open>noexcept\<close> function), and whether a write is finished
  before the function that starts it returns (the buffer is gone then).
\<close>

record step_env =
  sv_shutdown_ok :: bool
  sv_sent_at_once :: bool

text \<open>Completions: an error text, or the peer address, the bytes, the number of bytes sent.\<close>

datatype event =
    EAcceptFailed string
  | EAccepted "string + string"
  | ERetry bool
  | ERead nat "string + string"
  | EWritten nat "string + nat"

section \<open>The code\<close>

definition ts_log :: "Level \<Rightarrow> string \<Rightarrow> tcp_server \<times> 'z world_scheme \<Rightarrow> tcp_server \<times> 'z world_scheme" where
  "ts_log lvl m st = (case st of (T, w) \<Rightarrow> (T, world_log lvl m w))"

definition ts_pend :: "op \<Rightarrow> tcp_server \<times> 'z world_scheme \<Rightarrow> tcp_server \<times> 'z world_scheme" where
  "ts_pend p st = (case st of (T, w) \<Rightarrow> (T\<lparr>tv_pending := tv_pending T @ [p]\<rparr>, w))"

definition set_conn :: "nat \<Rightarrow> conn \<Rightarrow> tcp_server \<Rightarrow> tcp_server" where
  "set_conn k c T = T\<lparr>tv_sessions := map (\<lambda>(i, d). (i, if i = k then c else d)) (tv_sessions T)\<rparr>"

text \<open>Destroying a session ends the session of its handler.\<close>

definition destroy_session ::
    "'z world_scheme request_processor \<Rightarrow> conn \<Rightarrow> 'z world_scheme \<Rightarrow> 'z world_scheme" where
  "destroy_session RP c w =
     (let w = world_log Debug (''TcpServer: session '' @ show_d (cn_id c) @ '' destroyed'') w in
      case cn_handler c of None \<Rightarrow> w | Some s \<Rightarrow> SessionHandler_destroy RP s w)"

text \<open>\<^verbatim>\<open>removeSession\<close> erases the first session with the id.\<close>

fun remove_first :: "u32 \<Rightarrow> (nat \<times> conn) list \<Rightarrow> conn option \<times> (nat \<times> conn) list" where
  "remove_first i [] = (None, [])"
| "remove_first i ((k, c) # cs) =
     (if cn_id c = i then (Some c, cs)
      else case remove_first i cs of (r, ds) \<Rightarrow> (r, (k, c) # ds))"

definition removeSession ::
    "'z world_scheme request_processor \<Rightarrow> u32 \<Rightarrow> tcp_server \<times> 'z world_scheme \<Rightarrow> tcp_server \<times> 'z world_scheme" where
  "removeSession RP i st =
     (case st of (T, w) \<Rightarrow>
        case remove_first i (tv_sessions T) of
          (None, _) \<Rightarrow> (T, w)
        | (Some c, cs) \<Rightarrow> (T\<lparr>tv_sessions := cs\<rparr>, destroy_session RP c w))"

definition session_close ::
    "step_env \<Rightarrow> nat \<Rightarrow> tcp_server \<times> 'z world_scheme \<Rightarrow> unit outcome \<times> (tcp_server \<times> 'z world_scheme)" where
  "session_close env k st =
     (case st of (T, w) \<Rightarrow>
        case map_of (tv_sessions T) k of
          None \<Rightarrow> (UB, st)
        | Some c \<Rightarrow>
            if cn_open c then
              if sv_shutdown_ok env then (Ok (), (set_conn k (c\<lparr>cn_open := False\<rparr>) T, w)) else (Terminate, st)
            else (Ok (), st))"

text \<open>\<^verbatim>\<open>close(); m_owner->removeSession(m_id);\<close>\<close>

definition close_and_remove ::
    "'z world_scheme request_processor \<Rightarrow> step_env \<Rightarrow> nat \<Rightarrow> u32 \<Rightarrow> tcp_server \<times> 'z world_scheme \<Rightarrow>
     unit outcome \<times> (tcp_server \<times> 'z world_scheme)" where
  "close_and_remove RP env k i st = sbind (session_close env k st) (\<lambda>_ st. (Ok (), removeSession RP i st))"

definition session_read ::
    "nat \<Rightarrow> rbuf option \<Rightarrow> tcp_server \<times> 'z world_scheme \<Rightarrow> tcp_server \<times> 'z world_scheme" where
  "session_read k buffer st =
     ts_pend (OpRead k (case buffer of None \<Rightarrow> ReadBuffer (tv_inBufferSize (fst st)) | Some b \<Rightarrow> b)) st"

text \<open>The socket takes the bytes of the buffer while \<^verbatim>\<open>async_write\<close> runs, or later, from a buffer that is gone.\<close>

definition socket_take :: "nat \<Rightarrow> string \<Rightarrow> tcp_server \<Rightarrow> tcp_server" where
  "socket_take k data T =
     T\<lparr>tv_sessions := map (\<lambda>(i, c). (i, if i = k then c\<lparr>cn_sent := cn_sent c @ data\<rparr> else c)) (tv_sessions T)\<rparr>"

definition session_write ::
    "step_env \<Rightarrow> nat \<Rightarrow> string \<Rightarrow> tcp_server \<times> 'z world_scheme \<Rightarrow> unit outcome \<times> (tcp_server \<times> 'z world_scheme)" where
  "session_write env k data st =
     (if data \<noteq> [] \<and> \<not> sv_sent_at_once env then (UB, st)
      else (Ok (), ts_pend (OpWrite k) (socket_take k data (fst st), snd st)))"

definition session_onRead ::
    "'z world_scheme request_processor \<Rightarrow> step_env \<Rightarrow> nat \<Rightarrow> string + string \<Rightarrow> rbuf \<Rightarrow>
     tcp_server \<times> 'z world_scheme \<Rightarrow> unit outcome \<times> (tcp_server \<times> 'z world_scheme)" where
  "session_onRead RP env k r buffer st =
     (case map_of (tv_sessions (fst st)) k of
        None \<Rightarrow> (UB, st)
      | Some c \<Rightarrow>
          (case r of
             Inl ec \<Rightarrow>
               close_and_remove RP env k (cn_id c) (ts_log Warning (''TcpServer: read() failed: '' @ ec) st)
           | Inr d \<Rightarrow>
               (let buffer = rb_swap (rb_receive d buffer); st = session_read k (Some buffer) st in
                case cn_handler c of
                  None \<Rightarrow> (UB, st)
                | Some s \<Rightarrow>
                    (case session_process RP (take (length d) (rb_buffers buffer ! rb_r_index buffer)) s (snd st) of
                       (res, s', w') \<Rightarrow>
                         sbind (res, (set_conn k (c\<lparr>cn_handler := Some s'\<rparr>) (fst st), w'))
                           (\<lambda>(action, response) st.
                              if action = Abort then close_and_remove RP env k (cn_id c) st
                              else session_write env k response st)))))"

definition session_onWrite ::
    "'z world_scheme request_processor \<Rightarrow> step_env \<Rightarrow> nat \<Rightarrow> string + nat \<Rightarrow> tcp_server \<times> 'z world_scheme \<Rightarrow>
     unit outcome \<times> (tcp_server \<times> 'z world_scheme)" where
  "session_onWrite RP env k r st =
     (case map_of (tv_sessions (fst st)) k of
        None \<Rightarrow> (UB, st)
      | Some c \<Rightarrow>
          (case r of
             Inl ec \<Rightarrow> close_and_remove RP env k (cn_id c) (ts_log Error (''TcpServer: write() failed: '' @ ec) st)
           | Inr _ \<Rightarrow> (Ok (), st)))"

definition makeNextId :: "tcp_server \<Rightarrow> u32 \<times> tcp_server" where
  "makeNextId T = (tv_nextId T, T\<lparr>tv_nextId := tv_nextId T + 1\<rparr>)"

definition session_create :: "tcp_server \<times> 'z world_scheme \<Rightarrow> nat \<times> u32 \<times> (tcp_server \<times> 'z world_scheme)" where
  "session_create st =
     (case st of (T, w) \<Rightarrow>
        let (i, T) = makeNextId T; k = tv_nextKey T;
            c = \<lparr>cn_id = i, cn_handler = None, cn_open = True, cn_sent = []\<rparr> in
        (k, i, ts_log Debug (''TcpServer: session '' @ show_d i @ '' created'')
          (T\<lparr>tv_nextKey := k + 1, tv_sessions := tv_sessions T @ [(k, c)]\<rparr>, w)))"

text \<open>\<^verbatim>\<open>start\<close>: no id when the peer is already gone.\<close>

definition session_start ::
    "'z world_scheme request_processor \<Rightarrow> nat \<Rightarrow> u32 \<Rightarrow> string + string \<Rightarrow> tcp_server \<times> 'z world_scheme \<Rightarrow>
     u32 option \<times> (tcp_server \<times> 'z world_scheme)" where
  "session_start RP k i peer st =
     (case peer of
        Inl e \<Rightarrow> (None, ts_log Error (''TcpServer: failed to start session: '' @ e) st)
      | Inr peerAddr \<Rightarrow>
          (case SessionHandler RP (tv_options (fst st)) peerAddr i (snd st) of
             (s, w') \<Rightarrow>
               (Some i,
                ts_log Debug (''TcpServer: session '' @ show_d i @ '' started with ['' @ cstr peerAddr @ '']'')
                  (session_read k None (set_conn k \<lparr>cn_id = i, cn_handler = Some s, cn_open = True, cn_sent = []\<rparr> (fst st), w')))))"

definition ts_accept :: "tcp_server \<times> 'z world_scheme \<Rightarrow> tcp_server \<times> 'z world_scheme" where
  "ts_accept st = ts_pend OpAccept st"

definition ts_onAccept ::
    "'z world_scheme request_processor \<Rightarrow> string + (string + string) \<Rightarrow> tcp_server \<times> 'z world_scheme \<Rightarrow>
     unit outcome \<times> (tcp_server \<times> 'z world_scheme)" where
  "ts_onAccept RP r st =
     (if tv_stop (fst st) then (Ok (), st)
      else
        case r of
          Inl ec \<Rightarrow> (Ok (), ts_pend OpRetry (ts_log Error (''TcpServer: accept() failed: '' @ ec) st))
        | Inr peer \<Rightarrow>
            (let st = ts_accept (ts_log Debug ''TcpServer: connection accepted'' st) in
             case session_create st of
               (k, i, st) \<Rightarrow>
                 (case session_start RP k i peer st of
                    (Some _, st) \<Rightarrow> (Ok (), st)
                  | (None, st) \<Rightarrow> (UB, st))))"

definition ts_onRetry :: "bool \<Rightarrow> tcp_server \<times> 'z world_scheme \<Rightarrow> tcp_server \<times> 'z world_scheme" where
  "ts_onRetry ok st = (if ok \<and> \<not> tv_stop (fst st) then ts_accept st else st)"

definition TcpServer ::
    "SessionHandlerOptions \<Rightarrow> nat \<Rightarrow> 'z world_scheme \<Rightarrow> tcp_server \<times> 'z world_scheme" where
  "TcpServer opts inBufferSize w =
     ts_accept (ts_log Debug ''TcpServer: starting''
       (\<lparr>tv_stop = False, tv_nextId = 0, tv_nextKey = 0, tv_sessions = [], tv_pending = [],
         tv_inBufferSize = inBufferSize, tv_options = opts\<rparr>, w))"

section \<open>The event loop\<close>

text \<open>Which of the pending operations a completion belongs to.\<close>

fun belongs :: "event \<Rightarrow> op \<Rightarrow> bool" where
  "belongs (EAcceptFailed _) OpAccept = True"
| "belongs (EAccepted _) OpAccept = True"
| "belongs (ERetry _) OpRetry = True"
| "belongs (ERead k _) (OpRead i _) = (i = k)"
| "belongs (EWritten k _) (OpWrite i) = (i = k)"
| "belongs _ _ = False"

definition ts_handle ::
    "'z world_scheme request_processor \<Rightarrow> step_env \<Rightarrow> event \<Rightarrow> op \<Rightarrow> tcp_server \<times> 'z world_scheme \<Rightarrow>
     unit outcome \<times> (tcp_server \<times> 'z world_scheme)" where
  "ts_handle RP env e p st =
     (case e of
        EAcceptFailed ec \<Rightarrow> ts_onAccept RP (Inl ec) st
      | EAccepted peer \<Rightarrow> ts_onAccept RP (Inr peer) st
      | ERetry ok \<Rightarrow> (Ok (), ts_onRetry ok st)
      | ERead k r \<Rightarrow> (case p of OpRead _ b \<Rightarrow> session_onRead RP env k r b st | _ \<Rightarrow> (Ok (), st))
      | EWritten k r \<Rightarrow> session_onWrite RP env k r st)"

text \<open>One completion; an operation that is not pending does not complete.\<close>

definition ts_event ::
    "'z world_scheme request_processor \<Rightarrow> step_env \<Rightarrow> event \<Rightarrow> tcp_server \<times> 'z world_scheme \<Rightarrow>
     unit outcome \<times> (tcp_server \<times> 'z world_scheme)" where
  "ts_event RP env e st =
     (case find (belongs e) (tv_pending (fst st)) of
        None \<Rightarrow> (Ok (), st)
      | Some p \<Rightarrow> ts_handle RP env e p ((fst st)\<lparr>tv_pending := remove1 p (tv_pending (fst st))\<rparr>, snd st))"

fun ts_run ::
    "'z world_scheme request_processor \<Rightarrow> (step_env \<times> event) list \<Rightarrow> tcp_server \<times> 'z world_scheme \<Rightarrow>
     unit outcome \<times> (tcp_server \<times> 'z world_scheme)" where
  "ts_run RP [] st = (Ok (), st)"
| "ts_run RP ((env, e) # es) st = sbind (ts_event RP env e st) (\<lambda>_ st. ts_run RP es st)"

text \<open>The destructor; the sessions go with the vector.\<close>

fun close_all ::
    "step_env \<Rightarrow> nat list \<Rightarrow> tcp_server \<times> 'z world_scheme \<Rightarrow> unit outcome \<times> (tcp_server \<times> 'z world_scheme)" where
  "close_all env [] st = (Ok (), st)"
| "close_all env (k # ks) st = sbind (session_close env k st) (\<lambda>_ st. close_all env ks st)"

definition TcpServer_destroy ::
    "'z world_scheme request_processor \<Rightarrow> step_env \<Rightarrow> tcp_server \<times> 'z world_scheme \<Rightarrow> unit outcome \<times> 'z world_scheme" where
  "TcpServer_destroy RP env st =
     (case ts_log Debug ''TcpServer: shutting down'' st of (T, w) \<Rightarrow>
        case close_all env (map fst (tv_sessions T)) (T\<lparr>tv_stop := True\<rparr>, w) of
          (r, (T, w)) \<Rightarrow> sbind (r, w) (\<lambda>_ w. (Ok (), fold (destroy_session RP) (map snd (tv_sessions T)) w)))"

section \<open>The invariant\<close>

fun read_keys :: "op list \<Rightarrow> nat list" where
  "read_keys [] = []"
| "read_keys (OpRead k b # ps) = k # read_keys ps"
| "read_keys (_ # ps) = read_keys ps"

definition conn_ok :: "nat \<times> conn \<Rightarrow> bool" where
  "conn_ok e \<longleftrightarrow> cn_id (snd e) = of_nat (fst e) \<and> cn_open (snd e) \<and>
     (\<exists>s. cn_handler (snd e) = Some s \<and> session_inv s)"

abbreviation keys :: "tcp_server \<Rightarrow> nat list" where
  "keys T \<equiv> map fst (tv_sessions T)"

text \<open>
  Every live session has exactly one read pending, no operation is pending for a session that is gone,
  and the ids are the numbers of the sessions.
\<close>

definition ts_inv :: "tcp_server \<Rightarrow> bool" where
  "ts_inv T \<longleftrightarrow>
     distinct (keys T) \<and> (\<forall>e \<in> set (tv_sessions T). fst e < tv_nextKey T \<and> conn_ok e) \<and>
     tv_nextId T = of_nat (tv_nextKey T) \<and> tv_nextKey T \<le> 2 ^ 32 \<and>
     distinct (read_keys (tv_pending T)) \<and> set (read_keys (tv_pending T)) = set (keys T) \<and>
     (\<forall>k. OpWrite k \<in> set (tv_pending T) \<longrightarrow> k \<in> set (keys T)) \<and>
     (\<forall>k b. OpRead k b \<in> set (tv_pending T) \<longrightarrow> rb_inv b \<and> rb_size b = tv_inBufferSize T) \<and>
     tv_inBufferSize T < 2 ^ 63 \<and> sho_bufferSize (tv_options T) < 2 ^ 63 \<and> sho_bufferLimit (tv_options T) < 2 ^ 63 \<and>
     \<not> tv_stop T"

lemma read_keys_append [simp]: "read_keys (ps @ qs) = read_keys ps @ read_keys qs"
  by (induction ps rule: read_keys.induct) simp_all

lemma read_keys_in: "k \<in> set (read_keys ps) \<longleftrightarrow> (\<exists>b. OpRead k b \<in> set ps)"
  by (induction ps rule: read_keys.induct) auto

lemma read_keys_remove_other [simp]:
  "read_keys (remove1 OpAccept ps) = read_keys ps" "read_keys (remove1 OpRetry ps) = read_keys ps"
  "read_keys (remove1 (OpWrite k) ps) = read_keys ps"
  by (induction ps rule: read_keys.induct) auto

lemma read_keys_remove:
  "distinct (read_keys ps) \<Longrightarrow> OpRead k b \<in> set ps \<Longrightarrow> read_keys (remove1 (OpRead k b) ps) = remove1 k (read_keys ps)"
proof (induction ps rule: read_keys.induct)
  case (2 i c ps)
  have "i \<in> set (read_keys ps)" if "OpRead i b \<in> set ps" for b
    using that by (auto simp: read_keys_in)
  then show ?case using 2 by auto
qed auto

lemma find_belongs:
  "find (belongs e) ps = Some p \<Longrightarrow> p \<in> set ps \<and> belongs e p"
  by (auto simp: find_Some_iff)

lemma belongs_read: "belongs (ERead k r) p \<longleftrightarrow> (\<exists>b. p = OpRead k b)"
  by (cases p) auto

lemma belongs_write: "belongs (EWritten k r) p \<longleftrightarrow> p = OpWrite k"
  by (cases p) auto

lemma belongs_accept: "belongs (EAccepted r) p \<longleftrightarrow> p = OpAccept" "belongs (EAcceptFailed m) p \<longleftrightarrow> p = OpAccept"
  by (cases p; simp)+

lemma belongs_retry: "belongs (ERetry ok) p \<longleftrightarrow> p = OpRetry"
  by (cases p) auto

lemma key_conn:
  assumes "ts_inv T" and "k \<in> set (keys T)"
  shows "\<exists>c s. map_of (tv_sessions T) k = Some c \<and> (k, c) \<in> set (tv_sessions T) \<and> cn_id c = of_nat k \<and> cn_open c \<and>
    cn_handler c = Some s \<and> session_inv s"
proof -
  obtain c where c: "map_of (tv_sessions T) k = Some c" "(k, c) \<in> set (tv_sessions T)"
    using assms(2) by (metis map_of_SomeD map_of_eq_None_iff not_Some_eq set_map)
  then show ?thesis using assms(1) by (force simp: ts_inv_def conn_ok_def)
qed

lemma of_nat_u32_eq: "i < 2 ^ 32 \<Longrightarrow> k < 2 ^ 32 \<Longrightarrow> (of_nat i :: u32) = of_nat k \<longleftrightarrow> i = k"
  by (simp add: word_of_nat_eq_iff take_bit_nat_eq_self)

lemma remove_first_key:
  assumes "distinct (map fst cs)" and "\<forall>e \<in> set cs. fst e < 2 ^ 32 \<and> cn_id (snd e) = of_nat (fst e)"
    and "map_of cs k = Some c" and "k < 2 ^ 32"
  shows "remove_first (of_nat k) cs = (Some c, filter (\<lambda>e. fst e \<noteq> k) cs)"
  using assms
proof (induction cs)
  case (Cons e cs)
  have "filter (\<lambda>e. fst e \<noteq> k) cs = cs" if "k \<notin> fst ` set cs"
    using that by (force simp: filter_id_conv)
  then show ?case using Cons of_nat_u32_eq [of "fst e" k] by (cases e) (auto split: if_splits)
qed simp

lemma set_conn_keys [simp]: "keys (set_conn k c T) = keys T"
  by (induction "tv_sessions T") (auto simp: set_conn_def comp_def case_prod_unfold)

lemma set_conn_fields [simp]:
  "tv_stop (set_conn k c T) = tv_stop T" "tv_nextId (set_conn k c T) = tv_nextId T"
  "tv_nextKey (set_conn k c T) = tv_nextKey T" "tv_pending (set_conn k c T) = tv_pending T"
  "tv_inBufferSize (set_conn k c T) = tv_inBufferSize T" "tv_options (set_conn k c T) = tv_options T"
  by (simp_all add: set_conn_def)

lemma set_conn_set:
  "e \<in> set (tv_sessions (set_conn k c T)) \<Longrightarrow> e \<in> set (tv_sessions T) \<and> fst e \<noteq> k \<or> e = (k, c) \<and> k \<in> set (keys T)"
  by (force simp: set_conn_def split: if_splits)

lemma set_conn_find: "k \<in> set (keys T) \<Longrightarrow> map_of (tv_sessions (set_conn k c T)) k = Some c"
proof -
  have "k \<in> set (map fst xs) \<Longrightarrow> map_of (map (\<lambda>(i, d). (i, if i = k then c else d)) xs) k = Some c" for xs
    by (induction xs) auto
  then show "k \<in> set (keys T) \<Longrightarrow> ?thesis" by (simp add: set_conn_def)
qed

lemma set_conn_filter:
  "filter (\<lambda>e. fst e \<noteq> k) (tv_sessions (set_conn k c T)) = filter (\<lambda>e. fst e \<noteq> k) (tv_sessions T)"
proof -
  have "filter (\<lambda>e. fst e \<noteq> k) (map (\<lambda>(i, d). (i, if i = k then c else d)) xs) = filter (\<lambda>e. fst e \<noteq> k) xs" for xs
    by (induction xs) auto
  then show ?thesis by (simp add: set_conn_def)
qed

lemma set_conn_other [simp]: "i \<noteq> k \<Longrightarrow> map_of (tv_sessions (set_conn k c T)) i = map_of (tv_sessions T) i"
proof -
  have "i \<noteq> k \<Longrightarrow> map_of (map (\<lambda>(i, d). (i, if i = k then c else d)) xs) i = map_of xs i" for xs
    by (induction xs) auto
  then show "i \<noteq> k \<Longrightarrow> ?thesis" by (simp add: set_conn_def)
qed

lemma map_of_filter_other: "i \<noteq> k \<Longrightarrow> map_of (filter (\<lambda>e. fst e \<noteq> k) xs) i = map_of xs i"
  by (induction xs) auto

text \<open>Closing and removing a session, and what is left.\<close>

lemma close_removes:
  assumes "map_of (tv_sessions T) k = Some c" and "cn_open c" and "cn_id c = of_nat k" and "sv_shutdown_ok env"
    and "distinct (keys T)" and "\<forall>e \<in> set (tv_sessions T). fst e < 2 ^ 32 \<and> cn_id (snd e) = of_nat (fst e)"
  shows "\<exists>w'. close_and_remove RP env k (of_nat k) (T, w) =
    (Ok (), (T\<lparr>tv_sessions := filter (\<lambda>e. fst e \<noteq> k) (tv_sessions T)\<rparr>, w'))"
proof -
  let ?c = "c\<lparr>cn_open := False\<rparr>"
  have k: "k \<in> set (keys T)" using assms(1) by (metis map_of_SomeD fst_conv image_eqI set_map)
  then have "k < 2 ^ 32" using assms(6) by auto
  have "\<forall>e \<in> set (tv_sessions (set_conn k ?c T)). fst e < 2 ^ 32 \<and> cn_id (snd e) = of_nat (fst e)"
    using assms(3,6) k set_conn_set [of _ k ?c T] by fastforce
  then have "remove_first (of_nat k) (tv_sessions (set_conn k ?c T)) =
      (Some ?c, filter (\<lambda>e. fst e \<noteq> k) (tv_sessions T))"
    using remove_first_key [of "tv_sessions (set_conn k ?c T)" k ?c] assms(5) set_conn_find [OF k] \<open>k < 2 ^ 32\<close>
    by (simp add: set_conn_filter del: map_map)
  then show ?thesis
    using assms(1,2,4) by (simp add: close_and_remove_def session_close_def removeSession_def set_conn_def)
qed

section \<open>What the server survives\<close>

definition goes_on :: "(CallbackResult \<times> string) outcome \<times> session \<times> 'w \<Rightarrow> bool" where
  "goes_on r \<longleftrightarrow> (case fst r of Ok (a, _) \<Rightarrow> a = Continue | _ \<Rightarrow> False)"

text \<open>
  The completions the handlers are written for: a peer that is still there when its session starts,
  a read no longer than the buffer whose bytes the session accepts and whose answer is sent at once, an
  error of a read when no write of the session is outstanding.
\<close>

definition smooth ::
    "'z world_scheme request_processor \<Rightarrow> step_env \<Rightarrow> event \<Rightarrow> tcp_server \<times> 'z world_scheme \<Rightarrow> bool" where
  "smooth RP env e st =
     (case e of
        EAccepted peer \<Rightarrow> (case peer of Inl _ \<Rightarrow> False | Inr _ \<Rightarrow> tv_nextKey (fst st) < 2 ^ 32)
      | ERead k (Inl _) \<Rightarrow> sv_shutdown_ok env \<and> OpWrite k \<notin> set (tv_pending (fst st))
      | ERead k (Inr d) \<Rightarrow> length d \<le> tv_inBufferSize (fst st) \<and> sv_sent_at_once env \<and>
          (case map_of (tv_sessions (fst st)) k of
             Some c \<Rightarrow> (case cn_handler c of Some s \<Rightarrow> goes_on (session_process RP d s (snd st)) | None \<Rightarrow> False)
           | None \<Rightarrow> False)
      | EWritten k (Inl _) \<Rightarrow> False
      | _ \<Rightarrow> True)"

lemma goes_onD:
  "goes_on (session_process RP d s w) \<Longrightarrow> session_inv s \<Longrightarrow> length d < 2 ^ 63 \<Longrightarrow>
     \<exists>resp s' w'. session_process RP d s w = (Ok (Continue, resp), s', w') \<and> session_inv s'"
  using step_refines [of s d RP w]
  by (cases "session_process RP d s w") (auto simp: goes_on_def session_refines_def split: prod.splits outcome.splits)

lemmas ts_step_defs = ts_log_def ts_pend_def ts_accept_def session_read_def

lemma inv_accept_failed:
  "ts_inv T \<Longrightarrow> OpAccept \<in> set (tv_pending T) \<Longrightarrow>
     ts_inv (T\<lparr>tv_pending := remove1 OpAccept (tv_pending T) @ [OpRetry]\<rparr>)"
  by (auto simp: ts_inv_def dest: set_remove1_subset [THEN subsetD])

lemma inv_retry:
  "ts_inv T \<Longrightarrow> ts_inv (T\<lparr>tv_pending := remove1 OpRetry (tv_pending T)\<rparr>)"
  "ts_inv T \<Longrightarrow> ts_inv (T\<lparr>tv_pending := remove1 OpRetry (tv_pending T) @ [OpAccept]\<rparr>)"
  by (auto simp: ts_inv_def dest: set_remove1_subset [THEN subsetD])

lemma inv_written:
  "ts_inv T \<Longrightarrow> ts_inv (T\<lparr>tv_pending := remove1 (OpWrite k) (tv_pending T)\<rparr>)"
  by (auto simp: ts_inv_def dest: set_remove1_subset [THEN subsetD])

lemma conn_ok_set_conn:
  assumes "\<forall>e \<in> set (tv_sessions T). fst e < n \<and> conn_ok e" and "conn_ok (k, c)"
  shows "\<forall>e \<in> set (tv_sessions (set_conn k c T)). fst e < n \<and> conn_ok e"
proof
  fix e assume "e \<in> set (tv_sessions (set_conn k c T))"
  with set_conn_set [of e k c T] assms show "fst e < n \<and> conn_ok e" by auto
qed

text \<open>The part of the invariant about the sizes and the numbers, which most steps keep.\<close>

lemma ts_inv_rest:
  "ts_inv T \<Longrightarrow> distinct (keys T) \<and> tv_nextId T = of_nat (tv_nextKey T) \<and> tv_nextKey T \<le> 2 ^ 32 \<and>
     tv_inBufferSize T < 2 ^ 63 \<and> sho_bufferSize (tv_options T) < 2 ^ 63 \<and> sho_bufferLimit (tv_options T) < 2 ^ 63 \<and>
     \<not> tv_stop T"
  by (simp add: ts_inv_def)

text \<open>A session that answered: its read is pending again, and so is the write.\<close>

lemma inv_answered:
  assumes T: "ts_inv T" and p: "OpRead k b \<in> set (tv_pending T)"
    and b': "rb_inv b'" "rb_size b' = tv_inBufferSize T" and c: "conn_ok (k, c)"
  shows "ts_inv (set_conn k c (T\<lparr>tv_pending := remove1 (OpRead k b) (tv_pending T) @ [OpRead k b', OpWrite k]\<rparr>))"
proof -
  let ?T = "T\<lparr>tv_pending := remove1 (OpRead k b) (tv_pending T) @ [OpRead k b', OpWrite k]\<rparr>"
  have k: "k \<in> set (read_keys (tv_pending T))" using p by (auto simp: read_keys_in)
  have r: "read_keys (tv_pending ?T) = remove1 k (read_keys (tv_pending T)) @ [k]"
    using T p by (simp add: ts_inv_def read_keys_remove)
  have "\<forall>e \<in> set (tv_sessions (set_conn k c ?T)). fst e < tv_nextKey T \<and> conn_ok e"
    using T c by (intro conn_ok_set_conn) (simp_all add: ts_inv_def)
  moreover have "distinct (read_keys (tv_pending ?T))" "set (read_keys (tv_pending ?T)) = set (keys T)"
    unfolding r using T k by (auto simp: ts_inv_def)
  moreover have "\<forall>j. OpWrite j \<in> set (tv_pending ?T) \<longrightarrow> j \<in> set (keys T)"
    using T k by (auto simp: ts_inv_def dest: set_remove1_subset [THEN subsetD])
  moreover have "\<forall>j x. OpRead j x \<in> set (tv_pending ?T) \<longrightarrow> rb_inv x \<and> rb_size x = tv_inBufferSize T"
    using T b' by (auto simp: ts_inv_def dest: set_remove1_subset [THEN subsetD])
  ultimately show ?thesis
    unfolding ts_inv_def using ts_inv_rest [OF T] by (simp del: read_keys_append set_append set_remove1_eq)
qed

lemma inv_removed:
  assumes T: "ts_inv T" and p: "OpRead k b \<in> set (tv_pending T)" and w: "OpWrite k \<notin> set (tv_pending T)"
  shows "ts_inv (T\<lparr>tv_pending := remove1 (OpRead k b) (tv_pending T),
    tv_sessions := filter (\<lambda>e. fst e \<noteq> k) (tv_sessions T)\<rparr>)"
proof -
  have r: "read_keys (remove1 (OpRead k b) (tv_pending T)) = remove1 k (read_keys (tv_pending T))"
    using T p by (simp add: ts_inv_def read_keys_remove)
  have f: "map fst (filter (\<lambda>e. fst e \<noteq> k) xs) = filter (\<lambda>i. i \<noteq> k) (map fst xs)" for xs :: "(nat \<times> conn) list"
    by (induction xs) auto
  have "distinct (remove1 k (read_keys (tv_pending T)))"
    "set (remove1 k (read_keys (tv_pending T))) = set (filter (\<lambda>i. i \<noteq> k) (keys T))"
    using T by (auto simp: ts_inv_def)
  moreover have "\<forall>j. OpWrite j \<in> set (remove1 (OpRead k b) (tv_pending T)) \<longrightarrow> j \<in> set (filter (\<lambda>i. i \<noteq> k) (keys T))"
    using T w by (auto simp: ts_inv_def dest: set_remove1_subset [THEN subsetD])
  moreover have "\<forall>j x. OpRead j x \<in> set (remove1 (OpRead k b) (tv_pending T)) \<longrightarrow> rb_inv x \<and> rb_size x = tv_inBufferSize T"
    using T by (auto simp: ts_inv_def dest: set_remove1_subset [THEN subsetD])
  moreover have "\<forall>e \<in> set (filter (\<lambda>e. fst e \<noteq> k) (tv_sessions T)). fst e < tv_nextKey T \<and> conn_ok e"
    using T by (simp add: ts_inv_def)
  ultimately show ?thesis
    unfolding ts_inv_def using ts_inv_rest [OF T] by (simp add: r f del: set_filter set_remove1_eq)
qed

text \<open>A new session, its handler and its first read.\<close>

lemma inv_accepted:
  assumes T: "ts_inv T" and n: "tv_nextKey T < 2 ^ 32" and s: "session_inv s"
  shows "ts_inv (T\<lparr>tv_nextId := tv_nextId T + 1, tv_nextKey := tv_nextKey T + 1,
    tv_sessions := tv_sessions T @ [(tv_nextKey T, \<lparr>cn_id = tv_nextId T, cn_handler = Some s, cn_open = True, cn_sent = []\<rparr>)],
    tv_pending := remove1 OpAccept (tv_pending T) @ [OpAccept, OpRead (tv_nextKey T) (ReadBuffer (tv_inBufferSize T))]\<rparr>)"
proof -
  have "tv_nextKey T \<notin> set (keys T)" using T by (auto simp: ts_inv_def)
  moreover have "OpWrite k \<in> set (remove1 OpAccept (tv_pending T)) \<Longrightarrow> k \<in> set (keys T)" for k
    using T by (auto simp: ts_inv_def dest: set_remove1_subset [THEN subsetD])
  moreover have "OpRead k b \<in> set (remove1 OpAccept (tv_pending T)) \<Longrightarrow> rb_inv b \<and> rb_size b = tv_inBufferSize T" for k b
    using T by (auto simp: ts_inv_def dest: set_remove1_subset [THEN subsetD])
  ultimately show ?thesis
    using T n s rb_inv_init [of "tv_inBufferSize T"]
    by (auto simp: ts_inv_def conn_ok_def ReadBuffer_def less_Suc_eq)
qed

lemma set_conn_new:
  assumes "k \<notin> fst ` set (tv_sessions T)"
  shows "set_conn k c (T\<lparr>tv_sessions := tv_sessions T @ [(k, d)]\<rparr>) = T\<lparr>tv_sessions := tv_sessions T @ [(k, c)]\<rparr>"
proof -
  have "map (\<lambda>(i, e). (i, if i = k then c else e)) (tv_sessions T) = tv_sessions T"
    using assms by (force intro!: map_idI)
  then show ?thesis by (simp add: set_conn_def)
qed

lemma set_conn_pending: "set_conn k c (T\<lparr>tv_pending := ps\<rparr>) = (set_conn k c T)\<lparr>tv_pending := ps\<rparr>"
  by (simp add: set_conn_def)

lemma accepted_state:
  assumes "\<not> tv_stop T" and "tv_nextKey T \<notin> fst ` set (tv_sessions T)"
    and "SessionHandler RP (tv_options T) addr (tv_nextId T) = (\<lambda>v. (s, w' v))"
  shows "\<exists>v. ts_onAccept RP (Inr (Inr addr)) (T, w) =
    (Ok (), T\<lparr>tv_nextId := tv_nextId T + 1, tv_nextKey := tv_nextKey T + 1,
      tv_sessions := tv_sessions T @ [(tv_nextKey T, \<lparr>cn_id = tv_nextId T, cn_handler = Some s, cn_open = True, cn_sent = []\<rparr>)],
      tv_pending := tv_pending T @ [OpAccept, OpRead (tv_nextKey T) (ReadBuffer (tv_inBufferSize T))]\<rparr>, v)"
proof -
  let ?T = "T\<lparr>tv_pending := tv_pending T @ [OpAccept], tv_nextId := tv_nextId T + 1, tv_nextKey := Suc (tv_nextKey T)\<rparr>"
  show ?thesis
    using assms(1,3) set_conn_new [of "tv_nextKey T" ?T] assms(2)
    by (simp add: ts_onAccept_def session_create_def makeNextId_def session_start_def Let_def ts_step_defs)
qed

lemma accepted_ok:
  assumes T: "ts_inv T" and n: "tv_nextKey T < 2 ^ 32"
  shows "\<exists>T' w'. ts_onAccept RP (Inr (Inr addr)) (T\<lparr>tv_pending := remove1 OpAccept (tv_pending T)\<rparr>, w) =
    (Ok (), T', w') \<and> ts_inv T' \<and> (\<forall>i \<in> set (keys T). map_of (tv_sessions T') i = map_of (tv_sessions T) i)"
proof -
  obtain s w' where s: "SessionHandler RP (tv_options T) addr (tv_nextId T) = (\<lambda>v. (s, w' v))"
    using that [of _ "rpi_startSession RP (tv_nextId T)"] by (simp add: SessionHandler_def fun_eq_iff)
  have "session_inv s"
    using session_init_inv [of "tv_options T" RP addr "tv_nextId T"] ts_inv_rest [OF T] s by simp
  moreover have "tv_nextKey T \<notin> fst ` set (tv_sessions T)" using T by (auto simp: ts_inv_def)
  ultimately show ?thesis
    using inv_accepted [OF T n] accepted_state [of "T\<lparr>tv_pending := remove1 OpAccept (tv_pending T)\<rparr>" RP addr s w' w]
      ts_inv_rest [OF T] s
    by auto
qed

lemma read_failed_ok:
  assumes T: "ts_inv T" and p: "OpRead k b \<in> set (tv_pending T)" and w: "OpWrite k \<notin> set (tv_pending T)"
    and env: "sv_shutdown_ok env"
  shows "\<exists>T' w'. session_onRead RP env k (Inl ec) b (T\<lparr>tv_pending := remove1 (OpRead k b) (tv_pending T)\<rparr>, w) =
    (Ok (), T', w') \<and> ts_inv T' \<and> (\<forall>i. i \<noteq> k \<longrightarrow> map_of (tv_sessions T') i = map_of (tv_sessions T) i)"
proof -
  let ?T = "T\<lparr>tv_pending := remove1 (OpRead k b) (tv_pending T)\<rparr>"
  have "k \<in> set (keys T)" using T p by (auto simp: ts_inv_def read_keys_in)
  from key_conn [OF T this] obtain c where c: "map_of (tv_sessions ?T) k = Some c" "cn_id c = of_nat k" "cn_open c"
    by auto
  have "\<forall>e \<in> set (tv_sessions ?T). fst e < 2 ^ 32 \<and> cn_id (snd e) = of_nat (fst e)"
    using T by (auto simp: ts_inv_def conn_ok_def intro: less_le_trans)
  moreover have "distinct (keys ?T)" using ts_inv_rest [OF T] by simp
  ultimately obtain w' where "close_and_remove RP env k (of_nat k)
      (?T, world_log Warning (''TcpServer: read() failed: '' @ ec) w) =
      (Ok (), ?T\<lparr>tv_sessions := filter (\<lambda>e. fst e \<noteq> k) (tv_sessions ?T)\<rparr>, w')"
    using close_removes [OF c(1) c(3) c(2) env] by blast
  then show ?thesis using c inv_removed [OF T p w] by (simp add: session_onRead_def ts_log_def map_of_filter_other)
qed

lemma socket_take_set_conn:
  "socket_take k data (set_conn k c T) = set_conn k (c\<lparr>cn_sent := cn_sent c @ data\<rparr>) T"
  by (simp add: socket_take_def set_conn_def comp_def case_prod_unfold)

lemma socket_take_pending: "socket_take k data (T\<lparr>tv_pending := ps\<rparr>) = (socket_take k data T)\<lparr>tv_pending := ps\<rparr>"
  by (simp add: socket_take_def)

text \<open>A chunk the session accepts: its answer is sent, and the read and the write are pending.\<close>

lemma read_answered:
  assumes T: "ts_inv T" and p: "OpRead k b \<in> set (tv_pending T)" and d: "length d \<le> tv_inBufferSize T"
    and c: "map_of (tv_sessions T) k = Some c" "cn_handler c = Some s"
    and s': "session_process RP d s w = (Ok (Continue, resp), s', w')" "session_inv s'" and env: "sv_sent_at_once env"
  shows "\<exists>T'. session_onRead RP env k (Inr d) b (T\<lparr>tv_pending := remove1 (OpRead k b) (tv_pending T)\<rparr>, w) =
    (Ok (), T', w') \<and> ts_inv T' \<and>
    tv_sessions T' = tv_sessions (set_conn k (c\<lparr>cn_handler := Some s', cn_sent := cn_sent c @ resp\<rparr>) T)"
proof -
  let ?b = "rb_swap (rb_receive d b)"
  have b: "rb_inv b" "rb_size b = tv_inBufferSize T" using T p by (auto simp: ts_inv_def)
  have r: "rb_inv ?b" "rb_size ?b = tv_inBufferSize T" "take (length d) (rb_buffers ?b ! rb_r_index ?b) = d"
    using rb_received [of b d] b d by simp_all
  have "conn_ok (k, c)" using T map_of_SomeD [OF c(1)] by (simp add: ts_inv_def)
  then have "conn_ok (k, c\<lparr>cn_handler := Some s', cn_sent := cn_sent c @ resp\<rparr>)"
    using s'(2) by (auto simp: conn_ok_def)
  from inv_answered [OF T p r(1,2) this] show ?thesis
    using c r(3) s'(1) env
    by (simp add: session_onRead_def session_write_def session_read_def ts_pend_def Let_def
        socket_take_set_conn socket_take_pending set_conn_pending)
qed

lemma read_ok:
  assumes T: "ts_inv T" and p: "OpRead k b \<in> set (tv_pending T)" and d: "length d \<le> tv_inBufferSize T"
    and c: "map_of (tv_sessions T) k = Some c" "cn_handler c = Some s"
    and go: "goes_on (session_process RP d s w)" and env: "sv_sent_at_once env"
  shows "\<exists>T' w'. session_onRead RP env k (Inr d) b (T\<lparr>tv_pending := remove1 (OpRead k b) (tv_pending T)\<rparr>, w) =
    (Ok (), T', w') \<and> ts_inv T' \<and> (\<forall>i. i \<noteq> k \<longrightarrow> map_of (tv_sessions T') i = map_of (tv_sessions T) i)"
proof -
  have "conn_ok (k, c)" using T map_of_SomeD [OF c(1)] by (simp add: ts_inv_def)
  then have s: "session_inv s" using c(2) by (auto simp: conn_ok_def)
  have "length d < 2 ^ 63" using d ts_inv_rest [OF T] by simp
  from goes_onD [OF go s this] obtain resp s' w' where
    "session_process RP d s w = (Ok (Continue, resp), s', w')" "session_inv s'" by blast
  from read_answered [OF T p d c this env] show ?thesis by fastforce
qed

lemma event_pending:
  assumes "find (belongs e) (tv_pending T) = Some p"
  shows "ts_event RP env e (T, w) = ts_handle RP env e p (T\<lparr>tv_pending := remove1 p (tv_pending T)\<rparr>, w)"
  using assms by (simp add: ts_event_def)

lemma event_keeps:
  assumes T: "ts_inv T" and s: "smooth RP env e (T, w)"
  shows "\<exists>T' w'. ts_event RP env e (T, w) = (Ok (), T', w') \<and> ts_inv T' \<and>
    (\<forall>i \<in> set (keys T). (\<forall>r. e \<noteq> ERead i r) \<longrightarrow> map_of (tv_sessions T') i = map_of (tv_sessions T) i)"
proof (cases "find (belongs e) (tv_pending T)")
  case None
  then show ?thesis using T by (simp add: ts_event_def)
next
  case (Some p)
  from find_belongs [OF this] have p: "p \<in> set (tv_pending T)" "belongs e p" by simp_all
  note ev = event_pending [OF Some]
  show ?thesis
  proof (cases e)
    case (EAcceptFailed m)
    then show ?thesis unfolding ev using p T inv_accept_failed [OF T] ts_inv_rest [OF T]
      by (simp add: belongs_accept ts_handle_def ts_onAccept_def ts_step_defs)
  next
    case (EAccepted peer)
    then show ?thesis unfolding ev using p s accepted_ok [OF T]
      by (auto simp: belongs_accept ts_handle_def smooth_def split: sum.splits)
  next
    case (ERetry ok)
    then show ?thesis unfolding ev using p inv_retry [OF T] ts_inv_rest [OF T]
      by (simp add: belongs_retry ts_handle_def ts_onRetry_def ts_step_defs)
  next
    case (ERead k r)
    then obtain b where b: "p = OpRead k b" using p(2) by (auto simp: belongs_read)
    show ?thesis
    proof (cases r)
      case (Inl ec)
      then show ?thesis unfolding ev using ERead b p s read_failed_ok [OF T, of k b env RP ec w]
        by (fastforce simp: ts_handle_def smooth_def)
    next
      case (Inr d)
      then show ?thesis unfolding ev using ERead b p s read_ok [OF T, of k b d _ _ RP w env]
        by (fastforce simp: ts_handle_def smooth_def split: option.splits)
    qed
  next
    case (EWritten k r)
    then have b: "p = OpWrite k" using p(2) by (simp add: belongs_write)
    then have "k \<in> set (keys T)" using p T by (simp add: ts_inv_def)
    from key_conn [OF T this] obtain c where "map_of (tv_sessions T) k = Some c" by blast
    then show ?thesis unfolding ev using EWritten b s inv_written [OF T, of k]
      by (auto simp: ts_handle_def smooth_def session_onWrite_def split: sum.splits)
  qed
qed

text \<open>All completions of a run are smooth when they arrive.\<close>

fun smooth_run ::
    "'z world_scheme request_processor \<Rightarrow> (step_env \<times> event) list \<Rightarrow> tcp_server \<times> 'z world_scheme \<Rightarrow> bool" where
  "smooth_run RP [] st = True"
| "smooth_run RP ((env, e) # es) st = (smooth RP env e st \<and> smooth_run RP es (snd (ts_event RP env e st)))"

lemma run_keeps:
  "ts_inv T \<Longrightarrow> smooth_run RP es (T, w) \<Longrightarrow> \<exists>T' w'. ts_run RP es (T, w) = (Ok (), T', w') \<and> ts_inv T'"
proof (induction es arbitrary: T w)
  case (Cons x es)
  obtain env e where x: "x = (env, e)" by (cases x)
  with Cons.prems event_keeps [of T RP env e w] obtain T1 w1 where
    t: "ts_event RP env e (T, w) = (Ok (), T1, w1)" "ts_inv T1" by auto
  with Cons.IH [of T1 w1] Cons.prems x show ?case by simp
qed simp

lemma count_distinct: "distinct xs \<Longrightarrow> x \<in> set xs \<Longrightarrow> count_list xs x = 1"
  by (induction xs) (auto simp: count_list_0_iff)

lemma server_init_inv:
  assumes "n < 2 ^ 63" and "sho_bufferSize opts < 2 ^ 63" and "sho_bufferLimit opts < 2 ^ 63"
  shows "ts_inv (fst (TcpServer opts n w))"
  using assms by (simp add: TcpServer_def ts_step_defs ts_inv_def)

text \<open>
  C36. The connections live as long as they should: when every completion is one the handlers are written
  for, a run of the server from its start never uses a session that is gone, and afterwards every
  session in the list has its handler, an open socket and exactly one read pending, and no read or write
  is pending for any other.
\<close>

theorem connections_live:
  assumes "n < 2 ^ 63" and "sho_bufferSize opts < 2 ^ 63" and "sho_bufferLimit opts < 2 ^ 63"
    and "smooth_run RP es (TcpServer opts n w)"
  shows "\<exists>T' w'. ts_run RP es (TcpServer opts n w) = (Ok (), T', w') \<and>
    (\<forall>k c. (k, c) \<in> set (tv_sessions T') \<longrightarrow>
       cn_open c \<and> cn_handler c \<noteq> None \<and> cn_id c = of_nat k \<and> count_list (read_keys (tv_pending T')) k = 1) \<and>
    (\<forall>k. OpWrite k \<in> set (tv_pending T') \<or> k \<in> set (read_keys (tv_pending T')) \<longrightarrow> k \<in> set (keys T'))"
proof -
  obtain T v where i: "TcpServer opts n w = (T, v)" by (cases "TcpServer opts n w")
  with server_init_inv [OF assms(1-3), of w] run_keeps [of T RP es v] assms(4)
  obtain T' w' where r: "ts_run RP es (T, v) = (Ok (), T', w')" "ts_inv T'" by auto
  have one: "count_list (read_keys (tv_pending T')) k = 1" if "k \<in> set (keys T')" for k
    using r(2) that by (simp add: ts_inv_def count_distinct)
  have "cn_open c \<and> cn_handler c \<noteq> None \<and> cn_id c = of_nat k \<and> k \<in> set (keys T')" if "(k, c) \<in> set (tv_sessions T')" for k c
  proof -
    have "conn_ok (k, c)" using r(2) that by (simp add: ts_inv_def)
    moreover have "k \<in> set (keys T')" using imageI [OF that, of fst] by simp
    ultimately show ?thesis by (auto simp: conn_ok_def)
  qed
  moreover have "OpWrite k \<in> set (tv_pending T') \<or> k \<in> set (read_keys (tv_pending T')) \<Longrightarrow> k \<in> set (keys T')" for k
    using r(2) by (auto simp: ts_inv_def)
  ultimately show ?thesis using r(1) one unfolding i by blast
qed

definition small_options :: SessionHandlerOptions where
  "small_options = \<lparr>sho_bufferSize = 8, sho_bufferLimit = 8\<rparr>"

lemma small_goes_on:
  assumes s: "session_inv s" "sh_bytes s = []" "sh_room s = 8"
  shows "goes_on (session_process echo ''{}'' s (w :: world))"
proof -
  have "verdict 8 [] ''{}'' = Deliver ''{}''" by code_simp
  then have "fst (session_spec echo (sh_id s) (sh_room s) (sh_bytes s) ''{}'' w) = Ok (Continue, ''{}'')"
    using s by (simp add: session_spec_def echo_def)
  with step_refines [OF s(1), of "''{}''" echo w] show ?thesis
    by (auto simp: session_refines_def goes_on_def)
qed

definition small_events :: "(step_env \<times> event) list" where
  "small_events =
     [(\<lparr>sv_shutdown_ok = True, sv_sent_at_once = True\<rparr>, EAccepted (Inr ''10.0.0.1'')),
      (\<lparr>sv_shutdown_ok = True, sv_sent_at_once = True\<rparr>, ERead 0 (Inr ''{}''))]"

abbreviation small_world :: world where
  "small_world \<equiv> \<lparr>w_level = Info, w_log = []\<rparr>"

lemma small_session_new:
  "\<exists>s. SessionHandler echo small_options peer 0 = (\<lambda>v :: world. (s, v)) \<and> session_inv s \<and> sh_bytes s = [] \<and> sh_room s = 8"
  using session_init_inv [of small_options echo peer 0]
  by (simp add: small_options_def SessionHandler_def echo_def fun_eq_iff ContinuousBuffer_def cb_room_def)

lemma small_smooth: "smooth_run echo small_events (TcpServer small_options 4 small_world)"
proof -
  obtain s where s: "SessionHandler echo small_options ''10.0.0.1'' 0 = (\<lambda>v :: world. (s, v))"
    "session_inv s" "sh_bytes s = []" "sh_room s = 8"
    using small_session_new by blast
  then show ?thesis
    by (simp add: small_events_def smooth_def TcpServer_def ts_event_def ts_handle_def ts_step_defs small_goes_on
       ts_onAccept_def session_create_def makeNextId_def session_start_def Let_def set_conn_def s)
qed

lemma connections_live_witness:
  "\<exists>T' w'. ts_run echo small_events (TcpServer small_options 4 small_world) = (Ok (), T', w') \<and>
     set (read_keys (tv_pending T')) \<subseteq> set (keys T')"
  using connections_live [of 4 small_options echo small_events small_world] small_smooth
  by (force simp: small_options_def)

section \<open>What the server does not survive\<close>

lemma reading_session:
  assumes "k \<in> set (read_keys (tv_pending T))"
  shows "\<exists>b. find (belongs (ERead k r)) (tv_pending T) = Some (OpRead k b) \<and> OpRead k b \<in> set (tv_pending T)"
proof -
  obtain b where "OpRead k b \<in> set (tv_pending T)" using assms by (auto simp: read_keys_in)
  then have "find (belongs (ERead k r)) (tv_pending T) \<noteq> None" by (auto simp: find_None_iff)
  then obtain p where p: "find (belongs (ERead k r)) (tv_pending T) = Some p" by blast
  from find_belongs [OF this] show ?thesis using p by (auto simp: belongs_read)
qed

lemma gone_session_used:
  assumes "k \<in> set (read_keys (tv_pending T))" and "k \<notin> set (keys T)"
  shows "fst (ts_event RP env (ERead k r) (T, w)) = UB"
proof -
  obtain b where b: "find (belongs (ERead k r)) (tv_pending T) = Some (OpRead k b)"
    using reading_session [OF assms(1)] by blast
  have "map_of (tv_sessions T) k = None" using assms(2) by (simp add: map_of_eq_None_iff)
  then show ?thesis by (simp add: event_pending [OF b] ts_handle_def session_onRead_def)
qed

lemma rejected_aborts:
  assumes "session_inv s" and "length d < 2 ^ 63" and "verdict (sh_room s) (sh_bytes s) d = Reject m"
  shows "\<exists>s' w'. session_process RP d s w = (Ok (Abort, []), s', w') \<and> session_inv s'"
  using step_refines [OF assms(1,2), of RP w] assms(3)
  by (cases "session_process RP d s w") (auto simp: session_refines_def session_spec_def)

text \<open>
  C37. A rejected chunk leads to a use after free: when the bytes a client sends make its session complain
  (a single closing brace is enough), the server, which has already started the next read, removes
  the session; the next completion of that read, whatever it is, runs on a session that is gone.
\<close>

theorem dropped_session_used:
  assumes T: "ts_inv T" and c: "map_of (tv_sessions T) k = Some c" "cn_handler c = Some s"
    and d: "length d \<le> tv_inBufferSize T" and rej: "verdict (sh_room s) (sh_bytes s) d = Reject m"
    and env: "sv_shutdown_ok env"
  shows "\<exists>T' w'. ts_event RP env (ERead k (Inr d)) (T, w) = (Ok (), T', w') \<and> k \<notin> set (keys T') \<and>
    (\<forall>env' r. fst (ts_event RP env' (ERead k r) (T', w')) = UB)"
proof -
  have k: "k \<in> set (keys T)" using c(1) by (metis map_of_eq_None_iff option.distinct(1) set_map)
  then obtain b where f: "find (belongs (ERead k (Inr d))) (tv_pending T) = Some (OpRead k b)"
    and p: "OpRead k b \<in> set (tv_pending T)"
    using reading_session [of k T "Inr d"] T by (auto simp: ts_inv_def)
  let ?b = "rb_swap (rb_receive d b)"
  have b: "rb_inv b" "rb_size b = tv_inBufferSize T" using T p by (auto simp: ts_inv_def)
  have r: "rb_inv ?b" "rb_size ?b = tv_inBufferSize T" "take (length d) (rb_buffers ?b ! rb_r_index ?b) = d"
    using rb_received [of b d] b d by simp_all
  have "conn_ok (k, c)" using T map_of_SomeD [OF c(1)] by (simp add: ts_inv_def)
  then have s: "session_inv s" and o: "cn_id c = of_nat k" "cn_open c" using c(2) by (auto simp: conn_ok_def)
  have "length d < 2 ^ 63" using d ts_inv_rest [OF T] by simp
  from rejected_aborts [OF s this rej] obtain s' w' where
    s': "session_process RP d s w = (Ok (Abort, []), s', w')" "session_inv s'" by blast
  let ?c = "c\<lparr>cn_handler := Some s'\<rparr>"
  have "conn_ok (k, ?c)" using o s'(2) by (simp add: conn_ok_def)
  note A = inv_answered [OF T p r(1,2) this]
  let ?T = "set_conn k ?c (T\<lparr>tv_pending := remove1 (OpRead k b) (tv_pending T) @ [OpRead k ?b]\<rparr>)"
  have "\<forall>e \<in> set (tv_sessions ?T). fst e < 2 ^ 32 \<and> cn_id (snd e) = of_nat (fst e)"
    using A by (auto simp: ts_inv_def conn_ok_def set_conn_pending intro: less_le_trans)
  moreover have "map_of (tv_sessions ?T) k = Some ?c" using set_conn_find k by simp
  moreover have "distinct (keys ?T)" using ts_inv_rest [OF T] by simp
  ultimately obtain v where v: "close_and_remove RP env k (of_nat k) (?T, w') =
      (Ok (), ?T\<lparr>tv_sessions := filter (\<lambda>e. fst e \<noteq> k) (tv_sessions ?T)\<rparr>, v)"
    using close_removes [of ?T k ?c env RP w'] o env by auto
  let ?T' = "?T\<lparr>tv_sessions := filter (\<lambda>e. fst e \<noteq> k) (tv_sessions ?T)\<rparr>"
  have "ts_event RP env (ERead k (Inr d)) (T, w) = (Ok (), ?T', v)"
    using c r(3) s'(1) v o
    by (simp add: event_pending [OF f] ts_handle_def session_onRead_def session_read_def ts_pend_def Let_def)
  moreover have "k \<notin> set (keys ?T')" by auto
  moreover have "k \<in> set (read_keys (tv_pending ?T'))" by simp
  ultimately show ?thesis using gone_session_used [of k ?T'] by blast
qed

lemma one_client:
  obtains T v c s where "ts_inv T" "tv_inBufferSize T = 4" "map_of (tv_sessions T) 0 = Some c" "cn_handler c = Some s"
    "sh_bytes s = []" "sh_room s = 8" "ts_run echo [hd small_events] (TcpServer small_options 4 small_world) = (Ok (), T, v)"
proof -
  obtain s where s: "SessionHandler echo small_options ''10.0.0.1'' 0 = (\<lambda>v :: world. (s, v))"
    "session_inv s" "sh_bytes s = []" "sh_room s = 8"
    using small_session_new by blast
  let ?r = "ts_run echo [hd small_events] (TcpServer small_options 4 small_world)"
  have "ts_inv (fst (TcpServer small_options 4 small_world))"
    by (rule server_init_inv) (simp_all add: small_options_def)
  moreover have "smooth_run echo [hd small_events] (TcpServer small_options 4 small_world)"
    using small_smooth by (simp add: small_events_def)
  ultimately have i: "ts_inv (fst (snd ?r))"
    using run_keeps [of _ echo "[hd small_events]"] by (metis fst_conv snd_conv surj_pair)
  have r: "fst ?r = Ok ()" "tv_inBufferSize (fst (snd ?r)) = 4"
    "map_of (tv_sessions (fst (snd ?r))) 0 = Some \<lparr>cn_id = 0, cn_handler = Some s, cn_open = True, cn_sent = []\<rparr>"
    by (simp_all add: small_events_def smooth_def TcpServer_def ts_event_def ts_handle_def ts_step_defs
       ts_onAccept_def session_create_def makeNextId_def session_start_def Let_def set_conn_def s)
  show ?thesis using that [of "fst (snd ?r)" _ s "snd (snd ?r)"] i r s by (simp add: prod_eq_iff)
qed

lemma dropped_session_used_witness:
  "\<exists>T T' w'. ts_inv T \<and> ts_event echo \<lparr>sv_shutdown_ok = True, sv_sent_at_once = True\<rparr> (ERead 0 (Inr ''}'')) (T, small_world) =
     (Ok (), T', w') \<and>
     (\<forall>env' r. fst (ts_event echo env' (ERead 0 r) (T', w')) = UB)"
proof -
  obtain T c s where T: "ts_inv T" "tv_inBufferSize T = 4" "map_of (tv_sessions T) 0 = Some c" "cn_handler c = Some s"
    "sh_bytes s = []" "sh_room s = 8" by (rule one_client)
  have "verdict 8 [] ''}'' = Reject ''Invalid JSON''" by code_simp
  then show ?thesis
    using dropped_session_used [OF T(1,3,4), of "''}''" "''Invalid JSON''" "\<lparr>sv_shutdown_ok = True, sv_sent_at_once = True\<rparr>" echo small_world]
      T by auto
qed

end
