(* ===== verification/Kes_FixedString.thy ===== *)
theory Kes_FixedString
  imports Kes_Prelude "HOL-Library.Char_ord" "HOL-Library.List_Lexorder"
begin

text \<open>
  Strings in a buffer of a fixed size (\<^verbatim>\<open>include/kesrv/fixedstring.hxx\<close>), and the string literals
  that are template arguments (\<^verbatim>\<open>stringliteral.hxx\<close>). The order of a fixed string is proved to be
  the lexicographic order of the texts it holds, across sizes. A view is a list of characters; views and
  buffers are shorter than half of the address space.
\<close>

section \<open>The code\<close>

text \<open>
  \<open>fs_str\<close> is the initialised part of the array of \<open>N + 1\<close> characters: the text and its terminator.
\<close>

record fixed_string =
  fs_str :: string
  fs_length :: nat

definition FixedString_empty :: fixed_string where
  "FixedString_empty = \<lparr>fs_str = [NUL], fs_length = 0\<rparr>"

definition FixedString :: "nat \<Rightarrow> string \<Rightarrow> fixed_string" where
  "FixedString n src = (let count = min (length src) n in \<lparr>fs_str = take count src @ [NUL], fs_length = count\<rparr>)"

definition fs_view :: "fixed_string \<Rightarrow> string" where
  "fs_view s = take (fs_length s) (fs_str s)"

definition FixedString_copy :: "nat \<Rightarrow> fixed_string \<Rightarrow> fixed_string" where
  "FixedString_copy n s = FixedString n (fs_view s)"

definition fs_empty :: "fixed_string \<Rightarrow> bool" where
  "fs_empty s \<longleftrightarrow> fs_length s = 0"

text \<open>The characters between \<^verbatim>\<open>begin\<close> and \<^verbatim>\<open>end\<close>, and backwards.\<close>

definition fs_forward :: "fixed_string \<Rightarrow> string" where
  "fs_forward s = map (\<lambda>i. fs_str s ! i) [0..<fs_length s]"

definition fs_backward :: "fixed_string \<Rightarrow> string" where
  "fs_backward s = map (\<lambda>i. fs_str s ! (fs_length s - 1 - i)) [0..<fs_length s]"

text \<open>An index past the terminator reads a character that was never written.\<close>

definition fs_at :: "fixed_string \<Rightarrow> nat \<Rightarrow> char option" where
  "fs_at s i = (if i < length (fs_str s) then Some (fs_str s ! i) else None)"

text \<open>
  \<^verbatim>\<open>char_traits::compare\<close> compares as unsigned characters; only the sign of its result is specified.
\<close>

fun traits_compare :: "string \<Rightarrow> string \<Rightarrow> int" where
  "traits_compare (a # as) (b # bs) =
     (if (of_char a :: nat) < of_char b then - 1 else if (of_char b :: nat) < of_char a then 1 else traits_compare as bs)"
| "traits_compare _ _ = 0"

text \<open>The difference of two lengths, squeezed into an \<^verbatim>\<open>int\<close>.\<close>

definition compare_lengths :: "nat \<Rightarrow> nat \<Rightarrow> int" where
  "compare_lengths n1 n2 =
     (let diff = sint (of_nat n1 - of_nat n2 :: i64) in
      if diff > 2 ^ 31 - 1 then 2 ^ 31 - 1 else if diff < - (2 ^ 31) then - (2 ^ 31) else diff)"

definition fs_compare :: "fixed_string \<Rightarrow> string \<Rightarrow> int" where
  "fs_compare s v =
     (let l = min (fs_length s) (length v); result = traits_compare (take l (fs_str s)) (take l v) in
      if result = 0 then compare_lengths (fs_length s) (length v) else result)"

definition fs_compare_fixed :: "fixed_string \<Rightarrow> fixed_string \<Rightarrow> int" where
  "fs_compare_fixed s t = fs_compare s (fs_view t)"

datatype ordering = Less | Equal | Greater

definition fs_ordering :: "fixed_string \<Rightarrow> fixed_string \<Rightarrow> ordering" where
  "fs_ordering s t = (let v = fs_compare_fixed s t in if v = 0 then Equal else if v < 0 then Less else Greater)"

definition fs_ordering_view :: "fixed_string \<Rightarrow> string \<Rightarrow> ordering" where
  "fs_ordering_view s t = (let v = fs_compare s t in if v = 0 then Equal else if v < 0 then Less else Greater)"

definition fs_eq :: "fixed_string \<Rightarrow> fixed_string \<Rightarrow> bool" where
  "fs_eq s t \<longleftrightarrow> fs_compare_fixed s t = 0"

definition fs_eq_view :: "fixed_string \<Rightarrow> string \<Rightarrow> bool" where
  "fs_eq_view s t \<longleftrightarrow> fs_compare s t = 0"

text \<open>A C string is compared up to its terminator.\<close>

definition fs_eq_cstr :: "fixed_string \<Rightarrow> string \<Rightarrow> bool" where
  "fs_eq_cstr s t \<longleftrightarrow> fs_compare s (cstr t) = 0"

definition fs_print :: "string \<Rightarrow> fixed_string \<Rightarrow> string" where
  "fs_print os s = os @ fs_view s"

text \<open>A literal of \<open>N\<close> characters with its terminator, read as a C string.\<close>

definition StringLiteral :: "string \<Rightarrow> string" where
  "StringLiteral lit = lit @ [NUL]"

definition fromStringLiteral :: "string \<Rightarrow> string" where
  "fromStringLiteral lit = cstr (StringLiteral lit)"

section \<open>The order\<close>

definition fs_inv :: "nat \<Rightarrow> fixed_string \<Rightarrow> bool" where
  "fs_inv n s \<longleftrightarrow> fs_length s \<le> n \<and> length (fs_str s) = fs_length s + 1 \<and> fs_str s ! fs_length s = NUL"

lemma fixed_inv: "fs_inv n (FixedString n src)" "fs_inv n FixedString_empty" "fs_inv n (FixedString_copy n s)"
  by (simp_all add: fs_inv_def FixedString_def FixedString_empty_def FixedString_copy_def Let_def nth_append)

lemma fixed_view [simp]: "fs_view (FixedString n src) = take n src" "fs_view FixedString_empty = []"
  "fs_view (FixedString_copy n s) = take n (fs_view s)"
  by (simp_all add: fs_view_def FixedString_def FixedString_empty_def FixedString_copy_def Let_def min_def)

lemma view_length: "fs_inv n s \<Longrightarrow> length (fs_view s) = fs_length s"
  by (simp add: fs_inv_def fs_view_def)

lemma compare_lengths_exact:
  assumes "n1 < 2 ^ 63" and "n2 < 2 ^ 63"
  shows "sgn (compare_lengths n1 n2) = sgn (int n1 - int n2)" and "\<bar>compare_lengths n1 n2\<bar> \<le> 2 ^ 31"
proof -
  have "sint (of_nat n1 - of_nat n2 :: i64) = signed_take_bit 63 (int n1 - int n2)"
  proof -
    have "(of_nat n1 - of_nat n2 :: i64) = word_of_int (int n1 - int n2)" by simp
    then show ?thesis by (simp only: signed_of_int) simp
  qed
  also have "\<dots> = int n1 - int n2"
    using assms by (intro signed_take_bit_int_eq_self) auto
  finally show "sgn (compare_lengths n1 n2) = sgn (int n1 - int n2)" and "\<bar>compare_lengths n1 n2\<bar> \<le> 2 ^ 31"
    by (simp_all add: compare_lengths_def Let_def sgn_if abs_le_iff) linarith?
qed

lemma traits_range: "traits_compare a b \<in> {- 1, 0, 1}"
  by (induction a b rule: traits_compare.induct) auto

text \<open>Comparing the common part, then the lengths, is the lexicographic order.\<close>

lemma list_less_simps: "(a # as < b # bs) \<longleftrightarrow> a < b \<or> a = b \<and> as < bs" for a b :: "'a :: order"
  by (auto simp: list_less_def)

lemma compare_lexicographic:
  "sgn (let l = min (length a) (length b); r = traits_compare (take l a) (take l b) in
      if r = 0 then int (length a) - int (length b) else r) = (if a < b then - 1 else if a = b then 0 else 1)"
proof (induction a arbitrary: b)
  case Nil
  then show ?case by (cases b) auto
next
  case (Cons x a)
  show ?case
  proof (cases b)
    case (Cons y b')
    then show ?thesis using Cons.IH [of b']
      by (cases x y rule: linorder_cases) (auto simp: list_less_simps less_char_def Let_def)
  qed simp
qed

lemma compare_sign:
  assumes "fs_inv n s" and "n < 2 ^ 63" and "length v < 2 ^ 63"
  shows "sgn (fs_compare s v) = (if fs_view s < v then - 1 else if fs_view s = v then 0 else 1)"
proof -
  have l: "length (fs_view s) = fs_length s" "fs_length s < 2 ^ 63"
    using view_length [OF assms(1)] assms(1,2) by (simp_all add: fs_inv_def)
  have "take k (fs_view s) = take k (fs_str s)" if "k \<le> fs_length s" for k
    using that by (simp add: fs_view_def min_def)
  then have "sgn (fs_compare s v) =
      sgn (let l = min (length (fs_view s)) (length v); r = traits_compare (take l (fs_view s)) (take l v) in
        if r = 0 then int (length (fs_view s)) - int (length v) else r)"
    using l compare_lengths_exact(1) [OF l(2) assms(3)] by (simp add: fs_compare_def Let_def)
  then show ?thesis by (simp only: compare_lexicographic)
qed



end
