(* ===== verification/Kes_Handles.thy ===== *)
theory Kes_Handles
  imports Main "HOL-Library.Multiset"
begin

text \<open>
  Owning pointers (\<^verbatim>\<open>include/kesrv/util/autoptr.hxx\<close>) and owning handles
  (\<^verbatim>\<open>include/kesrv/util/generichandle.hxx\<close>), which hold a resource and pass it to their deleter. The two
  classes differ in \<^verbatim>\<open>reset\<close> only. The objects are the elements of a list, so that an operation
  on two objects may be one on the same object twice; \<open>None\<close> is an object that was destroyed. A
  null pointer is the invalid value of a pointer.
\<close>

section \<open>The code\<close>

text \<open>\<^verbatim>\<open>reset\<close>: the invalid value, the new and the old value; the value afterwards and what the deleter got.\<close>

definition AutoPtr_reset :: "'h \<Rightarrow> 'h \<Rightarrow> 'h \<Rightarrow> 'h \<times> 'h list" where
  "AutoPtr_reset inval ptr m_ptr = (ptr, if m_ptr \<noteq> inval then [m_ptr] else [])"

definition GenericHandle_reset :: "'h \<Rightarrow> 'h \<Rightarrow> 'h \<Rightarrow> 'h \<times> 'h list" where
  "GenericHandle_reset inval h m_h = (if m_h \<noteq> inval then (h, [m_h]) else (m_h, []))"

record 'h owners =
  ow_objects :: "'h option list"
  ow_deleted :: "'h list"

datatype 'h owner_op =
    OConstruct 'h
  | OMoveConstruct nat
  | OMoveAssign nat nat
  | OWriteable nat 'h
  | OReset nat 'h
  | ODestroy nat

abbreviation alive :: "nat \<Rightarrow> 'h owners \<Rightarrow> bool" where
  "alive i st \<equiv> i < length (ow_objects st) \<and> ow_objects st ! i \<noteq> None"

abbreviation value_of :: "nat \<Rightarrow> 'h owners \<Rightarrow> 'h" where
  "value_of i st \<equiv> the (ow_objects st ! i)"

definition store :: "nat \<Rightarrow> 'h option \<Rightarrow> 'h owners \<Rightarrow> 'h owners" where
  "store i v st = st\<lparr>ow_objects := (ow_objects st)[i := v]\<rparr>"

text \<open>The move constructor: a new object, swapped with the old one.\<close>

definition move_construct :: "'h \<Rightarrow> nat \<Rightarrow> 'h owners \<Rightarrow> 'h owners" where
  "move_construct inval j st =
     (let v = value_of j st; st = store j (Some inval) st in st\<lparr>ow_objects := ow_objects st @ [Some v]\<rparr>)"

text \<open>An object is destroyed: its value goes through \<^verbatim>\<open>reset\<close>.\<close>

definition destroy_value :: "('h \<Rightarrow> 'h \<Rightarrow> 'h \<Rightarrow> 'h \<times> 'h list) \<Rightarrow> 'h \<Rightarrow> 'h \<Rightarrow> 'h owners \<Rightarrow> 'h owners" where
  "destroy_value rst inval v st = st\<lparr>ow_deleted := ow_deleted st @ snd (rst inval inval v)\<rparr>"

text \<open>\<^verbatim>\<open>operator=(T&&)\<close>: a temporary takes the value of the source, swaps and is destroyed.\<close>

definition move_assign :: "('h \<Rightarrow> 'h \<Rightarrow> 'h \<Rightarrow> 'h \<times> 'h list) \<Rightarrow> 'h \<Rightarrow> nat \<Rightarrow> nat \<Rightarrow> 'h owners \<Rightarrow> 'h owners" where
  "move_assign rst inval i j st =
     (let tmp = value_of j st; st = store j (Some inval) st;
          v = value_of i st; st = store i (Some tmp) st in
      destroy_value rst inval v st)"

definition owner_step ::
    "('h \<Rightarrow> 'h \<Rightarrow> 'h \<Rightarrow> 'h \<times> 'h list) \<Rightarrow> 'h \<Rightarrow> 'h owner_op \<Rightarrow> 'h owners \<Rightarrow> 'h owners" where
  "owner_step rst inval p st =
     (case p of
        OConstruct h \<Rightarrow> st\<lparr>ow_objects := ow_objects st @ [Some h]\<rparr>
      | OMoveConstruct j \<Rightarrow> move_construct inval j st
      | OMoveAssign i j \<Rightarrow> move_assign rst inval i j st
      | OWriteable i h \<Rightarrow> store i (Some h) st
      | OReset i h \<Rightarrow>
          (case rst inval h (value_of i st) of
             (v, ds) \<Rightarrow> store i (Some v) (st\<lparr>ow_deleted := ow_deleted st @ ds\<rparr>))
      | ODestroy i \<Rightarrow> store i None (destroy_value rst inval (value_of i st) st))"

definition no_owners :: "'h owners" where
  "no_owners = \<lparr>ow_objects = [], ow_deleted = []\<rparr>"

fun owner_run ::
    "('h \<Rightarrow> 'h \<Rightarrow> 'h \<Rightarrow> 'h \<times> 'h list) \<Rightarrow> 'h \<Rightarrow> 'h owner_op list \<Rightarrow> 'h owners \<Rightarrow> 'h owners" where
  "owner_run rst inval [] st = st"
| "owner_run rst inval (p # ps) st = owner_run rst inval ps (owner_step rst inval p st)"

section \<open>Who owns what\<close>

text \<open>
  Operations are on live objects; \<^verbatim>\<open>writeable\<close> asserts that the object is empty. A careful program does
  not hand a resource to the \<^verbatim>\<open>reset\<close> of an empty object.
\<close>

fun proper :: "'h \<Rightarrow> 'h owner_op \<Rightarrow> 'h owners \<Rightarrow> bool" where
  "proper inval (OConstruct h) st = True"
| "proper inval (OMoveConstruct j) st = alive j st"
| "proper inval (OMoveAssign i j) st = (alive i st \<and> alive j st)"
| "proper inval (OWriteable i h) st = (alive i st \<and> value_of i st = inval)"
| "proper inval (OReset i h) st = alive i st"
| "proper inval (ODestroy i) st = alive i st"

fun careful :: "'h \<Rightarrow> 'h owner_op \<Rightarrow> 'h owners \<Rightarrow> bool" where
  "careful inval (OReset i h) st = (value_of i st = inval \<longrightarrow> h = inval)"
| "careful inval _ st = True"

text \<open>All operations of a run are proper, and careful when that is asked for.\<close>

fun proper_run ::
    "('h \<Rightarrow> 'h \<Rightarrow> 'h \<Rightarrow> 'h \<times> 'h list) \<Rightarrow> bool \<Rightarrow> 'h \<Rightarrow> 'h owner_op list \<Rightarrow> 'h owners \<Rightarrow> bool" where
  "proper_run rst strict inval [] st = True"
| "proper_run rst strict inval (p # ps) st =
     (proper inval p st \<and> (strict \<longrightarrow> careful inval p st) \<and> proper_run rst strict inval ps (owner_step rst inval p st))"

definition one :: "'h \<Rightarrow> 'h \<Rightarrow> 'h multiset" where
  "one inval h = (if h = inval then {#} else {#h#})"

fun acquired :: "'h \<Rightarrow> 'h owner_op list \<Rightarrow> 'h multiset" where
  "acquired inval [] = {#}"
| "acquired inval (OConstruct h # ps) = one inval h + acquired inval ps"
| "acquired inval (OWriteable i h # ps) = one inval h + acquired inval ps"
| "acquired inval (OReset i h # ps) = one inval h + acquired inval ps"
| "acquired inval (_ # ps) = acquired inval ps"

definition slot :: "'h \<Rightarrow> 'h option \<Rightarrow> 'h multiset" where
  "slot inval v = (case v of None \<Rightarrow> {#} | Some h \<Rightarrow> one inval h)"

definition held :: "'h \<Rightarrow> 'h owners \<Rightarrow> 'h multiset" where
  "held inval st = sum_list (map (slot inval) (ow_objects st))"

lemma slot_simps [simp]: "slot inval None = {#}" "slot inval (Some h) = one inval h" "one inval inval = {#}"
  by (simp_all add: slot_def one_def)

lemma sum_update:
  fixes f :: "'a \<Rightarrow> 'b multiset"
  shows "i < length xs \<Longrightarrow> sum_list (map f (xs[i := y])) + f (xs ! i) = sum_list (map f xs) + f y"
proof (induction xs arbitrary: i)
  case (Cons x xs)
  show ?case
  proof (cases i)
    case 0
    then show ?thesis by (simp add: ac_simps)
  next
    case (Suc j)
    then show ?thesis using Cons.IH [of j] Cons.prems by (simp add: add.assoc)
  qed
qed simp

lemma held_store:
  "i < length (ow_objects st) \<Longrightarrow> held inval (store i v st) + slot inval (ow_objects st ! i) = held inval st + slot inval v"
  by (simp add: held_def store_def sum_update)

lemma held_store_alive:
  "alive i st \<Longrightarrow> held inval (store i v st) + one inval (value_of i st) = held inval st + slot inval v"
  using held_store [of i st inval v] by auto

lemma held_deleted [simp]: "held inval (st\<lparr>ow_deleted := ds\<rparr>) = held inval st"
  by (simp add: held_def)

lemma held_new: "held inval (st\<lparr>ow_objects := ow_objects st @ [Some h]\<rparr>) = held inval st + one inval h"
  by (simp add: held_def)

lemma store_fields [simp]:
  "ow_deleted (store i v st) = ow_deleted st" "length (ow_objects (store i v st)) = length (ow_objects st)"
  "i < length (ow_objects st) \<Longrightarrow> ow_objects (store i v st) ! j = (if i = j then v else ow_objects st ! j)"
  by (simp_all add: store_def nth_list_update)

lemma held_gone: "set (ow_objects st) \<subseteq> {None} \<Longrightarrow> held inval st = {#}"
proof -
  have "set xs \<subseteq> {None} \<Longrightarrow> sum_list (map (slot inval) xs) = {#}" for xs
    by (induction xs) auto
  then show "set (ow_objects st) \<subseteq> {None} \<Longrightarrow> held inval st = {#}" by (simp add: held_def)
qed

lemma empty_reset:
  "alive i st \<and> value_of i st = inval \<Longrightarrow> owner_step GenericHandle_reset inval (OReset i h) st = st"
  by (cases st) (auto simp: owner_step_def GenericHandle_reset_def store_def list_update_same_conv)

text \<open>
  The contract of \<^verbatim>\<open>reset\<close>: the old value goes to the deleter unless it is invalid, and the new
  value is taken, at least by an object that is not empty; \<open>strict\<close> says that only then.
\<close>

locale owner =
  fixes rst :: "'h \<Rightarrow> 'h \<Rightarrow> 'h \<Rightarrow> 'h \<times> 'h list" and strict :: bool
  assumes reset_law: "strict \<longrightarrow> m = inval \<longrightarrow> h = inval \<Longrightarrow> rst inval h m = (h, if m = inval then [] else [m])"
begin

lemma reset_owned:
  "strict \<longrightarrow> m = inval \<longrightarrow> h = inval \<Longrightarrow> rst inval h m = (v, ds) \<Longrightarrow> v = h \<and> mset ds = one inval m"
  by (auto simp: reset_law one_def)

lemma destroy_owned: "mset (ow_deleted (destroy_value rst inval v st)) = mset (ow_deleted st) + one inval v"
  and destroy_objects: "ow_objects (destroy_value rst inval v st) = ow_objects st"
  by (auto simp: destroy_value_def reset_law one_def)

lemma step_owned:
  assumes "proper inval p st" and "strict \<longrightarrow> careful inval p st"
  shows "held inval (owner_step rst inval p st) + mset (ow_deleted (owner_step rst inval p st)) =
    held inval st + mset (ow_deleted st) + acquired inval [p]"
proof (cases p)
  case (OConstruct h)
  then show ?thesis by (simp add: owner_step_def held_new)
next
  case (OMoveConstruct j)
  then show ?thesis using assms held_store_alive [of j st inval "Some inval"] held_new [of inval "store j (Some inval) st" "value_of j st"]
    by (simp add: owner_step_def move_construct_def Let_def store_def)
next
  case (OMoveAssign i j)
  let ?st = "store j (Some inval) st"
  have "alive i ?st" using assms OMoveAssign by auto
  moreover have "slot inval (ow_objects st ! j) = one inval (value_of j st)" using assms OMoveAssign by auto
  ultimately show ?thesis
    using OMoveAssign assms held_store_alive [of j st inval "Some inval"]
      held_store_alive [of i ?st inval "Some (value_of j st)"]
    by (simp add: owner_step_def move_assign_def Let_def destroy_owned destroy_objects held_def ac_simps)
next
  case (OWriteable i h)
  then show ?thesis using assms held_store_alive [of i st inval "Some h"] by (simp add: owner_step_def)
next
  case (OReset i h)
  obtain v ds where r: "rst inval h (value_of i st) = (v, ds)" by (cases "rst inval h (value_of i st)")
  then have "v = h" "mset ds = one inval (value_of i st)"
    using reset_owned [of "value_of i st" inval h v ds] assms OReset by auto
  then show ?thesis
    using r OReset assms held_store_alive [of i "st\<lparr>ow_deleted := ow_deleted st @ ds\<rparr>" inval "Some h"]
    by (simp add: owner_step_def ac_simps)
next
  case (ODestroy i)
  have "alive i (destroy_value rst inval (value_of i st) st)" using assms ODestroy by (simp add: destroy_objects)
  then show ?thesis
    using ODestroy assms held_store_alive [of i "destroy_value rst inval (value_of i st) st" inval None]
    by (simp add: owner_step_def destroy_objects destroy_owned held_def ac_simps)
qed

lemma acquired_Cons: "acquired inval (p # ps) = acquired inval [p] + acquired inval ps"
  by (cases p) simp_all

lemma run_owned:
  "proper_run rst strict inval ps st \<Longrightarrow>
     held inval (owner_run rst inval ps st) + mset (ow_deleted (owner_run rst inval ps st)) =
     held inval st + mset (ow_deleted st) + acquired inval ps"
proof (induction ps arbitrary: st)
  case (Cons p ps)
  then show ?case
    using step_owned [of inval p st] Cons.IH [of "owner_step rst inval p st"] acquired_Cons [of inval p ps]
    by (simp add: ac_simps)
qed simp

lemma run_all:
  assumes "proper_run rst strict inval ps no_owners"
  shows "acquired inval ps = held inval (owner_run rst inval ps no_owners) + mset (ow_deleted (owner_run rst inval ps no_owners)) \<and>
    (set (ow_objects (owner_run rst inval ps no_owners)) \<subseteq> {None} \<longrightarrow>
      mset (ow_deleted (owner_run rst inval ps no_owners)) = acquired inval ps)"
proof -
  have "acquired inval ps = held inval (owner_run rst inval ps no_owners) + mset (ow_deleted (owner_run rst inval ps no_owners))"
    using run_owned [OF assms] by (simp add: no_owners_def held_def)
  then show ?thesis using held_gone [of "owner_run rst inval ps no_owners" inval] by simp
qed

end

interpretation autoptr: owner AutoPtr_reset False
  by unfold_locales (simp add: AutoPtr_reset_def)

interpretation handle: owner GenericHandle_reset True
  by unfold_locales (simp add: GenericHandle_reset_def)

text \<open>
  C39. Nothing an owner holds is lost or deleted twice: in every proper run of owning pointers what was
  handed to them is held by the objects or was passed to the deleter, each resource once, and when all
  objects are gone everything was deleted. The same holds for owning handles when no resource is handed to
  the \<^verbatim>\<open>reset\<close> of an empty one; that \<^verbatim>\<open>reset\<close> loses the resource.
\<close>

theorem owners_delete_once:
  "(proper_run AutoPtr_reset False null ps no_owners \<longrightarrow>
      acquired null ps = held null (owner_run AutoPtr_reset null ps no_owners) +
        mset (ow_deleted (owner_run AutoPtr_reset null ps no_owners)) \<and>
      (set (ow_objects (owner_run AutoPtr_reset null ps no_owners)) \<subseteq> {None} \<longrightarrow>
        mset (ow_deleted (owner_run AutoPtr_reset null ps no_owners)) = acquired null ps)) \<and>
   (proper_run GenericHandle_reset True inval qs no_owners \<longrightarrow>
      acquired inval qs = held inval (owner_run GenericHandle_reset inval qs no_owners) +
        mset (ow_deleted (owner_run GenericHandle_reset inval qs no_owners)) \<and>
      (set (ow_objects (owner_run GenericHandle_reset inval qs no_owners)) \<subseteq> {None} \<longrightarrow>
        mset (ow_deleted (owner_run GenericHandle_reset inval qs no_owners)) = acquired inval qs)) \<and>
   (alive i st \<and> value_of i st = inval \<longrightarrow> owner_step GenericHandle_reset inval (OReset i h) st = st)"
  using autoptr.run_all [of null ps] handle.run_all [of inval qs] empty_reset [of i st inval h] by blast

lemma owners_delete_once_witness:
  "mset (ow_deleted (owner_run AutoPtr_reset 0 [OConstruct (7::nat), OConstruct 0, OMoveAssign 1 0, OReset 1 8, ODestroy 0, ODestroy 1] no_owners)) = {#7, 8#} \<and>
   mset (ow_deleted (owner_run GenericHandle_reset (-1) [OConstruct (7::int), OReset 0 8, ODestroy 0] no_owners)) = {#7, 8#} \<and>
   owner_step GenericHandle_reset (-1) (OReset 0 (5::int)) \<lparr>ow_objects = [Some (-1)], ow_deleted = []\<rparr> =
     \<lparr>ow_objects = [Some (-1)], ow_deleted = []\<rparr>"
  using owners_delete_once [of 0 "[OConstruct (7::nat), OConstruct 0, OMoveAssign 1 0, OReset 1 8, ODestroy 0, ODestroy 1]"
      "-1" "[OConstruct (7::int), OReset 0 8, ODestroy 0]" 0 "\<lparr>ow_objects = [Some (-1)], ow_deleted = []\<rparr>" 5]
  by (simp add: owner_step_def no_owners_def move_assign_def destroy_value_def store_def AutoPtr_reset_def
      GenericHandle_reset_def Let_def one_def add_mset_commute)

end
