(* ===== verification/Kes_Main.thy ===== *)
theory Kes_Main
  imports Kes_Registry Kes_Log
begin

text \<open>
  The main program of the server (\<^verbatim>\<open>src/kexplorer-server/main.cxx\<close>) and its I/O threads
  (\<^verbatim>\<open>iorunner.hxx\<close>). The start is a function of the command line and of what the system calls return.
  From there the program is a set of threads: the main thread constructs the parts of the server, sleeps
  on the exit condition, stops the event loop and destroys the parts in the reverse order; the workers run
  the handlers of the event loop. A thread that touches a part that has been destroyed is undefined
  behaviour; the theorems say when this happens and that the shutdown always comes to an end.
\<close>

section \<open>The start\<close>

text \<open>The options, as \<^verbatim>\<open>boost::program_options\<close> parsed them.\<close>

record main_options =
  mo_help :: bool
  mo_verbose :: bool
  mo_daemon :: bool
  mo_address :: "string option"

text \<open>
  \<^verbatim>\<open>daemonize\<close>, for the results of \<^verbatim>\<open>fork\<close>, \<^verbatim>\<open>setsid\<close> and the second \<^verbatim>\<open>fork\<close>: the code this
  process exits with, or that it goes on.
\<close>

definition daemonize :: "int \<Rightarrow> int \<Rightarrow> int \<Rightarrow> int option" where
  "daemonize pid1 sid pid2 =
     (if pid1 < 0 then Some 1
      else if pid1 > 0 then Some 0
      else if sid < 0 then Some 1
      else if pid2 < 0 then Some 1
      else if pid2 > 0 then Some 0
      else None)"

datatype start =
    Exited int string
  | Uncaught exn
  | Started registry Level string

text \<open>The release build, up to the \<^verbatim>\<open>try\<close> block. The parser of the command line and the initialization run
  outside of it.\<close>

definition main_start ::
    "int \<Rightarrow> string \<Rightarrow> string + main_options \<Rightarrow> int option \<Rightarrow> registry \<Rightarrow> start" where
  "main_start euid usage parsed daemon R =
     (if euid \<noteq> 0 then Exited 1 (''Root privileges required'' @ [CHR 0x0A])
      else
        case parsed of
          Inl e \<Rightarrow> Uncaught (StdExn e)
        | Inr vm \<Rightarrow>
            if mo_help vm then Exited 0 (usage @ [CHR 0x0A])
            else
              case (if mo_daemon vm then daemon else None) of
                Some code \<Rightarrow> Exited code []
              | None \<Rightarrow>
                  (case initialize R of
                     (Ok (), R) \<Rightarrow>
                       Started R (if mo_verbose vm then Debug else Info)
                         (case mo_address vm of None \<Rightarrow> ''127.0.0.1:6665'' | Some a \<Rightarrow> a)
                   | (Throw e, _) \<Rightarrow> Uncaught e
                   | _ \<Rightarrow> Uncaught (StdExn [])))"

section \<open>The threads\<close>

text \<open>The parts of the server, and the program of the main thread from the logger on.\<close>

datatype object =
    ObLogger | ObCondition | ObRunner | ObSignals | ObProcessor | ObGlobal | ObManager | ObServer

datatype stmt =
    Construct object | AsyncWait | WaitExit | LogSignal | IoStop | Finalize | ClearLog
  | Destroy object | LogException | Return int | Abort

definition main_objects :: "object list" where
  "main_objects = [ObLogger, ObCondition, ObRunner, ObSignals, ObProcessor, ObGlobal, ObManager, ObServer]"

definition main_body :: "stmt list" where
  "main_body =
     [Construct ObLogger, Construct ObCondition, Construct ObRunner, Construct ObSignals, AsyncWait,
      Construct ObProcessor, Construct ObGlobal, Construct ObManager, Construct ObServer,
      WaitExit, LogSignal, IoStop, Finalize, ClearLog,
      Destroy ObServer, Destroy ObManager, Destroy ObGlobal, Destroy ObProcessor, Destroy ObSignals,
      Destroy ObRunner, Destroy ObCondition, Destroy ObLogger, Return 0]"

text \<open>What a handler of the event loop does with the parts.\<close>

datatype action = Use object | Lock | Unlock | SetSignal int | SetExit

datatype loop_event = SignalEvent int | SignalFailed | Accepted | Request object | StopRequest | Closed | Written

primrec job :: "loop_event \<Rightarrow> action list" where
  "job (SignalEvent signo) = [SetSignal signo, SetExit]"
| "job SignalFailed = [Use ObLogger]"
| "job Accepted = [Use ObServer, Lock, Use ObGlobal, Use ObManager, Unlock, Use ObServer]"
| "job (Request handler) = [Use ObServer, Lock, Use handler, Unlock, Use ObServer]"
| "job StopRequest = [Use ObServer, Lock, Use ObGlobal, SetExit, Unlock, Use ObServer]"
| "job Closed = [Use ObServer, Lock, Use ObGlobal, Use ObManager, Unlock, Use ObServer]"
| "job Written = [Use ObServer]"

datatype worker = Idle | Busy "action list" | Ended

datatype ending = Returned int | Aborted

text \<open>
  \<open>th_alive\<close> holds the parts that exist, the last one first; \<open>th_lock\<close> is the worker that holds the mutex of
  the request processor.
\<close>

record threads =
  th_todo :: "stmt list"
  th_alive :: "object list"
  th_workers :: "worker list"
  th_waiting :: bool
  th_exit :: bool
  th_signal :: "int option"
  th_stopped :: bool
  th_lock :: "nat option"
  th_result :: "ending option"

definition threads_start :: threads where
  "threads_start =
     \<lparr>th_todo = main_body, th_alive = [], th_workers = [], th_waiting = False, th_exit = False, th_signal = None,
      th_stopped = False, th_lock = None, th_result = None\<rparr>"

definition construct :: "nat \<Rightarrow> object \<Rightarrow> threads \<Rightarrow> threads" where
  "construct threadCount ob s =
     s\<lparr>th_alive := ob # th_alive s,
       th_workers := (if ob = ObRunner then replicate threadCount Idle else th_workers s)\<rparr>"

text \<open>The constructors that can throw; what follows is the unwinding of the stack and a \<^verbatim>\<open>catch\<close> clause.
  The logger is constructed outside of the \<^verbatim>\<open>try\<close> block.\<close>

definition may_throw :: "object \<Rightarrow> bool" where
  "may_throw ob \<longleftrightarrow> ob = ObLogger \<or> ob = ObRunner \<or> ob = ObSignals \<or> ob = ObServer"

definition unwind :: "object \<Rightarrow> threads \<Rightarrow> threads" where
  "unwind ob s =
     s\<lparr>th_todo :=
       (if ob = ObLogger then [Abort]
        else map Destroy (butlast (th_alive s)) @ [LogException, Destroy ObLogger, Return 1])\<rparr>"

text \<open>The destructor of the runner stops the event loop and joins the workers.\<close>

definition destroy :: "object \<Rightarrow> stmt list \<Rightarrow> threads \<Rightarrow> threads option" where
  "destroy ob rest s =
     (if ob = ObRunner \<and> \<not> th_stopped s then Some (s\<lparr>th_stopped := True\<rparr>)
      else if ob = ObRunner \<and> (\<exists>w \<in> set (th_workers s). w \<noteq> Ended) then None
      else if (ob = ObGlobal \<or> ob = ObManager) \<and> th_lock s \<noteq> None then None
      else Some (s\<lparr>th_alive := tl (th_alive s), th_todo := rest\<rparr>))"

text \<open>A step of the main thread; \<open>None\<close> when it blocks.\<close>

fun main_step :: "nat \<Rightarrow> threads \<Rightarrow> threads option" where
  "main_step n s =
     (case th_todo s of
        [] \<Rightarrow> None
      | Construct ob # rest \<Rightarrow> Some (construct n ob (s\<lparr>th_todo := rest\<rparr>))
      | AsyncWait # rest \<Rightarrow> Some (s\<lparr>th_waiting := True, th_todo := rest\<rparr>)
      | WaitExit # rest \<Rightarrow> if th_exit s then Some (s\<lparr>th_todo := rest\<rparr>) else None
      | IoStop # rest \<Rightarrow> Some (s\<lparr>th_stopped := True, th_todo := rest\<rparr>)
      | Destroy ob # rest \<Rightarrow> destroy ob rest s
      | Return code # rest \<Rightarrow> Some (s\<lparr>th_result := Some (Returned code), th_todo := []\<rparr>)
      | Abort # rest \<Rightarrow> Some (s\<lparr>th_result := Some Aborted, th_todo := []\<rparr>)
      | _ # rest \<Rightarrow> Some (s\<lparr>th_todo := rest\<rparr>))"

definition throw_step :: "threads \<Rightarrow> threads option" where
  "throw_step s =
     (case th_todo s of
        Construct ob # rest \<Rightarrow> if may_throw ob then Some (unwind ob s) else None
      | _ \<Rightarrow> None)"

text \<open>What an action touches.\<close>

fun touches :: "action \<Rightarrow> object set" where
  "touches (Use ob) = {ob}"
| "touches Lock = {ObProcessor}"
| "touches Unlock = {ObProcessor}"
| "touches (SetSignal signo) = {}"
| "touches SetExit = {ObCondition}"

fun perform :: "nat \<Rightarrow> action \<Rightarrow> threads \<Rightarrow> threads" where
  "perform i (Use ob) s = s"
| "perform i Lock s = s\<lparr>th_lock := Some i\<rparr>"
| "perform i Unlock s = s\<lparr>th_lock := None\<rparr>"
| "perform i (SetSignal signo) s = s\<lparr>th_signal := Some signo\<rparr>"
| "perform i SetExit s = s\<lparr>th_exit := True\<rparr>"

text \<open>
  Which completions there can be: the server's as long as it exists, one for the signals. When the set of
  signals is destroyed the wait for them fails.
\<close>

primrec available :: "loop_event \<Rightarrow> threads \<Rightarrow> bool" where
  "available (SignalEvent signo) s \<longleftrightarrow> th_waiting s \<and> ObSignals \<in> set (th_alive s)"
| "available SignalFailed s \<longleftrightarrow> th_waiting s"
| "available Accepted s \<longleftrightarrow> ObServer \<in> set (th_alive s)"
| "available (Request handler) s \<longleftrightarrow> ObServer \<in> set (th_alive s) \<and> (handler = ObGlobal \<or> handler = ObManager)"
| "available StopRequest s \<longleftrightarrow> ObServer \<in> set (th_alive s)"
| "available Closed s \<longleftrightarrow> ObServer \<in> set (th_alive s)"
| "available Written s \<longleftrightarrow> ObServer \<in> set (th_alive s)"

fun for_signals :: "loop_event \<Rightarrow> bool" where
  "for_signals (SignalEvent signo) = True"
| "for_signals SignalFailed = True"
| "for_signals e = False"

text \<open>An idle worker starts a handler, unless the loop is stopped.\<close>

definition begin_step :: "nat \<Rightarrow> loop_event \<Rightarrow> threads \<Rightarrow> threads option" where
  "begin_step i e s =
     (if i < length (th_workers s) \<and> th_workers s ! i = Idle \<and> \<not> th_stopped s \<and> available e s
      then Some (s\<lparr>th_workers := (th_workers s)[i := Busy (job e)],
                   th_waiting := (th_waiting s \<and> \<not> for_signals e)\<rparr>)
      else None)"

text \<open>A step of a worker; \<open>None\<close> when it blocks, has ended, or would touch a part that does not exist.\<close>

definition worker_step :: "nat \<Rightarrow> threads \<Rightarrow> threads option" where
  "worker_step i s =
     (if i < length (th_workers s) then
        (case th_workers s ! i of
           Idle \<Rightarrow> if th_stopped s then Some (s\<lparr>th_workers := (th_workers s)[i := Ended]\<rparr>) else None
         | Busy [] \<Rightarrow> Some (s\<lparr>th_workers := (th_workers s)[i := Idle]\<rparr>)
         | Busy (a # as) \<Rightarrow>
             if touches a \<subseteq> set (th_alive s) \<and> (a = Lock \<longrightarrow> th_lock s = None)
             then Some (perform i a (s\<lparr>th_workers := (th_workers s)[i := Busy as]\<rparr>))
             else None
         | Ended \<Rightarrow> None)
      else None)"

datatype choice = Main | Throws | Begin nat loop_event | Work nat

fun th_step :: "nat \<Rightarrow> choice \<Rightarrow> threads \<Rightarrow> threads option" where
  "th_step n Main s = main_step n s"
| "th_step n Throws s = throw_step s"
| "th_step n (Begin i e) s = begin_step i e s"
| "th_step n (Work i) s = worker_step i s"

fun th_run :: "nat \<Rightarrow> choice list \<Rightarrow> threads \<Rightarrow> threads option" where
  "th_run n [] s = Some s"
| "th_run n (c # cs) s = (case th_step n c s of None \<Rightarrow> None | Some t \<Rightarrow> th_run n cs t)"

text \<open>A thread is about to touch a part that does not exist.\<close>

definition dangling :: "threads \<Rightarrow> bool" where
  "dangling s \<longleftrightarrow> (\<exists>a as. Busy (a # as) \<in> set (th_workers s) \<and> \<not> touches a \<subseteq> set (th_alive s))"

section \<open>The parts are destroyed in the reverse order of their construction\<close>

text \<open>A program of the main thread that fits the parts that exist and the state of the event loop.\<close>

fun fits :: "stmt list \<Rightarrow> object list \<Rightarrow> bool \<Rightarrow> bool" where
  "fits [] al stopped \<longleftrightarrow> False"
| "fits (Construct ob # r) al stopped \<longleftrightarrow>
     \<not> stopped \<and> al = rev (takeWhile (\<lambda>x. x \<noteq> ob) main_objects) \<and> fits r (ob # al) stopped"
| "fits (WaitExit # r) al stopped \<longleftrightarrow> \<not> stopped \<and> fits r al stopped"
| "fits (IoStop # r) al stopped \<longleftrightarrow> fits r al True"
| "fits (Destroy ob # r) al stopped \<longleftrightarrow>
     al \<noteq> [] \<and> hd al = ob \<and> (ob = ObServer \<longrightarrow> stopped) \<and> fits r (tl al) (stopped \<or> ob = ObRunner)"
| "fits (Abort # r) al stopped \<longleftrightarrow> al = []"
| "fits (Return code # r) al stopped \<longleftrightarrow> al = []"
| "fits (_ # r) al stopped \<longleftrightarrow> fits r al stopped"

lemma fits_main: "fits main_body [] False"
  by (simp add: main_body_def main_objects_def)

lemma fits_unwind:
  "ObServer \<notin> set xs \<Longrightarrow> fits r ys (stopped \<or> ObRunner \<in> set xs) \<Longrightarrow> fits (map Destroy xs @ r) (xs @ ys) stopped"
proof (induction xs arbitrary: stopped)
  case (Cons a xs)
  then show ?case using Cons.IH [of "stopped \<or> a = ObRunner"] by (auto simp: eq_commute [of ObRunner])
qed simp

definition in_order :: "object list \<Rightarrow> bool" where
  "in_order al \<longleftrightarrow> (\<exists>k. al = rev (take k main_objects))"

lemma in_order_tl: "in_order al \<Longrightarrow> in_order (tl al)"
proof -
  assume "in_order al"
  then obtain k where "al = rev (take k main_objects)" by (auto simp: in_order_def)
  then have "tl al = rev (take (min k (length main_objects) - 1) main_objects)"
    by (metis butlast_rev butlast_take take_all_iff min.commute min_def nle_le rev_swap take_take)
  then show ?thesis by (auto simp: in_order_def)
qed

lemma in_order_push: "in_order (ob # rev (takeWhile (\<lambda>x. x \<noteq> ob) main_objects))"
proof -
  have "ob # rev (takeWhile (\<lambda>x. x \<noteq> ob) main_objects) = rev (take (length (takeWhile (\<lambda>x. x \<noteq> ob) main_objects) + 1) main_objects)"
    by (cases ob) (simp_all add: main_objects_def)
  then show ?thesis unfolding in_order_def by blast
qed

lemma in_order_cases:
  assumes "in_order al"
  shows "al = [] \<or> last al = ObLogger" and "ObRunner \<in> set al \<Longrightarrow> ObCondition \<in> set al \<and> ObLogger \<in> set al"
    and "ObServer \<in> set al \<Longrightarrow> set al = UNIV"
proof -
  obtain k where "al = rev (take k main_objects)" using assms by (auto simp: in_order_def)
  then have "al = rev (take (min k 8) main_objects)" by (cases "k \<le> 8") (simp_all add: main_objects_def)
  moreover have "min k 8 \<in> {0, 1, 2, 3, 4, 5, 6, 7, 8}" by auto
  ultimately have l: "\<exists>i \<in> {0, 1, 2, 3, 4, 5, 6, 7, 8}. al = rev (take i main_objects)" by blast
  have "x \<in> set main_objects" for x by (cases x) (simp_all add: main_objects_def)
  then have "set main_objects = UNIV" by blast
  then show "al = [] \<or> last al = ObLogger" "ObRunner \<in> set al \<Longrightarrow> ObCondition \<in> set al \<and> ObLogger \<in> set al"
    "ObServer \<in> set al \<Longrightarrow> set al = UNIV"
    using l by (auto simp: main_objects_def)
qed

section \<open>The invariant of the threads\<close>

text \<open>A handler that needs nothing of the server, and one that is inside the lock.\<close>

definition light :: "action list \<Rightarrow> bool" where
  "light as \<longleftrightarrow> (\<forall>a \<in> set as. touches a \<subseteq> {ObCondition, ObLogger})"

fun in_section :: "action list \<Rightarrow> bool" where
  "in_section [] = False"
| "in_section (Lock # as) = False"
| "in_section (Unlock # as) = True"
| "in_section (_ # as) = in_section as"

fun balanced :: "action list \<Rightarrow> bool" where
  "balanced [] = True"
| "balanced (Lock # as) \<longleftrightarrow> in_section as \<and> balanced as"
| "balanced (Unlock # as) \<longleftrightarrow> \<not> in_section as \<and> balanced as"
| "balanced (_ # as) = balanced as"

lemma job_balanced: "balanced (job e)" "\<not> in_section (job e)" "for_signals e \<Longrightarrow> light (job e)"
  by (cases e; simp add: light_def)+

definition main_inv :: "threads \<Rightarrow> bool" where
  "main_inv s \<longleftrightarrow> in_order (th_alive s) \<and>
     (case th_result s of
        None \<Rightarrow> fits (th_todo s) (th_alive s) (th_stopped s)
      | Some _ \<Rightarrow> th_todo s = [] \<and> th_alive s = [])"

lemma main_invD:
  assumes "main_inv s" and "th_todo s = c # rest"
  shows "fits (c # rest) (th_alive s) (th_stopped s)" and "th_result s = None" and "in_order (th_alive s)"
  using assms by (auto simp: main_inv_def split: option.splits)

lemma main_invI:
  "fits (th_todo s) (th_alive s) (th_stopped s) \<Longrightarrow> th_result s = None \<Longrightarrow> in_order (th_alive s) \<Longrightarrow> main_inv s"
  by (simp add: main_inv_def)

definition workers_inv :: "threads \<Rightarrow> bool" where
  "workers_inv s \<longleftrightarrow>
     (\<forall>w \<in> set (th_workers s). w \<noteq> Ended \<longrightarrow> ObRunner \<in> set (th_alive s)) \<and>
     (\<forall>as. Busy as \<in> set (th_workers s) \<longrightarrow> balanced as \<and> (light as \<or> ObServer \<in> set (th_alive s) \<or> th_stopped s))"

definition lock_inv :: "threads \<Rightarrow> bool" where
  "lock_inv s \<longleftrightarrow>
     (\<forall>i. th_lock s = Some i \<longrightarrow> i < length (th_workers s)) \<and>
     (\<forall>i < length (th_workers s). th_lock s = Some i \<longleftrightarrow> (\<exists>as. th_workers s ! i = Busy as \<and> in_section as))"

definition th_inv :: "threads \<Rightarrow> bool" where
  "th_inv s \<longleftrightarrow> main_inv s \<and> workers_inv s \<and> lock_inv s"

lemma th_inv_start: "th_inv threads_start"
  using fits_main
  by (auto simp: th_inv_def main_inv_def workers_inv_def lock_inv_def threads_start_def in_order_def intro!: exI [of _ 0])

lemma all_ended:
  assumes "th_inv s" and "ObRunner \<notin> set (th_alive s)"
  shows "\<forall>w \<in> set (th_workers s). w = Ended" and "th_lock s = None"
proof -
  show e: "\<forall>w \<in> set (th_workers s). w = Ended" using assms by (auto simp: th_inv_def workers_inv_def)
  show "th_lock s = None"
  proof (cases "th_lock s")
    case (Some i)
    then have "i < length (th_workers s)" "\<exists>as. th_workers s ! i = Busy as"
      using assms(1) by (auto simp: th_inv_def lock_inv_def)
    then show ?thesis using e by (metis nth_mem worker.distinct(5))
  qed simp
qed

lemma construct_inv:
  assumes s: "th_inv s" and t: "th_todo s = Construct ob # rest"
  shows "th_inv (construct n ob (s\<lparr>th_todo := rest\<rparr>))"
proof -
  have m: "main_inv s" using s by (simp add: th_inv_def)
  have al: "\<not> th_stopped s" "th_alive s = rev (takeWhile (\<lambda>x. x \<noteq> ob) main_objects)" "fits rest (ob # th_alive s) False"
    using main_invD(1) [OF m t] by auto
  have "main_inv (construct n ob (s\<lparr>th_todo := rest\<rparr>))"
    using main_invD(2,3) [OF m t] al in_order_push [of ob] by (intro main_invI) (simp_all add: construct_def)
  moreover have "ob = ObRunner \<Longrightarrow> ObRunner \<notin> set (th_alive s)" using al(2) by (simp add: main_objects_def)
  then have "workers_inv (construct n ob (s\<lparr>th_todo := rest\<rparr>)) \<and> lock_inv (construct n ob (s\<lparr>th_todo := rest\<rparr>))"
    using s all_ended [OF s] by (auto simp: th_inv_def workers_inv_def lock_inv_def construct_def)
  ultimately show ?thesis by (simp add: th_inv_def)
qed

lemma destroy_inv:
  assumes s: "th_inv s" and t: "th_todo s = Destroy ob # rest" and d: "destroy ob rest s = Some u"
  shows "th_inv u"
proof -
  have m: "main_inv s" using s by (simp add: th_inv_def)
  have al: "th_alive s \<noteq> []" "hd (th_alive s) = ob" "ob = ObServer \<longrightarrow> th_stopped s"
    "fits rest (tl (th_alive s)) (th_stopped s \<or> ob = ObRunner)"
    using main_invD(1) [OF m t] by auto
  show ?thesis
  proof (cases "ob = ObRunner \<and> \<not> th_stopped s")
    case True
    then have u: "u = s\<lparr>th_stopped := True\<rparr>" using d by (simp add: destroy_def)
    have "main_inv u" using main_invD(2,3) [OF m t] al t u True by (intro main_invI) simp_all
    then show ?thesis using s u by (auto simp: th_inv_def workers_inv_def lock_inv_def)
  next
    case False
    then have u: "u = s\<lparr>th_alive := tl (th_alive s), th_todo := rest\<rparr>"
        "ob = ObRunner \<longrightarrow> th_stopped s \<and> (\<forall>w \<in> set (th_workers s). w = Ended)"
      using d by (auto simp: destroy_def split: if_splits)
    have "main_inv u"
      using main_invD(2,3) [OF m t] al u in_order_tl by (intro main_invI) (auto split: if_splits)
    moreover have "x \<in> set (tl (th_alive s))" if "x \<in> set (th_alive s)" "x \<noteq> ob" for x
      using that al(1,2) by (cases "th_alive s") auto
    then have "workers_inv u" using s u al(3) unfolding th_inv_def workers_inv_def by fastforce
    ultimately show ?thesis using s u by (simp add: th_inv_def lock_inv_def)
  qed
qed

lemma same_workers:
  assumes "th_inv s" and "main_inv t" and "th_alive t = th_alive s" and "th_workers t = th_workers s"
    and "th_lock t = th_lock s" and "th_stopped s \<longrightarrow> th_stopped t"
  shows "th_inv t"
  using assms by (auto simp: th_inv_def workers_inv_def lock_inv_def)

lemma main_step_inv:
  assumes s: "th_inv s" and t: "main_step n s = Some t"
  shows "th_inv t"
proof -
  have m: "main_inv s" using s by (simp add: th_inv_def)
  obtain c rest where c: "th_todo s = c # rest" using t by (cases "th_todo s") auto
  note d = main_invD [OF m c]
  show ?thesis
  proof (cases c)
    case (Construct ob)
    then show ?thesis using construct_inv [OF s] c t by auto
  next
    case (Destroy ob)
    then show ?thesis using destroy_inv [OF s] c t by auto
  next
    case (Return code)
    then show ?thesis using t c d by (intro same_workers [OF s]) (auto simp: main_inv_def)
  next
    case Abort
    then show ?thesis using t c d by (intro same_workers [OF s]) (auto simp: main_inv_def)
  qed (use t c d in \<open>intro same_workers [OF s] main_invI; auto split: if_splits\<close>)+
qed

lemma throw_step_inv:
  assumes s: "th_inv s" and t: "throw_step s = Some t"
  shows "th_inv t"
proof -
  have m: "main_inv s" using s by (simp add: th_inv_def)
  obtain ob rest where c: "th_todo s = Construct ob # rest" "t = unwind ob s"
    using t by (auto simp: throw_step_def split: list.splits stmt.splits if_splits)
  note d = main_invD [OF m c(1)]
  let ?al = "th_alive s"
  have al: "\<not> th_stopped s" "?al = rev (takeWhile (\<lambda>x. x \<noteq> ob) main_objects)" using d(1) by simp_all
  have "main_inv t"
  proof (cases "ob = ObLogger")
    case True
    then show ?thesis using c(2) d al by (intro main_invI) (simp_all add: unwind_def main_objects_def)
  next
    case False
    have l: "last ?al = ObLogger" "?al \<noteq> []" "ObServer \<notin> set ?al"
      using al(2) False by (cases ob; simp add: main_objects_def)+
    have "fits (map Destroy (butlast ?al) @ [LogException, Destroy ObLogger, Return 1]) (butlast ?al @ [ObLogger]) False"
      using l by (intro fits_unwind) (auto dest: in_set_butlastD)
    moreover have "butlast ?al @ [ObLogger] = ?al" using l by (metis append_butlast_last_id)
    ultimately show ?thesis using c(2) d al False by (intro main_invI) (simp_all add: unwind_def)
  qed
  then show ?thesis using c(2) by (intro same_workers [OF s]) (simp_all add: unwind_def)
qed

lemma worker_inv:
  assumes s: "th_inv s" and i: "i < length (th_workers s)" "th_workers s ! i \<noteq> Ended"
    and t: "th_alive t = th_alive s" "th_workers t = (th_workers s)[i := w]" "th_stopped t = th_stopped s"
      "th_todo t = th_todo s" "th_result t = th_result s"
    and w: "\<And>as. w = Busy as \<Longrightarrow> balanced as \<and> (light as \<or> ObServer \<in> set (th_alive s) \<or> th_stopped s)"
    and lock: "\<And>j. j < length (th_workers s) \<Longrightarrow> j \<noteq> i \<Longrightarrow> th_lock t = Some j \<longleftrightarrow> th_lock s = Some j"
      "th_lock t = Some i \<longleftrightarrow> (\<exists>as. w = Busy as \<and> in_section as)"
      "\<And>j. th_lock t = Some j \<Longrightarrow> j < length (th_workers s)"
  shows "th_inv t"
proof -
  have m: "main_inv s" and ws: "workers_inv s" and ls: "lock_inv s" using s by (simp_all add: th_inv_def)
  have "main_inv t" using m t by (simp add: main_inv_def split: option.splits)
  moreover have r: "ObRunner \<in> set (th_alive s)" using ws i unfolding workers_inv_def by (metis nth_mem)
  have mem: "x = w \<or> x \<in> set (th_workers s)" if "x \<in> set (th_workers t)" for x
    using that t(2) set_update_subset_insert [of "th_workers s" i w] by auto
  have "workers_inv t"
    unfolding workers_inv_def t(1,3)
  proof (intro conjI ballI allI impI)
    show "ObRunner \<in> set (th_alive s)" by (rule r)
    fix as
    assume "Busy as \<in> set (th_workers t)"
    then have "w = Busy as \<or> Busy as \<in> set (th_workers s)" using mem by metis
    then show "balanced as" "light as \<or> ObServer \<in> set (th_alive s) \<or> th_stopped s"
      using w ws unfolding workers_inv_def by blast+
  qed
  moreover have "lock_inv t"
    unfolding lock_inv_def t(2)
  proof (intro conjI allI impI)
    fix j
    show "th_lock t = Some j \<Longrightarrow> j < length ((th_workers s)[i := w])" using lock(3) by simp
    assume j: "j < length ((th_workers s)[i := w])"
    then show "th_lock t = Some j \<longleftrightarrow> (\<exists>as. (th_workers s)[i := w] ! j = Busy as \<and> in_section as)"
      using lock(1) [of j] lock(2) i(1) ls unfolding lock_inv_def by (cases "j = i") simp_all
  qed
  ultimately show ?thesis by (simp add: th_inv_def)
qed

lemma begin_step_inv:
  assumes s: "th_inv s" and t: "begin_step i e s = Some t"
  shows "th_inv t"
proof -
  have i: "i < length (th_workers s)" "th_workers s ! i = Idle" "available e s"
    and t': "t = s\<lparr>th_workers := (th_workers s)[i := Busy (job e)], th_waiting := (th_waiting s \<and> \<not> for_signals e)\<rparr>"
    using t by (auto simp: begin_step_def split: if_splits)
  have "th_lock s \<noteq> Some i" using s i by (auto simp: th_inv_def lock_inv_def)
  moreover have "light (job e) \<or> ObServer \<in> set (th_alive s)" using i(3) job_balanced(3) [of e] by (cases e) auto
  ultimately show ?thesis
    using s i t' job_balanced(1,2) by (intro worker_inv [OF s, of i _ "Busy (job e)"]) (auto simp: th_inv_def lock_inv_def)
qed

lemma worker_step_inv:
  assumes s: "th_inv s" and t: "worker_step i s = Some t"
  shows "th_inv t"
proof -
  have i: "i < length (th_workers s)" using t by (auto simp: worker_step_def split: if_splits)
  have l: "th_lock s = Some j \<longleftrightarrow> (\<exists>as. th_workers s ! j = Busy as \<and> in_section as)" if "j < length (th_workers s)" for j
    using s that by (auto simp: th_inv_def lock_inv_def)
  have len: "th_lock s = Some j \<Longrightarrow> j < length (th_workers s)" for j using s by (auto simp: th_inv_def lock_inv_def)
  show ?thesis
  proof (cases "th_workers s ! i")
    case Idle
    then have "t = s\<lparr>th_workers := (th_workers s)[i := Ended]\<rparr>"
      using t i by (auto simp: worker_step_def split: if_splits)
    then show ?thesis using i Idle l len by (intro worker_inv [OF s, of i _ Ended]) auto
  next
    case (Busy bs)
    have b: "balanced bs \<and> (light bs \<or> ObServer \<in> set (th_alive s) \<or> th_stopped s)"
      using s Busy i nth_mem [OF i] by (auto simp: th_inv_def workers_inv_def)
    show ?thesis
    proof (cases bs)
      case Nil
      then have "t = s\<lparr>th_workers := (th_workers s)[i := Idle]\<rparr>" using t i Busy by (simp add: worker_step_def)
      then show ?thesis using i Busy Nil l len by (intro worker_inv [OF s, of i _ Idle]) auto
    next
      case (Cons a as)
      then have t': "t = perform i a (s\<lparr>th_workers := (th_workers s)[i := Busy as]\<rparr>)" "a = Lock \<longrightarrow> th_lock s = None"
        using t i Busy by (auto simp: worker_step_def split: if_splits)
      have as: "balanced as \<and> (light as \<or> ObServer \<in> set (th_alive s) \<or> th_stopped s)"
        using b Cons by (cases a) (auto simp: light_def)
      have lk: "th_lock s = Some i \<longleftrightarrow> in_section (a # as)" using l [OF i] Busy Cons by auto
      show ?thesis
        using i Busy Cons as b lk l len t'
        by (cases a; intro worker_inv [OF s, of i _ "Busy as"]) auto
    qed
  next
    case Ended
    then show ?thesis using t i by (simp add: worker_step_def)
  qed
qed

lemma th_step_inv: "th_inv s \<Longrightarrow> th_step n c s = Some t \<Longrightarrow> th_inv t"
  by (cases c) (auto intro: main_step_inv throw_step_inv begin_step_inv worker_step_inv)

lemma th_run_inv: "th_run n cs s = Some t \<Longrightarrow> th_inv s \<Longrightarrow> th_inv t"
  by (induction cs arbitrary: s) (auto split: option.splits dest: th_step_inv)

text \<open>Only the handlers of the server, and only once it is destroyed, touch what does not exist.\<close>

lemma dangling_late:
  assumes s: "th_inv s" and "Busy (a # as) \<in> set (th_workers s)" and "\<not> touches a \<subseteq> set (th_alive s)"
  shows "th_stopped s \<and> ObServer \<notin> set (th_alive s) \<and> \<not> light (a # as)"
proof -
  have o: "in_order (th_alive s)" using s by (simp add: th_inv_def main_inv_def)
  have w: "ObRunner \<in> set (th_alive s)" "light (a # as) \<or> ObServer \<in> set (th_alive s) \<or> th_stopped s"
    using s assms(2) by (auto simp: th_inv_def workers_inv_def)
  have "ObServer \<notin> set (th_alive s)" using in_order_cases(3) [OF o] assms(3) by auto
  moreover have "\<not> light (a # as)" using in_order_cases(2) [OF o w(1)] assms(3) by (auto simp: light_def)
  ultimately show ?thesis using w(2) by blast
qed

section \<open>The shutdown comes to an end\<close>

primrec worker_size :: "worker \<Rightarrow> nat" where
  "worker_size Idle = 1"
| "worker_size (Busy as) = length as + 2"
| "worker_size Ended = 0"

definition work_left :: "threads \<Rightarrow> nat" where
  "work_left s = length (th_todo s) + sum_list (map worker_size (th_workers s))"

lemma sum_list_update_less:
  "i < length xs \<Longrightarrow> f y < f (xs ! i) \<Longrightarrow> sum_list (map f (xs[i := y])) < (sum_list (map f xs) :: nat)"
  by (induction xs arbitrary: i) (auto split: nat.splits)

lemma perform_fields [simp]:
  "th_todo (perform i a s) = th_todo s" "th_workers (perform i a s) = th_workers s" "th_stopped (perform i a s) = th_stopped s"
  "th_alive (perform i a s) = th_alive s"
  by (cases a; simp)+

lemma worker_step_less: "worker_step i s = Some t \<Longrightarrow> work_left t < work_left s \<and> th_stopped t = th_stopped s"
  by (auto simp: worker_step_def work_left_def sum_list_update_less split: if_splits worker.splits list.splits)

lemma step_less:
  assumes s: "th_inv s" and stop: "th_stopped s" and t: "th_step n c s = Some t"
  shows "work_left t < work_left s \<and> th_stopped t"
proof (cases c)
  case Main
  then have t': "main_step n s = Some t" using t by simp
  then obtain x rest where x: "th_todo s = x # rest" by (cases "th_todo s") auto
  have "fits (x # rest) (th_alive s) (th_stopped s)" using s x main_invD(1) by (simp add: th_inv_def)
  then show ?thesis using t' x stop by (cases x) (auto simp: destroy_def work_left_def split: if_splits)
next
  case Throws
  then obtain ob rest where x: "th_todo s = Construct ob # rest"
    using t by (auto simp: throw_step_def split: list.splits stmt.splits)
  then have "\<not> th_stopped s" using s main_invD(1) [of s] by (auto simp: th_inv_def)
  then show ?thesis using stop by simp
next
  case (Begin i e)
  then show ?thesis using t stop by (simp add: begin_step_def)
next
  case (Work i)
  then show ?thesis using t stop worker_step_less [of i s t] by simp
qed

lemma run_less:
  "th_run n cs s = Some t \<Longrightarrow> th_inv s \<Longrightarrow> th_stopped s \<Longrightarrow> length cs + work_left t \<le> work_left s \<and> th_stopped t"
proof (induction cs arbitrary: s)
  case (Cons c cs)
  obtain u where u: "th_step n c s = Some u" "th_run n cs u = Some t"
    using Cons.prems(1) by (auto split: option.splits)
  then show ?case
    using Cons.IH [OF u(2) th_step_inv [OF Cons.prems(2) u(1)]] step_less [OF Cons.prems(2,3) u(1)] by simp
qed simp

text \<open>As long as nothing dangles, some thread can go on until the program has ended.\<close>

lemma lock_holder_goes_on:
  assumes s: "th_inv s" and d: "\<not> dangling s" and l: "th_lock s = Some i"
  shows "worker_step i s \<noteq> None"
proof -
  have i: "i < length (th_workers s)" using s l by (auto simp: th_inv_def lock_inv_def)
  then obtain as where w: "th_workers s ! i = Busy as" "in_section as" using s l by (auto simp: th_inv_def lock_inv_def)
  then obtain a bs where a: "as = a # bs" "a \<noteq> Lock" by (cases as rule: in_section.cases) auto
  have "Busy (a # bs) \<in> set (th_workers s)" using nth_mem [OF i] w a by simp
  then show ?thesis using d i w a by (auto simp: worker_step_def dangling_def)
qed

lemma workers_go_on:
  assumes s: "th_inv s" and d: "\<not> dangling s" and stop: "th_stopped s" and w: "w \<in> set (th_workers s)" "w \<noteq> Ended"
  shows "\<exists>i. worker_step i s \<noteq> None"
proof (cases "th_lock s")
  case (Some i)
  then show ?thesis using lock_holder_goes_on [OF s d] by blast
next
  case None
  obtain i where i: "i < length (th_workers s)" "th_workers s ! i = w" using w(1) by (auto simp: in_set_conv_nth)
  have "worker_step i s \<noteq> None"
    using i w d stop None by (cases w) (auto simp: worker_step_def dangling_def split: list.splits)
  then show ?thesis by blast
qed

lemma goes_on:
  assumes s: "th_inv s" and d: "\<not> dangling s" and stop: "th_stopped s" and r: "th_result s = None"
  shows "\<exists>c. th_step n c s \<noteq> None"
proof (cases "\<exists>w \<in> set (th_workers s). w \<noteq> Ended")
  case True
  then obtain i where "worker_step i s \<noteq> None" using workers_go_on [OF s d stop] by blast
  then show ?thesis by (intro exI [of _ "Work i"]) simp
next
  case False
  have "th_lock s = None"
  proof (cases "th_lock s")
    case (Some i)
    then have "i < length (th_workers s)" "\<exists>as. th_workers s ! i = Busy as" using s by (auto simp: th_inv_def lock_inv_def)
    then show ?thesis using False by (metis nth_mem worker.distinct(5))
  qed simp
  moreover have "fits (th_todo s) (th_alive s) (th_stopped s)" using s r by (simp add: th_inv_def main_inv_def)
  ultimately have "main_step n s \<noteq> None"
    using False stop by (cases "th_todo s"; cases "hd (th_todo s)") (auto simp: destroy_def)
  then show ?thesis by (intro exI [of _ Main]) simp
qed

lemma runs_to_the_end:
  assumes "th_inv s" and "th_stopped s"
  shows "\<exists>cs t. th_run n cs s = Some t \<and> (th_result t \<noteq> None \<or> dangling t)"
  using assms
proof (induction "work_left s" arbitrary: s rule: less_induct)
  case less
  show ?case
  proof (cases "th_result s \<noteq> None \<or> dangling s")
    case True
    then show ?thesis by (intro exI [of _ "[]"] exI [of _ s]) simp
  next
    case False
    then obtain c u where u: "th_step n c s = Some u" using goes_on [OF less.prems(1) _ less.prems(2), of n] by auto
    then obtain cs t where "th_run n cs u = Some t" "th_result t \<noteq> None \<or> dangling t"
      using less.hyps [of u] step_less [OF less.prems u] th_step_inv [OF less.prems(1) u] by blast
    then show ?thesis using u by (intro exI [of _ "c # cs"]) auto
  qed
qed

section \<open>What the threads do and do not guarantee\<close>

definition only_light :: "threads \<Rightarrow> bool" where
  "only_light s \<longleftrightarrow> th_stopped s \<and> (\<forall>as. Busy as \<in> set (th_workers s) \<longrightarrow> light as)"

lemma only_light_step:
  assumes s: "th_inv s" and l: "only_light s" and t: "th_step n c s = Some t"
  shows "only_light t"
proof -
  have stop: "th_stopped t" using step_less [OF s _ t] l by (simp add: only_light_def)
  show ?thesis
  proof (cases c)
    case Main
    then obtain x rest where x: "th_todo s = x # rest" using t by (cases "th_todo s") auto
    have "fits (x # rest) (th_alive s) (th_stopped s)" using s x main_invD(1) by (simp add: th_inv_def)
    then have "th_workers t = th_workers s"
      using Main t x l by (cases x) (auto simp: only_light_def destroy_def split: if_splits)
    then show ?thesis using l stop by (simp add: only_light_def)
  next
    case Throws
    then have "th_workers t = th_workers s"
      using t by (auto simp: throw_step_def unwind_def split: list.splits stmt.splits if_splits)
    then show ?thesis using l stop by (simp add: only_light_def)
  next
    case (Begin i e)
    then show ?thesis using t l by (simp add: begin_step_def only_light_def)
  next
    case (Work i)
    then have w: "worker_step i s = Some t" and i: "i < length (th_workers s)"
      using t by (auto simp: worker_step_def split: if_splits)
    have old: "Busy bs \<in> set (th_workers s) \<Longrightarrow> light bs" for bs using l by (simp add: only_light_def)
    obtain y where y: "th_workers t = (th_workers s)[i := y]" "\<forall>as. y = Busy as \<longrightarrow> light as"
    proof (cases "th_workers s ! i")
      case (Busy bs)
      then have bs: "light bs" using old nth_mem [OF i] by simp
      show ?thesis
      proof (cases bs)
        case Nil
        then show ?thesis using that [of Idle] w i Busy by (auto simp: worker_step_def)
      next
        case (Cons a as)
        then show ?thesis using that [of "Busy as"] w i Busy bs by (auto simp: worker_step_def light_def split: if_splits)
      qed
    qed (use that [of Ended] w i in \<open>auto simp: worker_step_def split: if_splits\<close>)
    then have "x = y \<or> x \<in> set (th_workers s)" if "x \<in> set (th_workers t)" for x
      using that set_update_subset_insert [of "th_workers s" i y] by auto
    then show ?thesis using stop y(2) old unfolding only_light_def by metis
  qed
qed

lemma only_light_run: "th_run n cs s = Some t \<Longrightarrow> th_inv s \<Longrightarrow> only_light s \<Longrightarrow> th_inv t \<and> only_light t"
  by (induction cs arbitrary: s) (auto split: option.splits dest: only_light_step th_step_inv)

text \<open>
  C16. The parts of the server exist one inside the other: at every moment of every interleaving, those that
  exist are an initial segment of the order of construction, also while the stack is unwound because a
  constructor threw. When \<^verbatim>\<open>main\<close> has returned, nothing exists and every worker has ended.
\<close>

theorem parts_in_order:
  assumes "th_run n cs threads_start = Some s"
  shows "(\<exists>k. th_alive s = rev (take k main_objects)) \<and>
    (th_result s \<noteq> None \<longrightarrow> th_alive s = [] \<and> (\<forall>w \<in> set (th_workers s). w = Ended))"
proof -
  have s: "th_inv s" by (rule th_run_inv [OF assms th_inv_start])
  then have "in_order (th_alive s)" "th_result s \<noteq> None \<Longrightarrow> th_alive s = []" by (auto simp: th_inv_def main_inv_def)
  then show ?thesis using all_ended(1) [OF s] by (auto simp: in_order_def)
qed

text \<open>
  C13. A handler touches a part that does not exist only after the event loop was stopped and the server
  destroyed; and this cannot happen if no handler of the server was running when the loop was stopped.
\<close>

theorem handlers_safe:
  assumes "th_run n cs threads_start = Some s"
  shows "(dangling s \<longrightarrow> th_stopped s \<and> ObServer \<notin> set (th_alive s)) \<and>
    (th_stopped s \<and> (\<forall>as. Busy as \<in> set (th_workers s) \<longrightarrow> light as) \<longrightarrow>
       (\<forall>ds t. th_run n ds s = Some t \<longrightarrow> \<not> dangling t))"
proof -
  have s: "th_inv s" by (rule th_run_inv [OF assms th_inv_start])
  have "\<not> dangling t" if "th_run n ds s = Some t" "only_light s" for ds t
  proof -
    have "th_inv t" "only_light t" using only_light_run [OF that(1) s that(2)] by simp_all
    then show ?thesis using dangling_late [of t] unfolding only_light_def dangling_def by blast
  qed
  then show ?thesis using dangling_late [OF s] unfolding only_light_def dangling_def by blast
qed

text \<open>
  C15. With any number of workers, one \<^verbatim>\<open>stop\<close> request is enough for undefined behaviour: the command signals
  the exit condition while its handler still runs, the main thread wakes up and destroys the server, and
  the handler goes on to send its answer.
\<close>

definition stop_race :: "choice list" where
  "stop_race = replicate 9 Main @ Begin 0 StopRequest # replicate 4 (Work 0) @ replicate 6 Main @ [Work 0]"



section \<open>A concrete run\<close>

text \<open>A signal ends the server.\<close>

definition signal_stop :: "choice list" where
  "signal_stop = replicate 9 Main @ [Begin 0 (SignalEvent 15), Work 0, Work 0, Work 0] @ replicate 3 Main"

definition rest_of_run :: "choice list" where
  "rest_of_run = Work 0 # replicate 11 Main"

definition stopped_state :: threads where
  "stopped_state =
     \<lparr>th_todo = drop 12 main_body, th_alive = rev main_objects, th_workers = [Idle], th_waiting = False, th_exit = True,
      th_signal = Some 15, th_stopped = True, th_lock = None, th_result = None\<rparr>"

lemma signal_stop_run: "th_run 1 signal_stop threads_start = Some stopped_state"
  by (simp add: signal_stop_def stopped_state_def threads_start_def main_body_def main_objects_def construct_def
      begin_step_def worker_step_def numeral_eq_Suc)

lemma rest_of_run_run:
  "th_run 1 rest_of_run stopped_state =
     Some (stopped_state\<lparr>th_todo := [], th_alive := [], th_workers := [Ended], th_result := Some (Returned 0)\<rparr>)"
  by (simp add: rest_of_run_def stopped_state_def main_body_def main_objects_def destroy_def worker_step_def numeral_eq_Suc)

lemma run_append: "th_run n cs s = Some t \<Longrightarrow> th_run n ds t = Some u \<Longrightarrow> th_run n (cs @ ds) s = Some u"
  by (induction cs arbitrary: s) (auto split: option.splits)

lemma parts_in_order_witness:
  "\<exists>s. th_run 1 (signal_stop @ rest_of_run) threads_start = Some s \<and> th_result s = Some (Returned 0) \<and>
     th_alive s = [] \<and> set (th_workers s) \<subseteq> {Ended}"
proof -
  have r: "th_run 1 (signal_stop @ rest_of_run) threads_start =
      Some (stopped_state\<lparr>th_todo := [], th_alive := [], th_workers := [Ended], th_result := Some (Returned 0)\<rparr>)"
    by (rule run_append [OF signal_stop_run rest_of_run_run])
  show ?thesis using r parts_in_order [OF r] by auto
qed

lemma handlers_safe_witness:
  "\<exists>s t. th_run 1 signal_stop threads_start = Some s \<and> th_run 1 rest_of_run s = Some t \<and> \<not> dangling t"
proof -
  have "th_stopped stopped_state" "\<forall>as. Busy as \<in> set (th_workers stopped_state) \<longrightarrow> light as"
    by (simp_all add: stopped_state_def)
  then show ?thesis using handlers_safe [OF signal_stop_run] signal_stop_run rest_of_run_run by blast
qed


section \<open>A second server\<close>

text \<open>
  The constructor of the logger, for the errors of \<^verbatim>\<open>open\<close> and \<^verbatim>\<open>flock\<close> and what the file holds. The file is
  truncated when it is opened, before the lock is asked for (11 is \<^verbatim>\<open>EWOULDBLOCK\<close>).
\<close>

definition Logger_open :: "int option \<Rightarrow> int option \<Rightarrow> string \<Rightarrow> unit outcome \<times> string" where
  "Logger_open openError lockError file =
     (case openError of
        Some e \<Rightarrow>
          (Throw (KesExn (Exception ''Failed to create the logfile'' [(pi_id PosixErrorCode, AInt (of_int e))])), file)
      | None \<Rightarrow>
          (case lockError of
             None \<Rightarrow> (Ok (), [])
           | Some e \<Rightarrow>
               if e = 11 then (Throw (KesExn (Exception ''Server is already running'' [])), [])
               else
                 (Throw (KesExn (Exception ''Failed to lock the logfile'' [(pi_id PosixErrorCode, AInt (of_int e))])), [])))"

lemma second_server:
  "fst (Logger_open None (Some 11) file) = Throw (KesExn (Exception ''Server is already running'' []))"
  "snd (Logger_open None (Some 11) file) = []"
  "\<exists>s. th_run n [Throws, Main] threads_start = Some s \<and> th_result s = Some Aborted"
  by (simp_all add: Logger_open_def threads_start_def main_body_def throw_step_def may_throw_def unwind_def)

end
