(* ===== verification/Kes_Format.thy ===== *)
theory Kes_Format
  imports Kes_World
begin

text \<open>
  The wrappers around the formatting functions of the C library (\<^verbatim>\<open>src/kesrv/util/format.cxx\<close>,
  \<^verbatim>\<open>posixerror_posix.cxx\<close>). What \<^verbatim>\<open>printf\<close> makes of a format and its arguments is a parameter: a text, or
  nothing when it fails. How much of the text is written, and where, is the point here.
\<close>

section \<open>The C library\<close>

text \<open>
  \<^verbatim>\<open>vsnprintf\<close> writes at most \<open>n\<close> characters, the terminator included, over the memory \<open>mem\<close> it is given, and
  returns the length of the whole text. A text longer than an \<^verbatim>\<open>int\<close> can tell is an error.
\<close>

definition vsnprintf :: "string option \<Rightarrow> nat \<Rightarrow> string \<Rightarrow> int \<times> string" where
  "vsnprintf result n mem =
     (case result of
        None \<Rightarrow> (- 1, mem)
      | Some text \<Rightarrow>
          if length text > 2147483647 then (- 1, mem)
          else
            (int (length text),
             if n = 0 then mem
             else take (n - 1) text @ [NUL] @ drop (length (take (n - 1) text) + 1) mem))"

text \<open>\<^verbatim>\<open>std::string::resize\<close>; the string has one more byte, for its terminator.\<close>

definition max_size :: nat where
  "max_size = 2 ^ 63 - 1"

definition resize :: "int \<Rightarrow> string outcome" where
  "resize n =
     (if nat (n mod 2 ^ 64) > max_size then Throw (StdExn ''basic_string::_M_replace_aux'')
      else Ok (replicate (nat (n mod 2 ^ 64)) NUL))"

section \<open>The wrappers\<close>

text \<open>A format is a null pointer or a C string.\<close>

definition formatv :: "string option \<Rightarrow> string option \<Rightarrow> string outcome" where
  "formatv fmt result =
     (if fmt = None \<or> fmt = Some [] then Ok []
      else
        let required = fst (vsnprintf result 0 []) in
        obind (resize required) (\<lambda>buffer.
          if required = 2147483647 then UB
          else Ok (take (length buffer) (snd (vsnprintf result (nat (required + 1)) (buffer @ [NUL]))))))"

definition format :: "string option \<Rightarrow> string option \<Rightarrow> string outcome" where
  "format fmt result = (if fmt = None \<or> fmt = Some [] then Ok [] else formatv fmt result)"

text \<open>
  \<^verbatim>\<open>strerror_r\<close> of the GNU library returns a pointer to the message: into the buffer it was given, where a long
  message is cut, or to a constant.
\<close>

definition strerror_r :: "(int \<Rightarrow> string + string) \<Rightarrow> int \<Rightarrow> nat \<Rightarrow> string" where
  "strerror_r messages e n = (case messages e of Inl constant \<Rightarrow> constant | Inr made \<Rightarrow> take (n - 1) made)"

definition posixErrorToString :: "(int \<Rightarrow> string + string) \<Rightarrow> int \<Rightarrow> string" where
  "posixErrorToString messages e = cstr (strerror_r messages e 256)"

section \<open>Correctness\<close>

lemma vsnprintf_fits:
  assumes "length text < 2147483647"
  shows "vsnprintf (Some text) (Suc (length text)) mem = (int (length text), text @ NUL # drop (Suc (length text)) mem)"
    and "vsnprintf (Some text) 0 mem = (int (length text), mem)"
  using assms by (simp_all add: vsnprintf_def)

lemma resize_exact: "n \<le> max_size \<Longrightarrow> resize (int n) = Ok (replicate n NUL)"
proof -
  assume n: "n \<le> max_size"
  then have "int n mod 2 ^ 64 = int n" by (simp add: max_size_def)
  then show ?thesis using n by (simp add: resize_def)
qed

lemma resize_negative: "resize (- 1) = Throw (StdExn ''basic_string::_M_replace_aux'')"
  by (simp add: resize_def max_size_def)

text \<open>
  \<^verbatim>\<open>Util::format\<close> returns exactly the text \<^verbatim>\<open>printf\<close> would print, of any length an \<^verbatim>\<open>int\<close> can tell: its buffer is
  one byte longer than the string it returns, the byte the terminator goes to. When formatting fails it
  throws, because it takes the negative result for a length.
\<close>

lemma format_exact:
  assumes "length text < 2147483647" and "fmt \<noteq> []"
  shows "format (Some fmt) (Some text) = Ok text \<and>
    format (Some fmt) None = Throw (StdExn ''basic_string::_M_replace_aux'') \<and>
    format None result = Ok [] \<and> format (Some []) result = Ok []"
proof -
  have "length text \<le> max_size" using assms(1) by (simp add: max_size_def)
  moreover have "nat (int (length text) + 1) = Suc (length text)" by simp
  ultimately have "formatv (Some fmt) (Some text) = Ok text"
    using assms vsnprintf_fits [OF assms(1)] resize_exact [of "length text"] by (simp add: formatv_def Let_def)
  moreover have "formatv (Some fmt) None = Throw (StdExn ''basic_string::_M_replace_aux'')"
    using assms(2) resize_negative by (simp add: formatv_def vsnprintf_def)
  ultimately show ?thesis using assms(2) by (simp add: format_def)
qed

lemma format_exact_witness:
  "format (Some ''%d'') (Some ''42'') = Ok ''42''"
  using format_exact [of "''42''" "''%d''"] by simp

end
