(* ===== verification/Kes_JsonBuffer.thy ===== *)
theory Kes_JsonBuffer
  imports Kes_Json "HOL-Library.Monad_Syntax"
begin

text \<open>
  The memory below the JSON writer: the growing stack of \<^verbatim>\<open>internal/stack.h\<close>, the \<^verbatim>\<open>StringBuffer\<close>
  made of it, and \<^verbatim>\<open>Writer<StringBuffer>\<close> with its output and its level stack both in such memory.
  Undefined behaviour (a pointer or an access outside the block, an uninitialised cell read, the
  null block an exhausted allocator gives) is \<open>None\<close>. The lemmas show that the writer's calls never
  get there and leave in memory the text of the writer model of \<open>Kes_Json\<close>, as long as strings stay
  below the length at which the reservation wraps around.
\<close>

section \<open>The stack\<close>

text \<open>
  The block at \<^verbatim>\<open>stack_\<close> seen as cells of the element type, uninitialised ones \<open>None\<close>; its capacity
  in bytes, 0 for the null block; and \<^verbatim>\<open>stackTop_\<close> as a number of cells. The allocator is the
  argument \<open>grants\<close>: which block sizes \<^verbatim>\<open>realloc\<close> still gives.
\<close>

record 'a cstack =
  stk_cells :: "'a option list"
  stk_bytes :: nat
  stk_top :: nat
  stk_initial :: nat

definition stk_init :: "nat \<Rightarrow> 'a cstack" where
  "stk_init capacity = \<lparr>stk_cells = [], stk_bytes = 0, stk_top = 0, stk_initial = capacity\<rparr>"

definition sz_mul :: "nat \<Rightarrow> nat \<Rightarrow> nat" where
  "sz_mul a b = a * b mod 2 ^ 64"

definition sz_sub :: "nat \<Rightarrow> nat \<Rightarrow> nat" where
  "sz_sub a b = (a + (2 ^ 64 - b)) mod 2 ^ 64"

text \<open>A \<open>size_t\<close> value cast to \<^verbatim>\<open>ptrdiff_t\<close>.\<close>

definition to_ptrdiff :: "nat \<Rightarrow> int" where
  "to_ptrdiff n = (if n < 2 ^ 63 then int n else int n - 2 ^ 64)"

definition stk_Resize :: "(nat \<Rightarrow> bool) \<Rightarrow> nat \<Rightarrow> nat \<Rightarrow> 'a cstack \<Rightarrow> 'a cstack option" where
  "stk_Resize grants sz newCapacity s =
     (if newCapacity \<noteq> 0 \<and> \<not> grants newCapacity then None
      else Some (s\<lparr>stk_cells := take (newCapacity div sz) (stk_cells s @ replicate (newCapacity div sz) None),
                   stk_bytes := newCapacity\<rparr>))"

definition stk_Expand :: "(nat \<Rightarrow> bool) \<Rightarrow> nat \<Rightarrow> nat \<Rightarrow> 'a cstack \<Rightarrow> 'a cstack option" where
  "stk_Expand grants sz count s =
     (let newCapacity = (if stk_bytes s = 0 then stk_initial s
                         else sz_add (stk_bytes s) (sz_add (stk_bytes s) 1 div 2));
          newSize = sz_add (sz * stk_top s) (sz_mul sz count)
      in stk_Resize grants sz (if newCapacity < newSize then newSize else newCapacity) s)"

definition stk_Reserve :: "(nat \<Rightarrow> bool) \<Rightarrow> nat \<Rightarrow> nat \<Rightarrow> 'a cstack \<Rightarrow> 'a cstack option" where
  "stk_Reserve grants sz count s =
     (if to_ptrdiff (sz_mul sz count) > int (stk_bytes s) - int (sz * stk_top s)
      then stk_Expand grants sz count s else Some s)"

text \<open>The assertions of \<^verbatim>\<open>PushUnsafe\<close> are off: moving the top out of the block is undefined.\<close>

definition stk_PushUnsafe :: "nat \<Rightarrow> nat \<Rightarrow> 'a cstack \<Rightarrow> (nat \<times> 'a cstack) option" where
  "stk_PushUnsafe sz count s =
     (if sz * (stk_top s + count) \<le> stk_bytes s then Some (stk_top s, s\<lparr>stk_top := stk_top s + count\<rparr>) else None)"

definition stk_Push :: "(nat \<Rightarrow> bool) \<Rightarrow> nat \<Rightarrow> nat \<Rightarrow> 'a cstack \<Rightarrow> (nat \<times> 'a cstack) option" where
  "stk_Push grants sz count s = do { s \<leftarrow> stk_Reserve grants sz count s; stk_PushUnsafe sz count s }"

definition stk_Pop :: "nat \<Rightarrow> 'a cstack \<Rightarrow> 'a cstack option" where
  "stk_Pop count s = (if count \<le> stk_top s then Some (s\<lparr>stk_top := stk_top s - count\<rparr>) else None)"

definition stk_Top :: "'a cstack \<Rightarrow> 'a option" where
  "stk_Top s = (if 0 < stk_top s \<and> stk_top s \<le> length (stk_cells s) then stk_cells s ! (stk_top s - 1) else None)"

text \<open>Stores through a pointer into the block.\<close>

definition stk_write :: "nat \<Rightarrow> 'a list \<Rightarrow> 'a cstack \<Rightarrow> 'a cstack option" where
  "stk_write p xs s =
     (if p + length xs \<le> length (stk_cells s)
      then Some (s\<lparr>stk_cells := take p (stk_cells s) @ map Some xs @ drop (p + length xs) (stk_cells s)\<rparr>)
      else None)"

section \<open>The string buffer\<close>

type_synonym sbuffer = "char cstack"

definition sb_init :: sbuffer where
  "sb_init = stk_init 256"

definition sb_Put :: "(nat \<Rightarrow> bool) \<Rightarrow> char \<Rightarrow> sbuffer \<Rightarrow> sbuffer option" where
  "sb_Put grants c s = do { (p, s) \<leftarrow> stk_Push grants 1 1 s; stk_write p [c] s }"

definition sb_PutUnsafe :: "char \<Rightarrow> sbuffer \<Rightarrow> sbuffer option" where
  "sb_PutUnsafe c s = do { (p, s) \<leftarrow> stk_PushUnsafe 1 1 s; stk_write p [c] s }"

definition sb_Reserve :: "(nat \<Rightarrow> bool) \<Rightarrow> nat \<Rightarrow> sbuffer \<Rightarrow> sbuffer option" where
  "sb_Reserve grants count s = stk_Reserve grants 1 count s"

text \<open>Reading a C string from the start of a block.\<close>

fun read_cstr :: "char option list \<Rightarrow> string option" where
  "read_cstr (Some c # cs) = (if c = NUL then Some [] else map_option (Cons c) (read_cstr cs))"
| "read_cstr _ = None"

definition sb_GetString :: "(nat \<Rightarrow> bool) \<Rightarrow> sbuffer \<Rightarrow> (string \<times> sbuffer) option" where
  "sb_GetString grants s =
     do { s \<leftarrow> sb_Put grants NUL s; s \<leftarrow> stk_Pop 1 s; t \<leftarrow> read_cstr (stk_cells s); Some (t, s) }"

section \<open>The writer's output\<close>

text \<open>
  The writer is a template over its output stream and uses it through \<^verbatim>\<open>PutReserve\<close> and
  \<^verbatim>\<open>PutUnsafe\<close>: both are arguments here.
\<close>

fun put_all :: "(char \<Rightarrow> 's \<Rightarrow> 's option) \<Rightarrow> string \<Rightarrow> 's \<Rightarrow> 's option" where
  "put_all unsafe [] s = Some s"
| "put_all unsafe (c # cs) s = do { s \<leftarrow> unsafe c s; put_all unsafe cs s }"

definition os_WriteNull :: "(nat \<Rightarrow> 's \<Rightarrow> 's option) \<Rightarrow> (char \<Rightarrow> 's \<Rightarrow> 's option) \<Rightarrow> 's \<Rightarrow> 's option" where
  "os_WriteNull reserve unsafe s = do { s \<leftarrow> reserve 4 s; put_all unsafe ''null'' s }"

definition os_WriteBool :: "(nat \<Rightarrow> 's \<Rightarrow> 's option) \<Rightarrow> (char \<Rightarrow> 's \<Rightarrow> 's option) \<Rightarrow> bool \<Rightarrow> 's \<Rightarrow> 's option" where
  "os_WriteBool reserve unsafe b s =
     (if b then do { s \<leftarrow> reserve 4 s; put_all unsafe ''true'' s }
      else do { s \<leftarrow> reserve 5 s; put_all unsafe ''false'' s })"

text \<open>
  One step of the loop of \<^verbatim>\<open>WriteString\<close>, and the loop. The reservation is computed in 32 bits:
  \<^verbatim>\<open>length\<close> is a \<^verbatim>\<open>SizeType\<close>, an \<^verbatim>\<open>unsigned\<close>.
\<close>

definition os_write_char :: "(char \<Rightarrow> 's \<Rightarrow> 's option) \<Rightarrow> char \<Rightarrow> 's \<Rightarrow> 's option" where
  "os_write_char unsafe c s =
     (let e = escape ! of_char c in
      if e \<noteq> NUL then do {
        s \<leftarrow> unsafe CHR 0x5C s;
        s \<leftarrow> unsafe e s;
        if e = CHR ''u'' then do {
          s \<leftarrow> unsafe CHR ''0'' s;
          s \<leftarrow> unsafe CHR ''0'' s;
          s \<leftarrow> unsafe (hexDigits ! (of_char c div 16)) s;
          unsafe (hexDigits ! (of_char c mod 16)) s
        } else Some s
      } else unsafe c s)"

fun os_write_chars :: "(char \<Rightarrow> 's \<Rightarrow> 's option) \<Rightarrow> string \<Rightarrow> 's \<Rightarrow> 's option" where
  "os_write_chars unsafe [] s = Some s"
| "os_write_chars unsafe (c # cs) s = do { s \<leftarrow> os_write_char unsafe c s; os_write_chars unsafe cs s }"

definition os_WriteString ::
    "(nat \<Rightarrow> 's \<Rightarrow> 's option) \<Rightarrow> (char \<Rightarrow> 's \<Rightarrow> 's option) \<Rightarrow> string \<Rightarrow> 's \<Rightarrow> 's option" where
  "os_WriteString reserve unsafe str s =
     (let len = (word_of_nat (length str) :: u32) in do {
        s \<leftarrow> reserve (unat (2 + len * 6)) s;
        s \<leftarrow> unsafe CHR 0x22 s;
        s \<leftarrow> os_write_chars unsafe (take (unat len) str) s;
        unsafe CHR 0x22 s
      })"

text \<open>The integer printers of \<^verbatim>\<open>Writer<StringBuffer>\<close> print into pushed space and give the rest back.\<close>

definition sb_number :: "(nat \<Rightarrow> bool) \<Rightarrow> nat \<Rightarrow> string \<Rightarrow> sbuffer \<Rightarrow> sbuffer option" where
  "sb_number grants n digits s =
     do { (p, s) \<leftarrow> stk_Push grants 1 n s; s \<leftarrow> stk_write p digits s; stk_Pop (sz_sub n (length digits)) s }"

section \<open>The writer in memory\<close>

record mwriter =
  mw_os :: sbuffer
  mw_levels :: "level cstack"
  mw_hasRoot :: bool

definition mw_init :: mwriter where
  "mw_init = \<lparr>mw_os = sb_init, mw_levels = stk_init (32 * 16), mw_hasRoot = False\<rparr>"

definition mw_Prefix :: "(nat \<Rightarrow> bool) \<Rightarrow> mwriter \<Rightarrow> mwriter option" where
  "mw_Prefix grants w =
     (if stk_top (mw_levels w) \<noteq> 0 then do {
        level \<leftarrow> stk_Top (mw_levels w);
        os \<leftarrow> (if valueCount level > 0
               then sb_Put grants
                 (if inArray level then CHR '','' else if valueCount level mod 2 = 0 then CHR '','' else CHR '':'') (mw_os w)
               else Some (mw_os w));
        levels \<leftarrow> stk_write (stk_top (mw_levels w) - 1) [Level (Suc (valueCount level)) (inArray level)] (mw_levels w);
        Some (w\<lparr>mw_os := os, mw_levels := levels\<rparr>)
      } else Some (w\<lparr>mw_hasRoot := True\<rparr>))"

definition mw_push :: "(nat \<Rightarrow> bool) \<Rightarrow> bool \<Rightarrow> mwriter \<Rightarrow> mwriter option" where
  "mw_push grants arr w = do {
     (p, levels) \<leftarrow> stk_Push grants 16 1 (mw_levels w);
     levels \<leftarrow> stk_write p [Level 0 arr] levels;
     Some (w\<lparr>mw_levels := levels\<rparr>)
   }"

definition mw_pop :: "mwriter \<Rightarrow> mwriter option" where
  "mw_pop w = do { levels \<leftarrow> stk_Pop 1 (mw_levels w); Some (w\<lparr>mw_levels := levels\<rparr>) }"

definition mw_out :: "(sbuffer \<Rightarrow> sbuffer option) \<Rightarrow> mwriter \<Rightarrow> mwriter option" where
  "mw_out f w = do { os \<leftarrow> f (mw_os w); Some (w\<lparr>mw_os := os\<rparr>) }"

datatype wcall =
    WNull
  | WBool bool
  | WInt i32
  | WUint u32
  | WInt64 i64
  | WUint64 u64
  | WString string
  | WKey string
  | WStartObject
  | WEndObject
  | WStartArray
  | WEndArray

fun mw_call :: "(nat \<Rightarrow> bool) \<Rightarrow> wcall \<Rightarrow> mwriter \<Rightarrow> mwriter option" where
  "mw_call g WNull w = do { w \<leftarrow> mw_Prefix g w; mw_out (os_WriteNull (sb_Reserve g) sb_PutUnsafe) w }"
| "mw_call g (WBool b) w = do { w \<leftarrow> mw_Prefix g w; mw_out (os_WriteBool (sb_Reserve g) sb_PutUnsafe b) w }"
| "mw_call g (WInt i) w = do { w \<leftarrow> mw_Prefix g w; mw_out (sb_number g 11 (i32toa i)) w }"
| "mw_call g (WUint u) w = do { w \<leftarrow> mw_Prefix g w; mw_out (sb_number g 10 (u32toa u)) w }"
| "mw_call g (WInt64 i) w = do { w \<leftarrow> mw_Prefix g w; mw_out (sb_number g 21 (i64toa i)) w }"
| "mw_call g (WUint64 u) w = do { w \<leftarrow> mw_Prefix g w; mw_out (sb_number g 20 (u64toa u)) w }"
| "mw_call g (WString s) w = do { w \<leftarrow> mw_Prefix g w; mw_out (os_WriteString (sb_Reserve g) sb_PutUnsafe s) w }"
| "mw_call g (WKey s) w = do { w \<leftarrow> mw_Prefix g w; mw_out (os_WriteString (sb_Reserve g) sb_PutUnsafe s) w }"
| "mw_call g WStartObject w = do { w \<leftarrow> mw_Prefix g w; w \<leftarrow> mw_push g False w; mw_out (sb_Put g CHR ''{'') w }"
| "mw_call g WEndObject w = do { w \<leftarrow> mw_pop w; mw_out (sb_Put g CHR ''}'') w }"
| "mw_call g WStartArray w = do { w \<leftarrow> mw_Prefix g w; w \<leftarrow> mw_push g True w; mw_out (sb_Put g CHR ''['') w }"
| "mw_call g WEndArray w = do { w \<leftarrow> mw_pop w; mw_out (sb_Put g CHR '']'') w }"

fun mw_run :: "(nat \<Rightarrow> bool) \<Rightarrow> wcall list \<Rightarrow> mwriter \<Rightarrow> mwriter option" where
  "mw_run g [] w = Some w"
| "mw_run g (c # cs) w = do { w \<leftarrow> mw_call g c w; mw_run g cs w }"

text \<open>The same calls on the writer that only keeps the text.\<close>

fun jw_call :: "wcall \<Rightarrow> jwriter \<Rightarrow> jwriter" where
  "jw_call WNull = jw_Null"
| "jw_call (WBool b) = jw_Bool b"
| "jw_call (WInt i) = jw_Int i"
| "jw_call (WUint u) = jw_Uint u"
| "jw_call (WInt64 i) = jw_Int64 i"
| "jw_call (WUint64 u) = jw_Uint64 u"
| "jw_call (WString s) = jw_String s"
| "jw_call (WKey s) = jw_Key s"
| "jw_call WStartObject = jw_StartObject"
| "jw_call WEndObject = jw_EndObject"
| "jw_call WStartArray = jw_StartArray"
| "jw_call WEndArray = jw_EndArray"

section \<open>What the stack keeps\<close>

text \<open>
  \<open>stk_holds g sz N xs s\<close>: the stack holds the elements \<open>xs\<close>, all initialised, in a block of at most
  \<open>2 * N + 512\<close> bytes, up to which the allocator still gives blocks. \<open>stk_room\<close>: that many more
  elements fit without growing.
\<close>

definition grants_to :: "(nat \<Rightarrow> bool) \<Rightarrow> nat \<Rightarrow> bool" where
  "grants_to g N \<longleftrightarrow> N \<le> 2 ^ 60 \<and> (\<forall>k \<le> 2 * N + 512. g k)"

definition stk_holds :: "nat \<Rightarrow> nat \<Rightarrow> 'a list \<Rightarrow> 'a cstack \<Rightarrow> bool" where
  "stk_holds sz N xs s \<longleftrightarrow>
     stk_top s = length xs \<and> take (length xs) (stk_cells s) = map Some xs \<and>
     length (stk_cells s) = stk_bytes s div sz \<and> sz * length xs \<le> stk_bytes s \<and>
     stk_bytes s \<le> 2 * N + 512 \<and> stk_initial s \<le> 2 * N + 512"

definition stk_room :: "nat \<Rightarrow> nat \<Rightarrow> 'a cstack \<Rightarrow> bool" where
  "stk_room sz n s \<longleftrightarrow> sz * (stk_top s + n) \<le> stk_bytes s"

lemma stk_holds_init: "capacity \<le> 2 * N + 512 \<Longrightarrow> stk_holds sz N [] (stk_init capacity)"
  by (simp add: stk_holds_def stk_init_def)

text \<open>\<open>Expand\<close> asks for half as much again or for what is needed, whichever is more, and never wraps.\<close>

lemma stk_Expand_size:
  assumes "grants_to g N" "stk_holds sz N xs s" "sz * (length xs + n) \<le> N" "stk_bytes s < sz * (length xs + n)"
  obtains k where "stk_Expand g sz n s = stk_Resize g sz k s" "sz * (length xs + n) \<le> k" "k \<le> 2 * N + 512"
proof -
  let ?new = "sz * length xs + sz * n"
  have N: "N \<le> 2 ^ 60" using assms(1) by (simp add: grants_to_def)
  have s: "stk_top s = length xs" "stk_bytes s \<le> 2 * N + 512" "stk_initial s \<le> 2 * N + 512"
    using assms(2) by (auto simp: stk_holds_def)
  have new: "?new \<le> N" "stk_bytes s < ?new" using assms(3,4) by (simp_all add: distrib_left)
  have m: "sz_mul sz n = sz * n" using new N by (simp add: sz_mul_def)
  have a: "sz_add (sz * length xs) (sz * n) = ?new" using new N by (simp add: sz_add_def)
  have b: "sz_add (stk_bytes s) (sz_add (stk_bytes s) 1 div 2) = stk_bytes s + (stk_bytes s + 1) div 2"
    using s(2) new N by (simp add: sz_add_def)
  define c where "c = (if stk_bytes s = 0 then stk_initial s else stk_bytes s + (stk_bytes s + 1) div 2)"
  have c: "c \<le> 2 * N + 512" using s(3) new by (auto simp: c_def)
  show thesis
  proof (rule that)
    show "stk_Expand g sz n s = stk_Resize g sz (if c < ?new then ?new else c) s"
      by (simp only: stk_Expand_def Let_def s(1) m a b c_def)
  qed (use c new in \<open>simp_all add: distrib_left\<close>)
qed

lemma stk_Resize_holds:
  assumes "grants_to g N" "stk_holds sz N xs s" "sz * length xs \<le> k" "stk_bytes s \<le> k" "k \<le> 2 * N + 512" "0 < sz"
  shows "\<exists>s'. stk_Resize g sz k s = Some s' \<and> stk_holds sz N xs s' \<and> stk_bytes s' = k"
proof -
  have "length xs \<le> k div sz" using assms(3,6) by (simp add: less_eq_div_iff_mult_less_eq mult.commute)
  moreover have "length xs \<le> length (stk_cells s)"
    using assms(2,6) by (simp add: stk_holds_def less_eq_div_iff_mult_less_eq mult.commute)
  ultimately show ?thesis
    using assms by (auto simp: stk_Resize_def grants_to_def stk_holds_def min_def)
qed

lemma stk_Reserve_holds:
  assumes "grants_to g N" "stk_holds sz N xs s" "sz * (length xs + n) \<le> N" "0 < sz"
  shows "\<exists>s'. stk_Reserve g sz n s = Some s' \<and> stk_holds sz N xs s' \<and> stk_room sz n s'"
proof -
  have s: "stk_top s = length xs" "sz * length xs \<le> stk_bytes s" using assms(2) by (auto simp: stk_holds_def)
  have m: "sz_mul sz n = sz * n" "to_ptrdiff (sz * n) = int (sz * n)"
    using assms(1,3) by (auto simp: sz_mul_def to_ptrdiff_def grants_to_def distrib_left)
  have "(int p > int b - int q) = (b < q + p)" for p b q :: nat by linarith
  then have full: "(to_ptrdiff (sz_mul sz n) > int (stk_bytes s) - int (sz * stk_top s)) =
      (stk_bytes s < sz * (length xs + n))"
    by (simp only: m s(1) distrib_left)
  show ?thesis
  proof (cases "stk_bytes s < sz * (length xs + n)")
    case True
    obtain k where k: "stk_Expand g sz n s = stk_Resize g sz k s" "sz * (length xs + n) \<le> k" "k \<le> 2 * N + 512"
      using stk_Expand_size [OF assms(1,2,3) True] .
    have "sz * length xs \<le> k" using k(2) by (simp add: distrib_left)
    moreover have "stk_bytes s \<le> k" using True k(2) by simp
    ultimately obtain s' where "stk_Resize g sz k s = Some s'" "stk_holds sz N xs s'" "stk_bytes s' = k"
      using stk_Resize_holds [OF assms(1,2)] k(3) assms(4) by blast
    moreover have "stk_Reserve g sz n s = stk_Expand g sz n s"
      using True by (simp only: stk_Reserve_def full if_True)
    ultimately show ?thesis using k by (auto simp: stk_room_def stk_holds_def)
  next
    case False
    then have "stk_Reserve g sz n s = Some s"
      by (simp only: stk_Reserve_def full if_False)
    then show ?thesis using False assms(2) by (simp add: stk_room_def s)
  qed
qed

lemma stk_room_cells:
  assumes "stk_holds sz N xs s" "stk_room sz n s" "0 < sz"
  shows "length xs + n \<le> length (stk_cells s)"
  using assms by (simp add: stk_holds_def stk_room_def less_eq_div_iff_mult_less_eq mult.commute)

text \<open>Pushing \<open>n\<close> cells, storing into the first of them, giving the others back.\<close>

lemma stk_append:
  assumes "stk_holds sz N xs s" "stk_room sz n s" "length ys \<le> n" "0 < sz"
  shows "\<exists>s1 s2 s3. stk_PushUnsafe sz n s = Some (length xs, s1) \<and> stk_write (length xs) ys s1 = Some s2 \<and>
    stk_Pop (n - length ys) s2 = Some s3 \<and> stk_holds sz N (xs @ ys) s3 \<and> stk_bytes s3 = stk_bytes s"
proof -
  have c: "length xs + length ys \<le> length (stk_cells s)" using stk_room_cells [OF assms(1,2,4)] assms(3) by simp
  have "sz * (length xs + length ys) \<le> sz * (length xs + n)" using assms(3) by (intro mult_le_mono) simp_all
  also have "\<dots> \<le> stk_bytes s" using assms(1,2) by (simp add: stk_holds_def stk_room_def)
  finally have "sz * (length xs + length ys) \<le> stk_bytes s" .
  moreover have "take (length xs) (stk_cells s) = map Some xs" "stk_top s = length xs"
    using assms(1) by (simp_all add: stk_holds_def)
  ultimately show ?thesis
    using assms(1,2,3) c
    by (simp add: stk_PushUnsafe_def stk_write_def stk_Pop_def stk_holds_def stk_room_def min_def)
qed

lemma stk_Push_append:
  assumes "grants_to g N" "stk_holds sz N xs s" "sz * (length xs + n) \<le> N" "length ys \<le> n" "0 < sz"
  shows "\<exists>s1 s2 s3. stk_Push g sz n s = Some (length xs, s1) \<and> stk_write (length xs) ys s1 = Some s2 \<and>
    stk_Pop (n - length ys) s2 = Some s3 \<and> stk_holds sz N (xs @ ys) s3"
proof -
  obtain r where r: "stk_Reserve g sz n s = Some r" "stk_holds sz N xs r" "stk_room sz n r"
    using stk_Reserve_holds [OF assms(1,2,3,5)] by blast
  then show ?thesis using stk_append [OF r(2,3) assms(4,5)] by (auto simp: stk_Push_def)
qed

lemma stk_Pop_0 [simp]: "stk_Pop 0 s = Some s"
  by (simp add: stk_Pop_def)

lemma stk_Push_one:
  assumes "grants_to g N" "stk_holds sz N xs s" "sz * (length xs + 1) \<le> N" "0 < sz"
  shows "\<exists>s1 s2. stk_Push g sz 1 s = Some (length xs, s1) \<and> stk_write (length xs) [y] s1 = Some s2 \<and>
    stk_holds sz N (xs @ [y]) s2"
  using stk_Push_append [OF assms(1-3) _ assms(4), of "[y]"] by simp

lemma stk_Pop_holds:
  assumes "stk_holds sz N (xs @ ys) s" "0 < sz"
  shows "\<exists>s'. stk_Pop (length ys) s = Some s' \<and> stk_holds sz N xs s'"
proof -
  have "take (length xs) (take (length xs + length ys) (stk_cells s)) = map Some xs"
    using assms(1) by (simp add: stk_holds_def del: take_take)
  then show ?thesis using assms by (simp add: stk_Pop_def stk_holds_def distrib_left min_def)
qed

lemma stk_Top_holds:
  assumes "stk_holds sz N (xs @ [x]) s" "0 < sz"
  shows "stk_Top s = Some x" "\<exists>s'. stk_write (stk_top s - 1) [y] s = Some s' \<and> stk_holds sz N (xs @ [y]) s'"
proof -
  have t: "stk_top s = Suc (length xs)" "take (Suc (length xs)) (stk_cells s) = map Some xs @ [Some x]"
    using assms(1) by (simp_all add: stk_holds_def)
  then have l: "Suc (length xs) \<le> length (stk_cells s)"
    using assms by (simp add: stk_holds_def less_eq_div_iff_mult_less_eq mult.commute)
  then have "stk_cells s = (map Some xs @ [Some x]) @ drop (Suc (length xs)) (stk_cells s)"
    by (metis append_take_drop_id t(2))
  then have "stk_cells s ! length xs = Some x" "take (length xs) (stk_cells s) = map Some xs"
    by (metis length_map nth_append_length append_assoc append_Cons)
       (metis append_eq_conv_conj append_assoc length_map \<open>stk_cells s = _\<close>)
  then show "stk_Top s = Some x" "\<exists>s'. stk_write (stk_top s - 1) [y] s = Some s' \<and> stk_holds sz N (xs @ [y]) s'"
    using t l assms(1) by (simp_all add: stk_Top_def stk_write_def stk_holds_def)
qed

section \<open>The writer's puts\<close>

lemma put_all_fun:
  "put_all unsafe [] = Some"
  "put_all unsafe (c # cs) = (\<lambda>s. Option.bind (unsafe c s) (put_all unsafe cs))"
  by (simp_all add: fun_eq_iff)

lemma put_all_append: "put_all unsafe (xs @ ys) = (\<lambda>s. Option.bind (put_all unsafe xs s) (put_all unsafe ys))"
proof (rule ext)
  show "put_all unsafe (xs @ ys) s = Option.bind (put_all unsafe xs s) (put_all unsafe ys)" for s
    by (induction xs arbitrary: s) (auto split: bind_splits)
qed

lemma os_write_char_put_all: "os_write_char unsafe c = put_all unsafe (write_char c)"
  by (simp add: fun_eq_iff os_write_char_def write_char_def Let_def put_all_fun del: put_all.simps)

lemma os_write_chars_put_all: "os_write_chars unsafe cs = put_all unsafe (concat (map write_char cs))"
proof (induction cs)
  case (Cons c cs)
  have "os_write_chars unsafe (c # cs) = (\<lambda>s. Option.bind (os_write_char unsafe c s) (os_write_chars unsafe cs))"
    by (simp add: fun_eq_iff)
  then show ?case by (simp add: Cons put_all_append os_write_char_put_all)
qed (simp add: fun_eq_iff)

lemma os_WriteString_put_all:
  assumes "unat (word_of_nat (length str) :: u32) = length str"
  shows "os_WriteString reserve unsafe str s =
    do { s \<leftarrow> reserve (unat (2 + (word_of_nat (length str) :: u32) * 6)) s; put_all unsafe (WriteString str) s }"
  using assms
  by (simp add: os_WriteString_def Let_def os_write_chars_put_all WriteString_def put_all_append put_all_fun
      del: put_all.simps)

section \<open>Output streams\<close>

text \<open>
  What the writer relies on of its output: \<open>holds t s\<close>, the text written so far, and \<open>room n s\<close>, the
  characters \<^verbatim>\<open>PutUnsafe\<close> may still be called with; up to \<open>limit\<close> characters in all.
\<close>

locale output_stream =
  fixes reserve :: "nat \<Rightarrow> 's \<Rightarrow> 's option"
    and unsafe :: "char \<Rightarrow> 's \<Rightarrow> 's option"
    and holds :: "string \<Rightarrow> 's \<Rightarrow> bool"
    and room :: "nat \<Rightarrow> 's \<Rightarrow> bool"
    and limit :: nat
  assumes reserve_room: "holds t s \<Longrightarrow> length t + n \<le> limit \<Longrightarrow> \<exists>s'. reserve n s = Some s' \<and> holds t s' \<and> room n s'"
    and unsafe_put: "holds t s \<Longrightarrow> room (Suc n) s \<Longrightarrow> \<exists>s'. unsafe c s = Some s' \<and> holds (t @ [c]) s' \<and> room n s'"
begin

lemma put_all_text:
  "holds t s \<Longrightarrow> room (length cs + n) s \<Longrightarrow>
    \<exists>s'. put_all unsafe cs s = Some s' \<and> holds (t @ cs) s' \<and> room n s'"
proof (induction cs arbitrary: t s)
  case (Cons c cs)
  then obtain s1 where s1: "unsafe c s = Some s1" "holds (t @ [c]) s1" "room (length cs + n) s1"
    using unsafe_put by fastforce
  then show ?case using Cons.IH [OF s1(2,3)] by simp
qed simp

lemma reserve_put_all:
  assumes "holds t s" "length t + n \<le> limit" "length cs \<le> n"
  shows "\<exists>s'. do { s \<leftarrow> reserve n s; put_all unsafe cs s } = Some s' \<and> holds (t @ cs) s'"
proof -
  obtain r where r: "reserve n s = Some r" "holds t r" "room (length cs + (n - length cs)) r"
    using reserve_room [OF assms(1,2)] assms(3) by auto
  then show ?thesis using put_all_text [OF r(2,3)] by auto
qed

lemma WriteNull_text:
  "holds t s \<Longrightarrow> length t + 4 \<le> limit \<Longrightarrow> \<exists>s'. os_WriteNull reserve unsafe s = Some s' \<and> holds (t @ ''null'') s'"
  unfolding os_WriteNull_def by (rule reserve_put_all) simp_all

lemma WriteBool_text:
  assumes "holds t s" "length t + 5 \<le> limit"
  shows "\<exists>s'. os_WriteBool reserve unsafe b s = Some s' \<and> holds (t @ (if b then ''true'' else ''false'')) s'"
  using reserve_put_all [OF assms(1), of 4 "''true''"] reserve_put_all [OF assms(1), of 5 "''false''"] assms(2)
  by (simp add: os_WriteBool_def)

lemma WriteString_text:
  assumes "holds t s" "length str < 715827883" "length t + (6 * length str + 2) \<le> limit"
  shows "\<exists>s'. os_WriteString reserve unsafe str s = Some s' \<and> holds (t @ WriteString str) s'"
proof -
  have unat_small: "n < 2 ^ 32 \<Longrightarrow> unat (word_of_nat n :: u32) = n" for n
    by (simp add: unsigned_of_nat take_bit_nat_eq_self)
  have small: "unat (word_of_nat (length str) :: u32) = length str"
    using assms(2) by (intro unat_small) simp
  have "2 + 6 * length str < 2 ^ 32" using assms(2) by simp
  then have "unat (2 + (word_of_nat (length str) :: u32) * 6) = 6 * length str + 2"
    using unat_small [of "2 + 6 * length str"] by (simp add: mult.commute add.commute)
  moreover have "length (WriteString str) \<le> 6 * length str + 2" by (rule length_WriteString)
  moreover have "os_WriteString reserve unsafe str s =
      do { s \<leftarrow> reserve (unat (2 + (word_of_nat (length str) :: u32) * 6)) s; put_all unsafe (WriteString str) s }"
    by (simp add: os_WriteString_put_all small)
  ultimately show ?thesis using reserve_put_all [OF assms(1,3)] by simp
qed

end
section \<open>The string buffer is an output stream\<close>

definition sb_holds :: "(nat \<Rightarrow> bool) \<Rightarrow> nat \<Rightarrow> string \<Rightarrow> sbuffer \<Rightarrow> bool" where
  "sb_holds g N t s \<longleftrightarrow> grants_to g N \<and> stk_holds 1 N t s"

lemma sb_PutUnsafe_text:
  assumes "stk_holds 1 N t s" "stk_room 1 (Suc n) s"
  shows "\<exists>s'. sb_PutUnsafe c s = Some s' \<and> stk_holds 1 N (t @ [c]) s' \<and> stk_room 1 n s'"
proof -
  have "stk_room 1 1 s" using assms(2) by (simp add: stk_room_def)
  then obtain s1 s2 where s: "stk_PushUnsafe 1 1 s = Some (length t, s1)" "stk_write (length t) [c] s1 = Some s2"
    "stk_holds 1 N (t @ [c]) s2" "stk_bytes s2 = stk_bytes s"
    using stk_append [OF assms(1), of 1 "[c]"] by auto
  moreover have "stk_room 1 n s2"
    using s(3,4) assms by (simp add: stk_room_def stk_holds_def)
  ultimately show ?thesis by (simp add: sb_PutUnsafe_def)
qed

interpretation sb: output_stream "sb_Reserve g" sb_PutUnsafe "sb_holds g N" "stk_room 1" N for g N
proof
  show "\<exists>s'. sb_Reserve g n s = Some s' \<and> sb_holds g N t s' \<and> stk_room 1 n s'"
    if "sb_holds g N t s" "length t + n \<le> N" for t s n
    using that stk_Reserve_holds [of g N 1 t s n] by (simp add: sb_holds_def sb_Reserve_def)
  show "\<exists>s'. sb_PutUnsafe c s = Some s' \<and> sb_holds g N (t @ [c]) s' \<and> stk_room 1 n s'"
    if "sb_holds g N t s" "stk_room 1 (Suc n) s" for t s n c
    using that sb_PutUnsafe_text [of N t s n c] by (auto simp: sb_holds_def)
qed

lemma sb_Put_text:
  assumes "sb_holds g N t s" "length t + 1 \<le> N"
  shows "\<exists>s'. sb_Put g c s = Some s' \<and> sb_holds g N (t @ [c]) s'"
  using assms stk_Push_one [of g N 1 t s c] by (auto simp: sb_holds_def sb_Put_def)

lemma sz_sub_exact:
  assumes "b \<le> a" "a < 2 ^ 64"
  shows "sz_sub a b = a - b"
proof -
  have "(a + (p - b)) mod p = a - b" if "a < p" for p
  proof -
    have "a + (p - b) = (a - b) + p" using that assms(1) by simp
    then show ?thesis using that by (simp only: mod_add_self2) simp
  qed
  then show ?thesis using assms(2) by (simp only: sz_sub_def)
qed

lemma sb_number_text:
  assumes "sb_holds g N t s" "length digits \<le> n" "length t + n \<le> N"
  shows "\<exists>s'. sb_number g n digits s = Some s' \<and> sb_holds g N (t @ digits) s'"
proof -
  have "sz_sub n (length digits) = n - length digits"
    using assms by (intro sz_sub_exact) (simp_all add: sb_holds_def grants_to_def)
  then show ?thesis
    using assms stk_Push_append [of g N 1 t s n digits] by (auto simp: sb_holds_def sb_number_def)
qed

lemma read_cstr_text: "NUL \<notin> set t \<Longrightarrow> read_cstr (map Some t @ Some NUL # cs) = Some t"
  by (induction t) auto

lemma sb_GetString_text:
  assumes "sb_holds g N t s" "length t + 1 \<le> N" "NUL \<notin> set t"
  shows "\<exists>s'. sb_GetString g s = Some (t, s') \<and> sb_holds g N t s'"
proof -
  obtain s1 where s1: "sb_Put g NUL s = Some s1" "sb_holds g N (t @ [NUL]) s1"
    using sb_Put_text [OF assms(1,2)] by blast
  obtain s2 where s2: "stk_Pop 1 s1 = Some s2" "stk_holds 1 N t s2"
    using s1(2) stk_Pop_holds [of 1 N t "[NUL]" s1] by (auto simp: sb_holds_def)
  have "take (length t + 1) (stk_cells s1) = map Some t @ [Some NUL]"
    using s1(2) by (simp add: sb_holds_def stk_holds_def)
  then have "stk_cells s1 = map Some t @ Some NUL # drop (length t + 1) (stk_cells s1)"
    by (metis append_take_drop_id append_assoc append_Cons append_Nil)
  moreover have "stk_cells s2 = stk_cells s1" using s2(1) by (auto simp: stk_Pop_def split: if_splits)
  ultimately have "read_cstr (stk_cells s2) = Some t" using read_cstr_text [OF assms(3)] by metis
  then show ?thesis using s1 s2 by (simp add: sb_GetString_def sb_holds_def)
qed

section \<open>The writer in memory writes the text\<close>

definition mw_holds :: "(nat \<Rightarrow> bool) \<Rightarrow> nat \<Rightarrow> jwriter \<Rightarrow> mwriter \<Rightarrow> bool" where
  "mw_holds g N v w \<longleftrightarrow>
     sb_holds g N (jw_os v) (mw_os w) \<and> stk_holds 16 N (rev (jw_stack v)) (mw_levels w) \<and>
     mw_hasRoot w = jw_hasRoot v"

lemma mw_holds_init: "grants_to g N \<Longrightarrow> mw_holds g N jw_init mw_init"
  by (simp add: mw_holds_def jw_init_def mw_init_def sb_holds_def sb_init_def stk_holds_init)

lemma mw_out_text:
  assumes "mw_holds g N v w"
    and "\<And>os. sb_holds g N (jw_os v) os \<Longrightarrow> \<exists>os'. f os = Some os' \<and> sb_holds g N (jw_os v @ t) os'"
  shows "\<exists>w'. mw_out f w = Some w' \<and> mw_holds g N (jw_put t v) w'"
proof -
  obtain os' where "f (mw_os w) = Some os'" "sb_holds g N (jw_os v @ t) os'"
    using assms by (auto simp: mw_holds_def)
  then show ?thesis using assms(1) by (auto simp: mw_out_def mw_holds_def jw_put_def)
qed

lemma mw_Prefix_text:
  assumes w: "mw_holds g N v w" and l: "length (jw_os v) + 1 \<le> N"
  shows "\<exists>w'. mw_Prefix g w = Some w' \<and> mw_holds g N (jw_Prefix v) w'"
proof (cases "jw_stack v")
  case Nil
  then have "stk_top (mw_levels w) = 0" using w by (simp add: mw_holds_def stk_holds_def)
  then show ?thesis using w Nil by (auto simp: mw_Prefix_def jw_Prefix_def mw_holds_def)
next
  case (Cons level ls)
  obtain n arr where level: "level = Level n arr" by (cases level)
  have h: "stk_holds 16 N (rev ls @ [Level n arr]) (mw_levels w)" "sb_holds g N (jw_os v) (mw_os w)"
    using w by (simp_all add: mw_holds_def Cons level)
  have top: "stk_top (mw_levels w) \<noteq> 0" using h(1) by (simp add: stk_holds_def)
  obtain levels' where levels': "stk_write (stk_top (mw_levels w) - 1) [Level (Suc n) arr] (mw_levels w) = Some levels'"
    "stk_holds 16 N (rev ls @ [Level (Suc n) arr]) levels'"
    using stk_Top_holds(2) [OF h(1)] by auto
  let ?c = "if arr then CHR '','' else if n mod 2 = 0 then CHR '','' else CHR '':''"
  obtain os' where "sb_Put g ?c (mw_os w) = Some os'" "sb_holds g N (jw_os v @ [?c]) os'"
    using sb_Put_text [OF h(2) l] by blast
  then show ?thesis
    using w top stk_Top_holds(1) [OF h(1)] levels' h(2)
    by (auto simp: mw_Prefix_def jw_Prefix_def mw_holds_def Cons level jw_put_def split del: if_split)
       (auto split: if_splits)
qed

lemma length_Prefix: "length (jw_os (jw_Prefix v)) \<le> length (jw_os v) + 1"
  by (auto simp: jw_Prefix_def jw_put_def split: list.split level.split)

text \<open>A value: the prefix, then at most \<open>n\<close> more characters of the buffer.\<close>

lemma mw_value_text:
  assumes "mw_holds g N v w" "length (jw_os v) + (n + 1) \<le> N"
    and f: "\<And>s os. sb_holds g N s os \<Longrightarrow> length s + n \<le> N \<Longrightarrow> \<exists>os'. f os = Some os' \<and> sb_holds g N (s @ t) os'"
  shows "\<exists>w'. do { w \<leftarrow> mw_Prefix g w; mw_out f w } = Some w' \<and> mw_holds g N (put_value t v) w'"
proof -
  obtain w1 where w1: "mw_Prefix g w = Some w1" "mw_holds g N (jw_Prefix v) w1"
    using mw_Prefix_text [OF assms(1)] assms(2) by auto
  have "length (jw_os (jw_Prefix v)) + n \<le> N" using length_Prefix [of v] assms(2) by simp
  then show ?thesis using mw_out_text [OF w1(2) f] w1(1) by (simp add: put_value_def)
qed

lemma mw_push_level:
  assumes "mw_holds g N v w" "16 * Suc (length (jw_stack v)) \<le> N"
  shows "\<exists>w'. mw_push g arr w = Some w' \<and> mw_holds g N (jw_push arr v) w'"
  using assms stk_Push_one [of g N 16 "rev (jw_stack v)" "mw_levels w" "Level 0 arr"]
  by (auto simp: mw_holds_def sb_holds_def mw_push_def jw_push_def)

lemma mw_pop_level:
  assumes "mw_holds g N v w" "jw_stack v \<noteq> []"
  shows "\<exists>w'. mw_pop w = Some w' \<and> mw_holds g N (jw_pop v) w'"
proof -
  obtain l ls where "jw_stack v = l # ls" using assms(2) by (cases "jw_stack v") auto
  then show ?thesis
    using assms(1) stk_Pop_holds [of 16 N "rev ls" "[l]" "mw_levels w"]
    by (auto simp: mw_holds_def mw_pop_def jw_pop_def)
qed

section \<open>Any sequence of calls\<close>

text \<open>
  The characters a call may need in the buffer, a separator included; strings shorter than the length
  at which the 32-bit reservation wraps; calls that never end an object or array not begun.
\<close>

fun call_need :: "wcall \<Rightarrow> nat" where
  "call_need WNull = 5"
| "call_need (WBool b) = 6"
| "call_need (WInt i) = 12"
| "call_need (WUint u) = 11"
| "call_need (WInt64 i) = 22"
| "call_need (WUint64 u) = 21"
| "call_need (WString s) = 6 * length s + 3"
| "call_need (WKey s) = 6 * length s + 3"
| "call_need WStartObject = 2"
| "call_need WEndObject = 1"
| "call_need WStartArray = 2"
| "call_need WEndArray = 1"

fun short_call :: "wcall \<Rightarrow> bool" where
  "short_call (WString s) \<longleftrightarrow> length s < 715827883"
| "short_call (WKey s) \<longleftrightarrow> length s < 715827883"
| "short_call _ \<longleftrightarrow> True"

definition call_depth :: "wcall \<Rightarrow> nat \<Rightarrow> nat option" where
  "call_depth c d =
     (if c = WStartObject \<or> c = WStartArray then Some (Suc d)
      else if c = WEndObject \<or> c = WEndArray then (if d = 0 then None else Some (d - 1))
      else Some d)"

fun well_nested :: "nat \<Rightarrow> wcall list \<Rightarrow> bool" where
  "well_nested d [] = True"
| "well_nested d (c # cs) = (case call_depth c d of None \<Rightarrow> False | Some d' \<Rightarrow> well_nested d' cs)"

lemma length_stack_Prefix [simp]: "length (jw_stack (jw_Prefix v)) = length (jw_stack v)"
  by (simp add: jw_Prefix_def split: list.split level.split)

lemma jw_stack_put_value [simp]: "length (jw_stack (put_value s v)) = length (jw_stack v)"
  by (simp add: put_value_def)

lemma length_put_value: "length (jw_os (put_value s v)) \<le> length (jw_os v) + (length s + 1)"
  using length_Prefix [of v] by (simp add: put_value_def jw_put_def)

lemma jw_call_depth: "call_depth c (length (jw_stack v)) = Some d \<Longrightarrow> length (jw_stack (jw_call c v)) = d"
  by (cases c)
     (auto simp: call_depth_def scalar_puts jw_StartObject_def jw_StartArray_def jw_EndObject_def
       jw_EndArray_def jw_push_def jw_pop_def split: if_splits)

lemma jw_call_length: "length (jw_os (jw_call c v)) \<le> length (jw_os v) + call_need c"
proof -
  have put: "length (jw_os (put_value s v)) \<le> length (jw_os v) + (n + 1)" if "length s \<le> n" for s n
    using that length_put_value [of s v] by simp
  have str: "length (jw_os (jw_Prefix v)) + length (WriteString s) \<le> length (jw_os v) + (6 * length s + 3)" for s
    using put [OF length_WriteString, of s] by (simp add: put_value_def jw_put_def)
  show ?thesis
    using length_Prefix [of v] str put [OF length_toa(1)] put [OF length_toa(2)]
      put [OF length_toa(3)] put [OF length_toa(4)] put [of "''null''" 4] put [of "''true''" 5] put [of "''false''" 5]
    by (cases c)
       (simp_all add: jw_String_def jw_Key_def jw_Null_def jw_Bool_def jw_Int_def jw_Uint_def jw_Int64_def
         jw_Uint64_def jw_StartObject_def jw_StartArray_def jw_EndObject_def jw_EndArray_def jw_push_def
         jw_pop_def jw_put_def put_value_def)
qed

lemma mw_start_text:
  assumes w: "mw_holds g N v w" and l: "length (jw_os v) + 2 \<le> N" and d: "16 * Suc (length (jw_stack v)) \<le> N"
  shows "\<exists>w'. do { w \<leftarrow> mw_Prefix g w; w \<leftarrow> mw_push g arr w; mw_out (sb_Put g ch) w } = Some w' \<and>
    mw_holds g N (jw_put [ch] (jw_push arr (jw_Prefix v))) w'"
proof -
  obtain w1 where w1: "mw_Prefix g w = Some w1" "mw_holds g N (jw_Prefix v) w1"
    using mw_Prefix_text [OF w] l by auto
  obtain w2 where w2: "mw_push g arr w1 = Some w2" "mw_holds g N (jw_push arr (jw_Prefix v)) w2"
    using mw_push_level [OF w1(2)] d by auto
  have "length (jw_os (jw_push arr (jw_Prefix v))) + 1 \<le> N"
    using length_Prefix [of v] l by (simp add: jw_push_def)
  then show ?thesis using mw_out_text [OF w2(2) sb_Put_text] w1(1) w2(1) by simp
qed

lemma mw_end_text:
  assumes w: "mw_holds g N v w" and l: "length (jw_os v) + 1 \<le> N" "jw_stack v \<noteq> []"
  shows "\<exists>w'. do { w \<leftarrow> mw_pop w; mw_out (sb_Put g ch) w } = Some w' \<and> mw_holds g N (jw_put [ch] (jw_pop v)) w'"
proof -
  obtain w1 where w1: "mw_pop w = Some w1" "mw_holds g N (jw_pop v) w1"
    using mw_pop_level [OF w l(2)] by blast
  have "length (jw_os (jw_pop v)) + 1 \<le> N" using l(1) by (simp add: jw_pop_def)
  then show ?thesis using mw_out_text [OF w1(2) sb_Put_text] w1(1) by simp
qed

lemma mw_call_text:
  assumes w: "mw_holds g N v w" and n: "length (jw_os v) + call_need c \<le> N"
    and d: "16 * Suc (length (jw_stack v)) \<le> N" and c: "short_call c" "call_depth c (length (jw_stack v)) \<noteq> None"
  shows "\<exists>w'. mw_call g c w = Some w' \<and> mw_holds g N (jw_call c v) w'"
proof -
  note val = mw_value_text [OF w]
  note num = sb_number_text [of g N]
  note start = mw_start_text [OF w _ d] and "end" = mw_end_text [OF w]
  show ?thesis
  proof (cases c)
    case WNull
    then show ?thesis using val [of 4, OF _ sb.WriteNull_text] n by (simp add: jw_Null_def put_value_def)
  next
    case (WBool b)
    then show ?thesis using val [of 5, OF _ sb.WriteBool_text] n by (simp add: jw_Bool_def put_value_def)
  next
    case (WInt i)
    then show ?thesis using val [of 11, OF _ num [OF _ length_toa(2)]] n by (simp add: jw_Int_def put_value_def)
  next
    case (WUint u)
    then show ?thesis using val [of 10, OF _ num [OF _ length_toa(1)]] n by (simp add: jw_Uint_def put_value_def)
  next
    case (WInt64 i)
    then show ?thesis using val [of 21, OF _ num [OF _ length_toa(4)]] n by (simp add: jw_Int64_def put_value_def)
  next
    case (WUint64 u)
    then show ?thesis using val [of 20, OF _ num [OF _ length_toa(3)]] n by (simp add: jw_Uint64_def put_value_def)
  next
    case (WString s)
    then show ?thesis
      using val [of "6 * length s + 2", OF _ sb.WriteString_text] n c by (simp add: jw_String_def put_value_def)
  next
    case (WKey s)
    then show ?thesis
      using val [of "6 * length s + 2", OF _ sb.WriteString_text] n c
      by (simp add: jw_Key_def jw_String_def put_value_def)
  qed (use start "end" n c in \<open>simp_all add: jw_StartObject_def jw_EndObject_def jw_StartArray_def
         jw_EndArray_def call_depth_def split: if_splits\<close>)
qed

lemma mw_run_text:
  assumes "mw_holds g N v w" "length (jw_os v) + sum_list (map call_need cs) \<le> N"
    and "16 * (length (jw_stack v) + length cs) \<le> N" "list_all short_call cs" "well_nested (length (jw_stack v)) cs"
  shows "\<exists>w'. mw_run g cs w = Some w' \<and> mw_holds g N (fold jw_call cs v) w'"
  using assms
proof (induction cs arbitrary: v w)
  case (Cons c cs)
  obtain d where d: "call_depth c (length (jw_stack v)) = Some d" "well_nested d cs"
    using Cons.prems(5) by (auto split: option.splits)
  obtain w1 where w1: "mw_call g c w = Some w1" "mw_holds g N (jw_call c v) w1"
    using mw_call_text [OF Cons.prems(1), of c] Cons.prems d(1) by auto
  have "d \<le> Suc (length (jw_stack v))" using d(1) by (auto simp: call_depth_def split: if_splits)
  then show ?case
    using Cons.IH [OF w1(2)] Cons.prems d w1(1) jw_call_depth [OF d(1)] jw_call_length [of c v] by simp
qed simp

lemma jw_call_no_nul: "NUL \<notin> set (jw_os v) \<Longrightarrow> NUL \<notin> set (jw_os (jw_call c v))"
proof -
  assume v: "NUL \<notin> set (jw_os v)"
  then have p: "NUL \<notin> set (jw_os (jw_Prefix v))"
    by (auto simp: jw_Prefix_def jw_put_def split: list.split level.split)
  then have "NUL \<notin> set (jw_os (put_value s v))" if "NUL \<notin> set s" for s
    using that by (simp add: put_value_def jw_put_def)
  then show ?thesis
    using p v
    by (cases c)
       (simp_all add: scalar_puts WriteString_no_nul show_int_no_nul show_nat_no_nul jw_StartObject_def
         jw_StartArray_def jw_EndObject_def jw_EndArray_def jw_push_def jw_pop_def jw_put_def)
qed

lemma jw_calls_no_nul: "NUL \<notin> set (jw_os v) \<Longrightarrow> NUL \<notin> set (jw_os (fold jw_call cs v))"
  by (induction cs arbitrary: v) (simp_all add: jw_call_no_nul)

definition writer_need :: "wcall list \<Rightarrow> nat" where
  "writer_need cs = sum_list (map call_need cs) + 16 * length cs + 1"

lemma mw_run_text_init:
  assumes "list_all short_call cs" and "well_nested 0 cs" and "writer_need cs \<le> N" and "grants_to g N"
  shows "\<exists>w os. mw_run g cs mw_init = Some w \<and> stk_bytes (mw_os w) \<le> 2 * N + 512 \<and>
    sb_GetString g (mw_os w) = Some (jw_os (fold jw_call cs jw_init), os)"
proof -
  let ?v = "fold jw_call cs jw_init"
  have need: "sum_list (map call_need cs) + 16 * length cs + 1 \<le> N" using assms(3) by (simp add: writer_need_def)
  obtain w where w: "mw_run g cs mw_init = Some w" "mw_holds g N ?v w"
    using mw_run_text [OF mw_holds_init [OF assms(4)], of cs] assms(1,2) need by (auto simp: jw_init_def)
  have "length (jw_os (fold jw_call cs v)) \<le> length (jw_os v) + sum_list (map call_need cs)" for v
  proof (induction cs arbitrary: v)
    case (Cons c cs)
    from Cons.IH [of "jw_call c v"] jw_call_length [of c v] show ?case by simp
  qed simp
  from this [of jw_init] have "length (jw_os ?v) + 1 \<le> N" using need by (simp add: jw_init_def)
  moreover have "NUL \<notin> set (jw_os ?v)" by (rule jw_calls_no_nul) (simp add: jw_init_def)
  ultimately show ?thesis
    using sb_GetString_text [of g N "jw_os ?v" "mw_os w"] w by (auto simp: mw_holds_def sb_holds_def stk_holds_def)
qed

text \<open>
  C18. The JSON writer never leaves its memory. Take any sequence of its calls whose strings are
  shorter than 715827883 characters and which ends only objects and arrays it began, and an
  allocator that still gives blocks of twice the size the calls can need and 512 bytes. Then no
  unchecked write of the writer (\<^verbatim>\<open>PutUnsafe\<close> after a reservation, an integer printed into pushed
  space, a level updated in place) goes outside its block or touches an uninitialised cell, no
  capacity computation wraps, the buffer never takes more than that memory, and \<^verbatim>\<open>GetString\<close> reads
  back, terminated, exactly the text that the writer without memory produces.
\<close>

theorem writer_in_bounds:
  assumes "list_all short_call cs" and "well_nested 0 cs" and "writer_need cs \<le> N" and "grants_to g N"
  shows "\<exists>w os. mw_run g cs mw_init = Some w \<and> stk_bytes (mw_os w) \<le> 2 * N + 512 \<and>
    sb_GetString g (mw_os w) = Some (jw_os (fold jw_call cs jw_init), os)"
  using mw_run_text_init [OF assms] .

theorem writer_in_bounds_witness:
  "\<exists>w os. mw_run (\<lambda>k. k \<le> 1000) [WStartObject, WKey ''a'', WInt 5, WEndObject] mw_init = Some w \<and>
    stk_bytes (mw_os w) \<le> 712 \<and>
    sb_GetString (\<lambda>k. k \<le> 1000) (mw_os w) = Some (''{'' @ [CHR 0x22, CHR ''a'', CHR 0x22] @ '':5}'', os)"
proof -
  have "jw_os (fold jw_call [WStartObject, WKey ''a'', WInt 5, WEndObject] jw_init) =
      ''{'' @ [CHR 0x22, CHR ''a'', CHR 0x22] @ '':5}''"
    by code_simp
  then show ?thesis
    using writer_in_bounds [of "[WStartObject, WKey ''a'', WInt 5, WEndObject]" 100 "\<lambda>k. k \<le> 1000"]
    by (simp add: writer_need_def grants_to_def call_depth_def)
qed

section \<open>The reservation for a long string\<close>

lemma put_all_top:
  "put_all sb_PutUnsafe cs s = Some s' \<Longrightarrow> stk_top s' = stk_top s + length cs \<and> stk_bytes s' = stk_bytes s \<and>
    (cs \<noteq> [] \<longrightarrow> stk_top s + length cs \<le> stk_bytes s)"
proof (induction cs arbitrary: s)
  case (Cons c cs)
  then obtain s1 where s1: "sb_PutUnsafe c s = Some s1" "put_all sb_PutUnsafe cs s1 = Some s'"
    by (auto split: bind_splits)
  then have "stk_top s1 = stk_top s + 1" "stk_bytes s1 = stk_bytes s" "stk_top s + 1 \<le> stk_bytes s"
    by (auto simp: sb_PutUnsafe_def stk_PushUnsafe_def stk_write_def split: if_splits)
  then show ?case using Cons.IH [OF s1(2)] by (cases cs) simp_all
qed simp

lemma length_WriteString_ge: "length s + 2 \<le> length (WriteString s)"
proof -
  have "length s \<le> length (concat (map write_char s))"
    by (induction s) (auto simp: write_char_def Let_def)
  then show ?thesis by (simp add: WriteString_def)
qed

lemma sb_Reserve_init:
  "n < 2 ^ 63 \<Longrightarrow> sb_Reserve g n sb_init = Some s \<Longrightarrow> stk_top s = 0 \<and> stk_bytes s \<le> max 256 n"
  by (auto simp: sb_Reserve_def sb_init_def stk_init_def stk_Reserve_def stk_Expand_def stk_Resize_def Let_def
      sz_mul_def sz_add_def to_ptrdiff_def split: if_splits)

text \<open>
  C22. The number of characters the writer reserves for a string is computed in 32 bits, so it wraps
  around for strings of 715827883 characters and more: between this length and 858993458 characters
  the space reserved is smaller than the string itself, and the unchecked writes that follow leave
  the block, whatever memory the allocator has.
\<close>

theorem reservation_wraps:
  assumes "715827883 \<le> length s" and "length s \<le> 858993458"
  shows "mw_call g (WString s) mw_init = None"
proof -
  let ?n = "length s" and ?r = "unat (2 + (word_of_nat (length s) :: u32) * 6)"
  have small: "unat (word_of_nat ?n :: u32) = ?n"
    using assms(2) by (simp add: unsigned_of_nat take_bit_nat_eq_self)
  have "?r = (2 + ?n * 6) mod 2 ^ 32"
  proof -
    have "2 + (word_of_nat ?n :: u32) * 6 = word_of_nat (2 + ?n * 6)" by simp
    then show ?thesis by (simp only: unsigned_of_nat take_bit_eq_mod) simp
  qed
  also have "\<dots> = 2 + ?n * 6 - 4294967296" using assms by (simp add: le_mod_geq)
  finally have r: "?r < ?n" "?r < 2 ^ 63" using assms by simp_all
  have "put_all sb_PutUnsafe (WriteString s) os = None" if "sb_Reserve g ?r sb_init = Some os" for os
  proof (rule ccontr)
    assume "put_all sb_PutUnsafe (WriteString s) os \<noteq> None"
    then have "length (WriteString s) \<le> stk_bytes os"
      using put_all_top [of "WriteString s" os] sb_Reserve_init [OF r(2) that] by (auto simp: WriteString_def)
    then show False
      using sb_Reserve_init [OF r(2) that] length_WriteString_ge [of s] r(1) assms(1) by (simp add: max_def split: if_splits)
  qed
  then have "os_WriteString (sb_Reserve g) sb_PutUnsafe s sb_init = None"
    by (cases "sb_Reserve g ?r sb_init") (simp_all add: os_WriteString_put_all [OF small])
  then show ?thesis by (simp add: mw_Prefix_def mw_out_def mw_init_def stk_init_def)
qed

theorem reservation_wraps_witness:
  "mw_call (\<lambda>k. k \<le> 2 ^ 40) (WString (replicate 715827883 CHR ''x'')) mw_init = None"
  by (rule reservation_wraps, unfold length_replicate, simp, simp)

end
