(* ===== verification/Kes_BagMemory.thy ===== *)
theory Kes_BagMemory
  imports Kes_JsonBuffer Kes_Requests Kes_BagJson
begin

text \<open>
  What the server prints, in the memory it prints to: the writer calls of \<^verbatim>\<open>propertyBagToJson\<close>
  (\<^verbatim>\<open>kesrv/propertybag.cxx\<close>) and of \<^verbatim>\<open>kesrv/util/requestutil.cxx\<close> as sequences, run by the writer of
  \<open>Kes_JsonBuffer\<close>. The text itself bounds the strings and the memory of a printing.
\<close>

section \<open>The calls of the bag printer\<close>

definition name_calls :: "string \<Rightarrow> wcall list" where
  "name_calls n = (if n \<noteq> [] then [WKey n] else [])"

definition property_calls :: "registry \<Rightarrow> bag \<Rightarrow> wcall list outcome" where
  "property_calls R b =
     obind (bag_property b) (\<lambda>p.
       if \<not> has_value (p_value p)
       then Throw (KesExn (Exception (''Property '' @ hex8 (p_id p) @ '' has no value'') []))
       else
         (case effective_type R p of
            TBool \<Rightarrow> omap (\<lambda>x. [WBool x]) (any_cast_bool (p_value p))
          | TInt \<Rightarrow> omap (\<lambda>x. [WInt x]) (any_cast_int (p_value p))
          | TUInt \<Rightarrow> omap (\<lambda>x. [WUint x]) (any_cast_uint (p_value p))
          | TInt64 \<Rightarrow> omap (\<lambda>x. [WInt64 x]) (any_cast_int64 (p_value p))
          | TUInt64 \<Rightarrow> omap (\<lambda>x. [WUint64 x]) (any_cast_uint64 (p_value p))
          | TString \<Rightarrow> omap (\<lambda>x. [WString x]) (any_cast_string (p_value p))
          | _ \<Rightarrow> Ok []))"

function (sequential)
  bag_calls :: "registry \<Rightarrow> bag \<Rightarrow> wcall list outcome"
and
  items_calls :: "registry \<Rightarrow> bag list \<Rightarrow> wcall list outcome"
and
  entries_calls :: "registry \<Rightarrow> (string \<times> bag) list \<Rightarrow> wcall list outcome"
where
  "bag_calls R (ArrayBag n a) = omap (\<lambda>cs. name_calls n @ WStartArray # cs @ [WEndArray]) (items_calls R a)"
| "bag_calls R (TableBag n t) = omap (\<lambda>cs. name_calls n @ WStartObject # cs @ [WEndObject]) (entries_calls R t)"
| "bag_calls R b = omap (\<lambda>cs. name_calls (bag_name b) @ cs) (property_calls R b)"
| "items_calls R [] = Ok []"
| "items_calls R (b # bs) =
     (if isEmpty b then items_calls R bs else obind (bag_calls R b) (\<lambda>cs. omap (\<lambda>ds. cs @ ds) (items_calls R bs)))"
| "entries_calls R [] = Ok []"
| "entries_calls R ((k, b) # es) =
     (if isEmpty b then entries_calls R es else obind (bag_calls R b) (\<lambda>cs. omap (\<lambda>ds. cs @ ds) (entries_calls R es)))"
  by pat_completeness auto
termination
  by (relation "measure (case_sum (\<lambda>(R, b). size b)
        (case_sum (\<lambda>(R, bs). size_list size bs)
                  (\<lambda>(R, es). size_list (size_prod (\<lambda>x. 0) size) es)))") auto

section \<open>They are what the printer does\<close>

lemma omap_omap [simp]: "omap f (omap g r) = omap (\<lambda>x. f (g x)) r"
  by (cases r) simp_all

lemma omap_Ok_iff: "omap f r = Ok y \<longleftrightarrow> (\<exists>x. r = Ok x \<and> y = f x)"
  by (cases r) auto

lemma fold_name_calls: "fold jw_call (name_calls n) w = write_name n w"
  by (simp add: name_calls_def write_name_def)

lemma fold_property_calls: "omap (\<lambda>cs. fold jw_call cs w) (property_calls R b) = propertyToJson R b w"
proof (cases "bag_property b")
  case (Ok p)
  then show ?thesis
    by (cases "effective_type R p") (simp_all add: property_calls_def propertyToJson_def)
qed (simp_all add: property_calls_def propertyToJson_def)

lemma fold_calls:
  "bagToJson R b w = omap (\<lambda>cs. fold jw_call cs w) (bag_calls R b)"
  "itemsToJson R bs w = omap (\<lambda>cs. fold jw_call cs w) (items_calls R bs)"
  "entriesToJson R es w = omap (\<lambda>cs. fold jw_call cs w) (entries_calls R es)"
proof (induction R b and R bs and R es arbitrary: w and w and w
    rule: bag_calls_items_calls_entries_calls.induct)
  case (5 R b bs)
  then show ?case by (cases "bag_calls R b") simp_all
next
  case (7 R k b es)
  then show ?case by (cases "bag_calls R b") simp_all
qed (simp_all add: fold_name_calls flip: fold_property_calls)

text \<open>The calls end what they begin, and only that.\<close>

lemma well_nested_scalar:
  "c \<notin> {WStartObject, WEndObject, WStartArray, WEndArray} \<Longrightarrow> well_nested d (c # cs) = well_nested d cs"
  by (simp add: call_depth_def)

lemma well_nested_brackets:
  "well_nested d (WStartObject # cs) = well_nested (Suc d) cs" "well_nested d (WStartArray # cs) = well_nested (Suc d) cs"
  "well_nested (Suc d) (WEndObject # cs) = well_nested d cs" "well_nested (Suc d) (WEndArray # cs) = well_nested d cs"
  by (simp_all add: call_depth_def)

lemma name_nested: "well_nested d (name_calls n @ cs) = well_nested d cs"
  by (simp add: name_calls_def well_nested_scalar del: well_nested.simps)

lemma property_nested: "property_calls R b = Ok cs \<Longrightarrow> well_nested d (cs @ ds) = well_nested d ds"
proof (cases "bag_property b")
  case (Ok p)
  assume "property_calls R b = Ok cs"
  then show ?thesis
    using Ok by (cases "has_value (p_value p)"; cases "effective_type R p")
      (auto simp: property_calls_def omap_Ok_iff well_nested_scalar simp del: well_nested.simps(2))
qed (simp_all add: property_calls_def)

lemma calls_nested:
  "bag_calls R b = Ok cs \<Longrightarrow> well_nested d (cs @ ds) = well_nested d ds"
  "items_calls R bs = Ok cs \<Longrightarrow> well_nested d (cs @ ds) = well_nested d ds"
  "entries_calls R es = Ok cs \<Longrightarrow> well_nested d (cs @ ds) = well_nested d ds"
  by (induction R b and R bs and R es arbitrary: cs d ds and cs d ds and cs d ds
      rule: bag_calls_items_calls_entries_calls.induct)
     (auto simp: omap_Ok_iff obind_Ok_iff name_nested property_nested well_nested_brackets
       split: if_splits simp del: well_nested.simps)

section \<open>The text bounds its own printing\<close>

text \<open>Every call writes something, a string at least its own characters and the quotes.\<close>

fun call_least :: "wcall \<Rightarrow> nat" where
  "call_least (WString s) = length s + 2"
| "call_least (WKey s) = length s + 2"
| "call_least _ = 1"

lemma call_need_least: "call_need c + 16 \<le> 38 * call_least c"
  by (cases c) simp_all

lemma put_value_least: "k \<le> length s \<Longrightarrow> length (jw_os v) + k \<le> length (jw_os (put_value s v))"
  by (auto simp: put_value_def jw_put_def jw_Prefix_def split: list.split level.split)

lemma show_least: "1 \<le> length (show_nat n)" "1 \<le> length (show_int i)"
proof -
  show n: "1 \<le> length (show_nat n)" for n by (subst show_nat.simps) simp
  show "1 \<le> length (show_int i)" using n by (simp add: show_int_def)
qed

lemma call_written: "length (jw_os v) + call_least c \<le> length (jw_os (jw_call c v))"
proof -
  have "length (jw_os v) \<le> length (jw_os (jw_Prefix v))"
    by (auto simp: jw_Prefix_def jw_put_def split: list.split level.split)
  then show ?thesis
    using put_value_least [OF length_WriteString_ge] put_value_least [OF show_least(1)] put_value_least [OF show_least(2)]
      put_value_least [of 1]
    by (cases c) (auto simp: scalar_puts jw_StartObject_def jw_StartArray_def jw_EndObject_def jw_EndArray_def
        jw_push_def jw_pop_def jw_put_def)
qed

lemma calls_written: "length (jw_os v) + sum_list (map call_least cs) \<le> length (jw_os (fold jw_call cs v))"
proof (induction cs arbitrary: v)
  case (Cons c cs)
  from Cons.IH [of "jw_call c v"] call_written [of v c] show ?case by simp
qed simp

lemma calls_of_text:
  assumes "length (jw_os (fold jw_call cs jw_init)) < 715827883"
  shows "list_all short_call cs" "writer_need cs \<le> 38 * length (jw_os (fold jw_call cs jw_init)) + 1"
proof -
  have w: "sum_list (map call_least cs) \<le> length (jw_os (fold jw_call cs jw_init))"
    using calls_written [of jw_init cs] by (simp add: jw_init_def)
  have "short_call c" if "c \<in> set cs" for c
  proof -
    have "call_least c \<le> sum_list (map call_least cs)" using that by (intro member_le_sum_list) simp_all
    then show ?thesis using w assms by (cases c) simp_all
  qed
  then show "list_all short_call cs" by (simp add: list_all_iff)
  have "sum_list (map call_need cs) + 16 * length cs \<le> 38 * sum_list (map call_least cs)"
  proof (induction cs)
    case (Cons c cs)
    then show ?case using call_need_least [of c] by simp
  qed simp
  then show "writer_need cs \<le> 38 * length (jw_os (fold jw_call cs jw_init)) + 1"
    using w by (simp add: writer_need_def)
qed

lemma printed_in_memory:
  assumes "t = jw_GetString (fold jw_call cs jw_init)" "well_nested 0 cs" "length t < 715827883"
    and "grants_to g (38 * length t + 1)"
  shows "\<exists>w os. mw_run g cs mw_init = Some w \<and> sb_GetString g (mw_os w) = Some (t, os)"
proof -
  have "NUL \<notin> set (jw_os (fold jw_call cs jw_init))" by (rule jw_calls_no_nul) (simp add: jw_init_def)
  then have t: "t = jw_os (fold jw_call cs jw_init)" using assms(1) by (simp add: jw_GetString_def)
  show ?thesis
    using mw_run_text_init [of cs _ g] calls_of_text [of cs] assms(2-4) unfolding t by blast
qed

text \<open>
  C19. When a bag prints, it prints in memory: the writer calls the printer makes for it, run on a
  fresh writer whose allocator still gives 76 times the length of the text and 514 bytes, stay inside
  the blocks, and the string read back from the buffer is the text \<open>propertyBagToJson\<close> returns. The
  only condition is on the text itself: shorter than 715827883 characters.
\<close>

theorem bag_printed_in_memory:
  assumes "propertyBagToJson R b = Ok t" and "length t < 715827883" and "grants_to g (38 * length t + 1)"
  shows "\<exists>cs w os. bag_calls R b = Ok cs \<and> mw_run g cs mw_init = Some w \<and>
    sb_GetString g (mw_os w) = Some (t, os)"
proof -
  obtain cs where cs: "bag_calls R b = Ok cs" "t = jw_GetString (fold jw_call cs jw_init)"
    using assms(1) by (auto simp: propertyBagToJson_def fold_calls(1) omap_Ok_iff)
  moreover have "well_nested 0 cs" using calls_nested(1) [OF cs(1), of 0 "[]"] by simp
  ultimately show ?thesis using printed_in_memory [OF cs(2) _ assms(2,3)] by simp
qed

theorem bag_printed_in_memory_witness:
  "\<exists>cs w os. bag_calls server_registry (ArrayBag [] [PropBag [] \<lparr>p_id = InvalidPropId, p_value = AInt 7, p_info = None\<rparr>]) = Ok cs \<and>
    mw_run (\<lambda>k. k \<le> 1000) cs mw_init = Some w \<and> sb_GetString (\<lambda>k. k \<le> 1000) (mw_os w) = Some (''[7]'', os)"
proof (rule bag_printed_in_memory)
  have seven: "char_of (55 :: nat) = CHR ''7''" by code_simp
  show "propertyBagToJson server_registry (ArrayBag [] [PropBag [] \<lparr>p_id = InvalidPropId, p_value = AInt 7, p_info = None\<rparr>]) = Ok ''[7]''"
    by (simp add: propertyBagToJson_def propertyToJson_def effective_type_def write_name_def scalar_puts
        jw_StartArray_def jw_EndArray_def jw_push_def jw_pop_def jw_GetString_def has_value_def any_cast_int_def put_value_def jw_put_def jw_Prefix_def jw_init_def show_int_def show_nat_small
        digit_char_def seven cstr_def)
qed (simp_all add: grants_to_def)

section \<open>Requests and failures\<close>

definition simple_calls :: "i32 \<Rightarrow> string \<Rightarrow> wcall list" where
  "simple_calls rid command =
     [WStartObject, WKey (pi_idstr Request_Id), WInt rid, WKey (pi_idstr Request_Command), WString (cstr command),
      WEndObject]"

definition fail_calls :: "i32 \<Rightarrow> string \<Rightarrow> wcall list" where
  "fail_calls rid reason =
     [WStartObject, WKey (pi_idstr Request_Id), WInt rid, WKey (pi_idstr Response_Status), WString Fail,
      WKey (pi_idstr Response_Reason), WString (cstr reason), WEndObject]"

lemma messages_in_memory:
  "length (simple rid command) < 715827883 \<Longrightarrow> grants_to g (38 * length (simple rid command) + 1) \<Longrightarrow>
    \<exists>w os. mw_run g (simple_calls rid command) mw_init = Some w \<and>
      sb_GetString g (mw_os w) = Some (simple rid command, os)"
  "length (fail rid reason) < 715827883 \<Longrightarrow> grants_to g (38 * length (fail rid reason) + 1) \<Longrightarrow>
    \<exists>w os. mw_run g (fail_calls rid reason) mw_init = Some w \<and>
      sb_GetString g (mw_os w) = Some (fail rid reason, os)"
  by (rule printed_in_memory; simp add: simple_def fail_def simple_calls_def fail_calls_def call_depth_def)+

end
