(* ===== verification/Kes_Connection.thy ===== *)
theory Kes_Connection
  imports Kes_TcpServer Kes_System
begin

text \<open>
  One connection among others: what the server sends to a client, whatever the other clients do
  between the pieces of its request. \<open>chunks_of\<close> are the pieces one connection receives in a run of
  the server of \<open>Kes_TcpServer\<close>, which carries the sessions of \<open>Kes_Session\<close> and the processor of
  \<open>Kes_Server\<close>.
\<close>

section \<open>The pieces of one connection\<close>

fun chunks_of :: "nat \<Rightarrow> (step_env \<times> event) list \<Rightarrow> string list" where
  "chunks_of k [] = []"
| "chunks_of k ((env, ERead i (Inr d)) # es) = (if i = k then d # chunks_of k es else chunks_of k es)"
| "chunks_of k (_ # es) = chunks_of k es"

definition reads_fail :: "nat \<Rightarrow> (step_env \<times> event) list \<Rightarrow> bool" where
  "reads_fail k es \<longleftrightarrow> (\<exists>env ec. (env, ERead k (Inl ec)) \<in> set es)"

lemma reads_fail_Cons [simp]: "reads_fail k ((env, e) # es) \<longleftrightarrow> (\<exists>ec. e = ERead k (Inl ec)) \<or> reads_fail k es"
  by (auto simp: reads_fail_def)

text \<open>An event of a run that does not fail is a piece of this connection or leaves the connection alone.\<close>

lemma chunk_cases:
  assumes "\<not> reads_fail k ((env, e) # es)"
  obtains (mine) d where "e = ERead k (Inr d)" "chunks_of k ((env, e) # es) = d # chunks_of k es"
    | (other) "\<forall>r. e \<noteq> ERead k r" "chunks_of k ((env, e) # es) = chunks_of k es"
proof (cases "\<exists>r. e = ERead k r")
  case True
  then obtain r where "e = ERead k r" by blast
  then show thesis using assms mine by (cases r) auto
next
  case False
  have "chunks_of k ((env, e) # es) = chunks_of k es"
  proof (cases e)
    case (ERead i r)
    then show ?thesis using False by (cases r) auto
  qed auto
  then show thesis using False other by blast
qed

lemma keys_found: "map_of (tv_sessions T) k = Some c \<Longrightarrow> k \<in> set (keys T)"
  by (metis map_of_eq_None_iff option.distinct(1) set_map)

text \<open>A piece that arrives is given to the session, and the answer of the session is sent.\<close>

lemma piece_served:
  assumes T: "ts_inv T" and s: "smooth RP env (ERead k (Inr d)) (T, w)"
    and c: "map_of (tv_sessions T) k = Some c" "cn_handler c = Some s"
    and p: "session_process RP d s w = (Ok (Continue, resp), s', w')" "session_inv s'"
  shows "\<exists>T'. ts_event RP env (ERead k (Inr d)) (T, w) = (Ok (), T', w') \<and> ts_inv T' \<and>
    map_of (tv_sessions T') k = Some (c\<lparr>cn_handler := Some s', cn_sent := cn_sent c @ resp\<rparr>)"
proof -
  have k: "k \<in> set (keys T)" by (rule keys_found [OF c(1)])
  then obtain b where b: "find (belongs (ERead k (Inr d))) (tv_pending T) = Some (OpRead k b)" "OpRead k b \<in> set (tv_pending T)"
    using reading_session [of k T "Inr d"] T by (auto simp: ts_inv_def)
  have "length d \<le> tv_inBufferSize T" "sv_sent_at_once env" using s by (simp_all add: smooth_def)
  from read_answered [OF T b(2) this(1) c p this(2)] show ?thesis
    using set_conn_find [OF k] by (auto simp: event_pending [OF b(1)] ts_handle_def)
qed

text \<open>An event of another connection, or of the server, leaves this one as it is.\<close>

lemma others_served:
  assumes "ts_inv T" and "smooth RP env e (T, w)" and "map_of (tv_sessions T) k = Some c" and "\<forall>r. e \<noteq> ERead k r"
  obtains T' w' where "ts_event RP env e (T, w) = (Ok (), T', w')" "ts_inv T'" "map_of (tv_sessions T') k = Some c"
  using event_keeps [OF assms(1,2)] keys_found [OF assms(3)] assms(3,4) by force

text \<open>Nothing arrives: nothing is sent.\<close>

lemma nothing_served:
  assumes "ts_inv T" and "smooth_run RP es (T, w)" and "\<not> reads_fail k es" and "chunks_of k es = []"
    and "map_of (tv_sessions T) k = Some c"
  shows "\<exists>T' w'. ts_run RP es (T, w) = (Ok (), T', w') \<and> map_of (tv_sessions T') k = Some c"
  using assms
proof (induction es arbitrary: T w)
  case (Cons x es)
  obtain env e where x: "x = (env, e)" by (cases x)
  have nf: "\<not> reads_fail k ((env, e) # es)" using Cons.prems(3) x by simp
  have o: "\<forall>r. e \<noteq> ERead k r" "chunks_of k es = []"
    using Cons.prems(4) by (cases rule: chunk_cases [OF nf], simp_all add: x)+
  have sm: "smooth RP env e (T, w)" "smooth_run RP es (snd (ts_event RP env e (T, w)))" "\<not> reads_fail k es"
    using Cons.prems(2,3) x by simp_all
  obtain T1 w1 where t: "ts_event RP env e (T, w) = (Ok (), T1, w1)" "ts_inv T1" "map_of (tv_sessions T1) k = Some c"
    by (rule others_served [OF Cons.prems(1) sm(1) Cons.prems(5) o(1)])
  have "smooth_run RP es (T1, w1)" using sm(2) t(1) by simp
  from Cons.IH [OF t(2) this sm(3) o(2) t(3)] show ?case using t(1) x by simp
qed simp

section \<open>A message among other traffic\<close>

text \<open>
  \<open>answered\<close>: the run goes through, somewhere in it the request processor answers the message, and the
  connection has been sent that answer and nothing else at its end.
\<close>

definition answered ::
    "'z world_scheme request_processor \<Rightarrow> nat \<Rightarrow> 32 word \<Rightarrow> string \<Rightarrow> string \<Rightarrow> (step_env \<times> event) list \<Rightarrow>
     tcp_server \<times> 'z world_scheme \<Rightarrow> bool" where
  "answered RP k sid m sent es S \<longleftrightarrow>
     (\<exists>es1 es2 T1 v v' response T' w' c'. es = es1 @ es2 \<and> ts_run RP es1 S = (Ok (), T1, v') \<and>
        rpi_process RP sid (cstr m) v = (Ok response, v') \<and>
        ts_run RP es S = (Ok (), T', w') \<and> map_of (tv_sessions T') k = Some c' \<and> cn_sent c' = sent @ response)"

lemma answered_later:
  assumes "ts_event RP env e S = (Ok (), S')" and "answered RP k sid m sent es S'"
  shows "answered RP k sid m sent ((env, e) # es) S"
proof -
  obtain es1 es2 T1 v v' response T' w' c' where a: "es = es1 @ es2" "ts_run RP es1 S' = (Ok (), T1, v')"
      "rpi_process RP sid (cstr m) v = (Ok response, v')" "ts_run RP es S' = (Ok (), T', w')"
      "map_of (tv_sessions T') k = Some c'" "cn_sent c' = sent @ response"
    using assms(2) unfolding answered_def by blast
  have "(env, e) # es = ((env, e) # es1) @ es2" using a(1) by simp
  moreover have "ts_run RP ((env, e) # es1) S = (Ok (), T1, v')" "ts_run RP ((env, e) # es) S = (Ok (), T', w')"
    using a(2,4) assms(1) by simp_all
  ultimately show ?thesis using a(3,5,6) unfolding answered_def by blast
qed

lemma answered_now:
  assumes "ts_event RP env e S = (Ok (), T1, v')" and "rpi_process RP sid (cstr m) v = (Ok response, v')"
    and "ts_run RP es (T1, v') = (Ok (), T', w')" and "map_of (tv_sessions T') k = Some c'" and "cn_sent c' = sent @ response"
  shows "answered RP k sid m sent ((env, e) # es) S"
proof -
  have "(env, e) # es = [(env, e)] @ es" by simp
  moreover have "ts_run RP [(env, e)] S = (Ok (), T1, v')" "ts_run RP ((env, e) # es) S = (Ok (), T', w')"
    using assms(1,3) by simp_all
  ultimately show ?thesis using assms(2,4,5) unfolding answered_def by blast
qed

text \<open>One piece: what the session does with it, and that its connection goes on with the new session.\<close>

lemma piece_step:
  assumes T: "ts_inv T" and sm: "smooth RP env (ERead k (Inr d)) (T, w)"
    and c: "map_of (tv_sessions T) k = Some c" "cn_handler c = Some s" and d: "length d < sh_room s"
  obtains resp s' w' T' where "session_process RP d s w = (Ok (Continue, resp), s', w')"
    "session_refines s (session_process RP d s w) (session_spec RP (sh_id s) (sh_room s) (sh_bytes s) d w)"
    "ts_event RP env (ERead k (Inr d)) (T, w) = (Ok (), T', w')" "ts_inv T'"
    "map_of (tv_sessions T') k = Some (c\<lparr>cn_handler := Some s', cn_sent := cn_sent c @ resp\<rparr>)"
proof -
  have "conn_ok (k, c)" using T map_of_SomeD [OF c(1)] by (simp add: ts_inv_def)
  then have s: "session_inv s" using c(2) by (auto simp: conn_ok_def)
  then have dl: "length d < 2 ^ 63" using d by (simp add: session_inv_def cb_inv_def)
  obtain resp s' w' where p: "session_process RP d s w = (Ok (Continue, resp), s', w')" "session_inv s'"
    using goes_onD [OF _ s dl, of RP w] sm c by (auto simp: smooth_def)
  obtain T' where "ts_event RP env (ERead k (Inr d)) (T, w) = (Ok (), T', w')" "ts_inv T'"
    "map_of (tv_sessions T') k = Some (c\<lparr>cn_handler := Some s', cn_sent := cn_sent c @ resp\<rparr>)"
    using piece_served [OF T sm c p] by blast
  then show thesis using that [OF p(1) step_refines [OF s dl]] by blast
qed

lemma among_others:
  assumes "ts_inv T" and "smooth_run RP es (T, w)" and "\<not> reads_fail k es"
    and "map_of (tv_sessions T) k = Some c" "cn_handler c = Some s"
    and "message (sh_bytes s @ concat (chunks_of k es))" "[] \<notin> set (chunks_of k es)" "chunks_of k es \<noteq> []"
    and "length (sh_bytes s @ concat (chunks_of k es)) < sh_room s"
  shows "answered RP k (sh_id s) (sh_bytes s @ concat (chunks_of k es)) (cn_sent c) es (T, w)"
  using assms
proof (induction es arbitrary: T w c s)
  case (Cons x es)
  obtain env e where x: "x = (env, e)" by (cases x)
  have sm: "smooth RP env e (T, w)" "smooth_run RP es (snd (ts_event RP env e (T, w)))" "\<not> reads_fail k es"
    and nf: "\<not> reads_fail k ((env, e) # es)" using Cons.prems(2,3) x by simp_all
  from nf show ?case
  proof (cases rule: chunk_cases)
    case other
    obtain T1 w1 where t: "ts_event RP env e (T, w) = (Ok (), T1, w1)" "ts_inv T1" "map_of (tv_sessions T1) k = Some c"
      by (rule others_served [OF Cons.prems(1) sm(1) Cons.prems(4) other(1)])
    have "smooth_run RP es (T1, w1)" using sm(2) t(1) by simp
    from Cons.IH [OF t(2) this sm(3) t(3) Cons.prems(5)] show ?thesis
      using Cons.prems(6-9) answered_later [OF t(1)] unfolding x other(2) by blast
  next
    case (mine d)
    note m = Cons.prems(6) [unfolded x mine(2)] and ne = Cons.prems(7) [unfolded x mine(2)]
      and len = Cons.prems(9) [unfolded x mine(2)]
    have dl: "length d < sh_room s" using len by simp
    obtain resp s' w1 T1 where p: "session_process RP d s w = (Ok (Continue, resp), s', w1)"
        "session_refines s (session_process RP d s w) (session_spec RP (sh_id s) (sh_room s) (sh_bytes s) d w)"
      and t: "ts_event RP env e (T, w) = (Ok (), T1, w1)" "ts_inv T1"
        "map_of (tv_sessions T1) k = Some (c\<lparr>cn_handler := Some s', cn_sent := cn_sent c @ resp\<rparr>)"
      using piece_step [OF Cons.prems(1) sm(1) [unfolded mine(1)] Cons.prems(4,5) dl] unfolding mine(1) by blast
    have sm2: "smooth_run RP es (T1, w1)" using sm(2) t(1) by simp
    show ?thesis
    proof (cases "chunks_of k es = []")
      case True
      have "verdict (sh_room s) (sh_bytes s) d = Deliver (cstr (sh_bytes s @ d))"
        using m len ne True by (auto simp: verdict_def message_def complete_def)
      then have r: "rpi_process RP (sh_id s) (cstr (sh_bytes s @ d)) w = (Ok resp, w1)"
        using p by (auto simp: session_refines_def session_spec_def split: prod.splits outcome.splits)
      obtain T' w' where "ts_run RP es (T1, w1) = (Ok (), T', w')"
          "map_of (tv_sessions T') k = Some (c\<lparr>cn_handler := Some s', cn_sent := cn_sent c @ resp\<rparr>)"
        using nothing_served [OF t(2) sm2 sm(3) True t(3)] by blast
      from answered_now [OF t(1) r this] show ?thesis using mine True unfolding x by simp
    next
      case False
      then have rest: "concat (chunks_of k es) \<noteq> []" using ne by (cases "chunks_of k es") auto
      have "verdict (sh_room s) (sh_bytes s) d = Wait"
        by (rule verdict_split_message [of _ _ "concat (chunks_of k es)"]) (use m rest len in simp_all)
      then have w: "resp = []" "w1 = w" "sh_bytes s' = sh_bytes s @ d" "sh_room s' = sh_room s" "sh_id s' = sh_id s"
        using p by (auto simp: session_refines_def session_spec_def)
      have "answered RP k (sh_id s) (sh_bytes s' @ concat (chunks_of k es)) (cn_sent c) es (T1, w1)"
        using Cons.IH [OF t(2) sm2 sm(3) t(3), of s'] False m ne len w by simp
      from answered_later [OF t(1) this] show ?thesis using w(3) unfolding x mine(2) by simp
    qed
  qed
qed simp




section \<open>A concrete connection\<close>

lemma accepted_connection:
  assumes n: "n < 2 ^ 63" and o: "sho_bufferSize opts < 2 ^ 63" "sho_bufferLimit opts < 2 ^ 63"
  obtains T v c s where "ts_run RP [(env, EAccepted (Inr peer))] (TcpServer opts n w) = (Ok (), T, v)" "ts_inv T"
    "map_of (tv_sessions T) 0 = Some c" "cn_handler c = Some s" "cn_sent c = []" "session_inv s" "sh_bytes s = []"
    "sh_room s = max (sho_bufferSize opts) (sho_bufferLimit opts)" "tv_inBufferSize T = n"
proof -
  obtain T0 v0 where i: "TcpServer opts n w = (T0, v0)" by (cases "TcpServer opts n w")
  let ?T = "T0\<lparr>tv_pending := remove1 OpAccept (tv_pending T0)\<rparr>"
  have inv: "ts_inv T0" using server_init_inv [OF n o, of w] i by simp
  have f: "tv_nextKey T0 = 0" "tv_sessions T0 = []" "tv_pending T0 = [OpAccept]" "tv_options T0 = opts"
    "tv_inBufferSize T0 = n" "\<not> tv_stop T0"
    using i by (auto simp: TcpServer_def ts_step_defs)
  obtain s where s: "SessionHandler RP opts peer (tv_nextId T0) = (\<lambda>v. (s, rpi_startSession RP (tv_nextId T0) v))"
    by (simp add: SessionHandler_def fun_eq_iff)
  have h: "session_inv s" "sh_bytes s = []" "sh_room s = max (sho_bufferSize opts) (sho_bufferLimit opts)"
    using session_init_inv [OF o, of RP peer "tv_nextId T0"] fun_cong [OF s]
    by (auto simp: SessionHandler_def ContinuousBuffer_def cb_room_def)
  obtain T v where a: "ts_onAccept RP (Inr (Inr peer)) (?T, v0) = (Ok (), T, v)" "ts_inv T"
    using accepted_ok [OF inv, of RP peer v0] f(1) by auto
  have e: "ts_run RP [(env, EAccepted (Inr peer))] (TcpServer opts n w) = (Ok (), T, v)"
    using a(1) f(3) by (simp add: i ts_event_def ts_handle_def)
  have "map_of (tv_sessions T) 0 = Some \<lparr>cn_id = tv_nextId T0, cn_handler = Some s, cn_open = True, cn_sent = []\<rparr>"
    "tv_inBufferSize T = n"
    using accepted_state [of ?T RP peer s "rpi_startSession RP (tv_nextId T0)" v0] f s a(1) by auto
  then show thesis using that [OF e a(2)] h by simp
qed

lemma whole_goes_on:
  "session_run RP [d] s w = ([Ok (Continue, r)], s', w') \<Longrightarrow> goes_on (session_process RP d s w)"
  by (auto simp: goes_on_def split: prod.splits outcome.splits)


end
