(* ===== verification/Kes_Pool.thy ===== *)
theory Kes_Pool
  imports Kes_JsonBuffer
begin

text \<open>
  The memory of a JSON document: \<^verbatim>\<open>MemoryPoolAllocator\<close> of \<^verbatim>\<open>allocators.h\<close>, which cuts blocks from
  chunks and gives the chunks back as a whole. An address is a chunk and an offset in it. The theorem
  says that the blocks in use lie in their chunks, are aligned and disjoint, and that the
  destructor frees every chunk once.
\<close>

section \<open>Chunks\<close>

text \<open>
  A pointer: null, or an offset behind the header of the chunk that lies in the block of this number.
  The blocks \<^verbatim>\<open>malloc\<close> gives are numbered in order; which sizes it still gives is the argument \<open>grants\<close>.
\<close>

datatype ptr = Null | At nat nat

record chunk =
  ck_block :: nat
  ck_capacity :: nat
  ck_size :: nat

text \<open>The linked list of chunks from \<^verbatim>\<open>chunkHead\<close> on; the last one is the header in the shared data.\<close>

record pool =
  pl_chunks :: "chunk list"
  pl_chunk_capacity :: nat
  pl_blocks :: nat

definition pool_init :: "nat \<Rightarrow> pool" where
  "pool_init chunkSize =
     \<lparr>pl_chunks = [\<lparr>ck_block = 0, ck_capacity = 0, ck_size = 0\<rparr>], pl_chunk_capacity = chunkSize, pl_blocks = 1\<rparr>"

text \<open>\<^verbatim>\<open>RAPIDJSON_ALIGN\<close>: the addition wraps, the three low bits are cleared.\<close>

definition align8 :: "nat \<Rightarrow> nat" where
  "align8 n = sz_add n 7 div 8 * 8"

definition AddChunk :: "(nat \<Rightarrow> bool) \<Rightarrow> nat \<Rightarrow> pool \<Rightarrow> bool \<times> pool" where
  "AddChunk grants capacity p =
     (if grants (sz_add 24 capacity)
      then (True, p\<lparr>pl_chunks := \<lparr>ck_block = pl_blocks p, ck_capacity = capacity, ck_size = 0\<rparr> # pl_chunks p,
                    pl_blocks := Suc (pl_blocks p)\<rparr>)
      else (False, p))"

text \<open>The end of \<^verbatim>\<open>Malloc\<close>: the rest of the head chunk begins \<open>n\<close> bytes later.\<close>

definition pool_advance :: "nat \<Rightarrow> pool \<Rightarrow> pool" where
  "pool_advance n p =
     (let c = hd (pl_chunks p) in p\<lparr>pl_chunks := c\<lparr>ck_size := sz_add (ck_size c) n\<rparr> # tl (pl_chunks p)\<rparr>)"

definition pool_take :: "nat \<Rightarrow> pool \<Rightarrow> ptr \<times> pool" where
  "pool_take n p = (let c = hd (pl_chunks p) in (At (ck_block c) (ck_size c), pool_advance n p))"

definition Malloc :: "(nat \<Rightarrow> bool) \<Rightarrow> nat \<Rightarrow> pool \<Rightarrow> ptr \<times> pool" where
  "Malloc grants bytes p =
     (if bytes = 0 then (Null, p)
      else let n = align8 bytes; c = hd (pl_chunks p) in
        if sz_add (ck_size c) n > ck_capacity c
        then (case AddChunk grants (if pl_chunk_capacity p > n then pl_chunk_capacity p else n) p of
                (True, p) \<Rightarrow> pool_take n p
              | (False, p) \<Rightarrow> (Null, p))
        else pool_take n p)"

text \<open>
  The contents of the chunks, at the offsets at which objects begin; \<^verbatim>\<open>memcpy\<close> between two of them.
\<close>

type_synonym 'a cmem = "nat \<times> nat \<Rightarrow> 'a option"

fun mem_copy :: "ptr \<Rightarrow> ptr \<Rightarrow> nat \<Rightarrow> 'a cmem \<Rightarrow> 'a cmem" where
  "mem_copy (At b x) (At c y) n m = (\<lambda>(k, z). if k = b \<and> x \<le> z \<and> z < x + n then m (c, z - x + y) else m (k, z))"
| "mem_copy _ _ n m = m"

definition is_last :: "ptr \<Rightarrow> nat \<Rightarrow> pool \<Rightarrow> bool" where
  "is_last q n p \<longleftrightarrow> (let c = hd (pl_chunks p) in n \<le> ck_size c \<and> q = At (ck_block c) (ck_size c - n))"

definition Realloc :: "(nat \<Rightarrow> bool) \<Rightarrow> ptr \<Rightarrow> nat \<Rightarrow> nat \<Rightarrow> pool \<Rightarrow> 'a cmem \<Rightarrow> ptr \<times> pool \<times> 'a cmem" where
  "Realloc grants q originalSize newSize p m =
     (if q = Null then (case Malloc grants newSize p of (r, p) \<Rightarrow> (r, p, m))
      else if newSize = 0 then (Null, p, m)
      else let old = align8 originalSize; new = align8 newSize; c = hd (pl_chunks p) in
        if old \<ge> new then (q, p, m)
        else if is_last q old p \<and> sz_add (ck_size c) (new - old) \<le> ck_capacity c
        then (q, pool_advance (new - old) p, m)
        else (case Malloc grants new p of
                (Null, p) \<Rightarrow> (Null, p, m)
              | (r, p) \<Rightarrow> (r, p, if old \<noteq> 0 then mem_copy r q old m else m)))"

text \<open>\<^verbatim>\<open>Clear\<close> frees every chunk but the last one and resets that; the freed blocks are the other result.\<close>

fun Clear_chunks :: "chunk list \<Rightarrow> nat list \<times> chunk list" where
  "Clear_chunks (c # d # cs) = (case Clear_chunks (d # cs) of (freed, cs) \<Rightarrow> (ck_block c # freed, cs))"
| "Clear_chunks [c] = ([], [c\<lparr>ck_size := 0\<rparr>])"
| "Clear_chunks [] = ([], [])"

definition pool_Clear :: "pool \<Rightarrow> nat list \<times> pool" where
  "pool_Clear p = (case Clear_chunks (pl_chunks p) of (freed, cs) \<Rightarrow> (freed, p\<lparr>pl_chunks := cs\<rparr>))"

text \<open>The destructor of the only reference: the shared data, the block 0, goes last.\<close>

definition pool_destroy :: "pool \<Rightarrow> nat list" where
  "pool_destroy p = (case pool_Clear p of (freed, _) \<Rightarrow> freed @ [0])"

definition pool_Capacity :: "pool \<Rightarrow> nat" where
  "pool_Capacity p = foldl (\<lambda>n c. sz_add n (ck_capacity c)) 0 (pl_chunks p)"

definition pool_Size :: "pool \<Rightarrow> nat" where
  "pool_Size p = foldl (\<lambda>n c. sz_add n (ck_size c)) 0 (pl_chunks p)"

section \<open>What a pool keeps\<close>

text \<open>
  Sizes up to \<open>2 ^ 61\<close> keep every sum below the wrap-around. \<open>used\<close> are the bytes given out, \<open>extent\<close>
  those of the chunks, \<open>region\<close> those of a block.
\<close>

definition max_block :: nat where
  "max_block = 2 ^ 61"

definition pool_inv :: "pool \<Rightarrow> bool" where
  "pool_inv p \<longleftrightarrow>
     map ck_block (pl_chunks p) = rev [0..<pl_blocks p] \<and> 0 < pl_blocks p \<and> pl_chunk_capacity p \<le> max_block \<and>
     (\<forall>c \<in> set (pl_chunks p). ck_size c \<le> ck_capacity c \<and> ck_capacity c \<le> 2 * max_block \<and> 8 dvd ck_size c)"

definition used :: "pool \<Rightarrow> (nat \<times> nat) set" where
  "used p = (\<Union>c \<in> set (pl_chunks p). {ck_block c} \<times> {..<ck_size c})"

definition extent :: "pool \<Rightarrow> (nat \<times> nat) set" where
  "extent p = (\<Union>c \<in> set (pl_chunks p). {ck_block c} \<times> {..<ck_capacity c})"

fun region :: "ptr \<Rightarrow> nat \<Rightarrow> (nat \<times> nat) set" where
  "region (At b x) n = {b} \<times> {x..<x + align8 n}"
| "region Null n = {}"

fun aligned :: "ptr \<Rightarrow> bool" where
  "aligned (At b x) = (8 dvd x)"
| "aligned Null = True"

lemma align8_bounds:
  assumes "n \<le> max_block"
  shows "n \<le> align8 n" "align8 n < n + 8" "8 dvd align8 n" "align8 n \<le> max_block" "align8 (align8 n) = align8 n"
    "align8 n = 0 \<longleftrightarrow> n = 0"
proof -
  have "n + 7 < 2 ^ 64" using assms by (simp add: max_block_def)
  then have a: "align8 n = (n + 7) div 8 * 8" by (simp add: align8_def sz_add_def)
  show b: "n \<le> align8 n" "align8 n < n + 8" "8 dvd align8 n" unfolding a by presburger+
  have "n \<le> 2 ^ 58 * 8" using assms by (simp add: max_block_def)
  then have "(n + 7) div 8 \<le> 2 ^ 58" by linarith
  then show c: "align8 n \<le> max_block" by (simp add: a max_block_def)
  have "align8 n + 7 < 2 ^ 64" using c by (simp add: max_block_def)
  then have "align8 (align8 n) = (align8 n + 7) div 8 * 8" by (simp add: align8_def [of "align8 n"] sz_add_def)
  then show "align8 (align8 n) = align8 n" using b(3) by presburger
  show "align8 n = 0 \<longleftrightarrow> n = 0" unfolding a by presburger
qed

lemma pool_init_inv: "n \<le> max_block \<Longrightarrow> pool_inv (pool_init n)"
  by (simp add: pool_inv_def pool_init_def max_block_def)

lemma used_extent: "pool_inv p \<Longrightarrow> used p \<subseteq> extent p"
  unfolding pool_inv_def used_def extent_def by fastforce

text \<open>The head chunk and the others.\<close>

lemma pool_head:
  assumes "pool_inv p"
  obtains c cs where "pl_chunks p = c # cs" "Suc (ck_block c) = pl_blocks p" "ck_size c \<le> ck_capacity c"
    "ck_capacity c \<le> 2 * max_block" "8 dvd ck_size c" "\<forall>d \<in> set cs. ck_block d < ck_block c"
proof -
  from assms have m: "map ck_block (pl_chunks p) = rev [0..<pl_blocks p]" "0 < pl_blocks p"
    by (simp_all add: pool_inv_def)
  then have "rev [0..<pl_blocks p] = (pl_blocks p - 1) # rev [0..<pl_blocks p - 1]"
    by (cases "pl_blocks p") simp_all
  then obtain c cs where c: "pl_chunks p = c # cs" "ck_block c = pl_blocks p - 1" "map ck_block cs = rev [0..<pl_blocks p - 1]"
    using m(1) by (cases "pl_chunks p") auto
  have "set (map ck_block cs) = {0..<pl_blocks p - 1}" unfolding c(3) by simp
  then have "\<forall>d \<in> set cs. ck_block d < ck_block c" using c(2) by auto
  then show thesis using that [OF c(1)] c m(2) assms by (simp add: pool_inv_def)
qed

lemma advance_correct:
  assumes "pool_inv p" and "pl_chunks p = c # cs" and "ck_size c + n \<le> ck_capacity c" and "8 dvd n"
  shows "pool_inv (pool_advance n p)"
    "used (pool_advance n p) = used p \<union> {ck_block c} \<times> {ck_size c..<ck_size c + n}"
    "extent (pool_advance n p) = extent p"
    "used p \<inter> {ck_block c} \<times> {ck_size c..<ck_size c + n} = {}"
    "{ck_block c} \<times> {ck_size c..<ck_size c + n} \<subseteq> extent p"
    "pl_chunks (pool_advance n p) = c\<lparr>ck_size := ck_size c + n\<rparr> # cs"
    "pl_chunk_capacity (pool_advance n p) = pl_chunk_capacity p"
proof -
  obtain "ck_capacity c \<le> 2 * max_block" "\<forall>d \<in> set cs. ck_block d < ck_block c"
    using pool_head [OF assms(1)] assms(2) by auto
  then have a: "sz_add (ck_size c) n = ck_size c + n" "\<forall>d \<in> set cs. ck_block d < ck_block c"
    using assms(3) by (auto simp: sz_add_def max_block_def)
  show b: "pl_chunks (pool_advance n p) = c\<lparr>ck_size := ck_size c + n\<rparr> # cs"
    by (simp add: pool_advance_def assms(2) a(1))
  show "pl_chunk_capacity (pool_advance n p) = pl_chunk_capacity p" by (simp add: pool_advance_def Let_def)
  show "pool_inv (pool_advance n p)"
    using assms b by (auto simp: pool_inv_def pool_advance_def)
  show "used (pool_advance n p) = used p \<union> {ck_block c} \<times> {ck_size c..<ck_size c + n}"
    unfolding used_def b assms(2) by auto
  show "extent (pool_advance n p) = extent p" unfolding extent_def b assms(2) by simp
  show "used p \<inter> {ck_block c} \<times> {ck_size c..<ck_size c + n} = {}"
    using a(2) unfolding used_def assms(2) by auto
  show "{ck_block c} \<times> {ck_size c..<ck_size c + n} \<subseteq> extent p"
    using assms(3) unfolding extent_def assms(2) by auto
qed

lemma AddChunk_correct:
  assumes "pool_inv p" and "AddChunk g k p = (True, q)" and "k \<le> max_block"
  shows "pool_inv q" "used q = used p" "extent p \<subseteq> extent q"
    "pl_chunks q = \<lparr>ck_block = pl_blocks p, ck_capacity = k, ck_size = 0\<rparr> # pl_chunks p"
    "pl_chunk_capacity q = pl_chunk_capacity p"
  using assms by (auto simp: AddChunk_def pool_inv_def used_def extent_def split: if_splits)

text \<open>A block from \<^verbatim>\<open>Malloc\<close> is new, aligned and inside its chunk.\<close>

definition gives :: "pool \<Rightarrow> ptr \<Rightarrow> nat \<Rightarrow> pool \<Rightarrow> bool" where
  "gives p r n q \<longleftrightarrow> pool_inv q \<and> used p \<inter> region r n = {} \<and> used p \<union> region r n \<subseteq> used q \<and>
     extent p \<subseteq> extent q \<and> aligned r \<and> pl_chunk_capacity q = pl_chunk_capacity p"

lemma take_correct:
  assumes "pool_inv p" and "pl_chunks p = c # cs" and "ck_size c + align8 n \<le> ck_capacity c" and "n \<le> max_block"
  shows "\<exists>b x q. pool_take (align8 n) p = (At b x, q) \<and> gives p (At b x) n q"
proof -
  note a = advance_correct [OF assms(1,2,3) align8_bounds(3) [OF assms(4)]]
  have "8 dvd ck_size c" using pool_head [OF assms(1)] assms(2) by auto
  then have "gives p (At (ck_block c) (ck_size c)) n (pool_advance (align8 n) p)"
    using a by (auto simp: gives_def)
  then show ?thesis by (simp add: pool_take_def assms(2))
qed

lemma Malloc_correct:
  assumes "pool_inv p" and "n \<le> max_block"
  shows "case Malloc g n p of (r, q) \<Rightarrow> gives p r n q"
proof (cases "n = 0")
  case True
  then show ?thesis using assms by (simp add: Malloc_def gives_def)
next
  case False
  note al = align8_bounds [OF assms(2)]
  obtain c cs where c: "pl_chunks p = c # cs" "ck_capacity c \<le> 2 * max_block" "ck_size c \<le> ck_capacity c"
    using pool_head [OF assms(1)] by metis
  then have s: "sz_add (ck_size c) (align8 n) = ck_size c + align8 n"
    using al(4) by (simp add: sz_add_def max_block_def)
  let ?k = "if pl_chunk_capacity p > align8 n then pl_chunk_capacity p else align8 n"
  have k: "?k \<le> max_block" "align8 n \<le> ?k" using al(4) assms(1) by (auto simp: pool_inv_def)
  show ?thesis
  proof (cases "ck_size c + align8 n > ck_capacity c")
    case full: True
    obtain ok q where q: "AddChunk g ?k p = (ok, q)" by (cases "AddChunk g ?k p")
    show ?thesis
    proof (cases ok)
      case True
      then have "AddChunk g ?k p = (True, q)" using q by simp
      note a = AddChunk_correct [OF assms(1) this k(1)]
      obtain b x q' where "pool_take (align8 n) q = (At b x, q')" "gives q (At b x) n q'"
        using take_correct [OF a(1,4), of n] k(2) assms(2) by auto
      then show ?thesis using a(2,3,5) full False q s c(1) True
        by (auto simp: Malloc_def gives_def Let_def)
    next
      case no: False
      then have "q = p" using q by (simp add: AddChunk_def split: if_splits)
      then show ?thesis using assms(1) full False q s c(1) no
        by (simp add: Malloc_def Let_def gives_def)
    qed
  next
    case fits: False
    then obtain b x q where "pool_take (align8 n) p = (At b x, q)" "gives p (At b x) n q"
      using take_correct [OF assms(1) c(1), of n] assms(2) by auto
    then show ?thesis using fits False s c(1) by (simp add: Malloc_def Let_def)
  qed
qed

text \<open>It is null only when the allocator below has no chunk of the size to give.\<close>

lemma Malloc_gives:
  assumes "pool_inv p" and "n \<le> max_block" and "0 < n" and "\<And>k. k \<le> 24 + max (pl_chunk_capacity p) (n + 8) \<Longrightarrow> g k"
  shows "\<exists>b x q. Malloc g n p = (At b x, q)"
proof -
  note al = align8_bounds [OF assms(2)]
  let ?k = "if pl_chunk_capacity p > align8 n then pl_chunk_capacity p else align8 n"
  have "pl_chunk_capacity p \<le> max_block" using assms(1) by (simp add: pool_inv_def)
  then have "sz_add 24 ?k = 24 + ?k" using al(4) by (simp add: sz_add_def max_block_def)
  then have "g (sz_add 24 ?k)" using assms(4) al(2) by simp
  then have "fst (AddChunk g ?k p)" by (simp add: AddChunk_def)
  then show ?thesis using assms(3) by (cases "AddChunk g ?k p") (auto simp: Malloc_def pool_take_def Let_def)
qed

lemma align8_mono:
  assumes "k \<le> n" and "n \<le> max_block"
  shows "align8 k \<le> align8 n"
proof -
  have "(k + 7) div 8 \<le> (n + 7) div 8" using assms(1) by (simp add: div_le_mono)
  then show ?thesis using assms by (simp add: align8_def sz_add_def max_block_def)
qed

lemma advance_last:
  assumes "pool_inv p" and "is_last q (align8 k) p" and "sz_add (ck_size (hd (pl_chunks p))) (align8 n - align8 k) \<le> ck_capacity (hd (pl_chunks p))"
    and "align8 k < align8 n" and "n \<le> max_block" and "k \<le> max_block"
  shows "pool_inv (pool_advance (align8 n - align8 k) p)" "used p \<inter> region q n \<subseteq> region q k"
    "used (pool_advance (align8 n - align8 k) p) = used p \<union> region q n"
    "extent (pool_advance (align8 n - align8 k) p) = extent p" "aligned q"
    "pl_chunk_capacity (pool_advance (align8 n - align8 k) p) = pl_chunk_capacity p"
proof -
  let ?d = "align8 n - align8 k"
  obtain c cs where c: "pl_chunks p = c # cs" "ck_capacity c \<le> 2 * max_block" "ck_size c \<le> ck_capacity c"
    "8 dvd ck_size c" using pool_head [OF assms(1)] by metis
  have d: "8 dvd ?d" "?d \<le> max_block" using align8_bounds [OF assms(5)] align8_bounds(3) [OF assms(6)] by auto
  have "sz_add (ck_size c) ?d = ck_size c + ?d" using c(2,3) d(2) by (simp add: sz_add_def max_block_def)
  then have fits: "ck_size c + ?d \<le> ck_capacity c" using assms(3) c(1) by simp
  have q: "align8 k \<le> ck_size c" "q = At (ck_block c) (ck_size c - align8 k)" using assms(2) c(1) by (simp_all add: is_last_def)
  then have r: "region q n = region q k \<union> {ck_block c} \<times> {ck_size c..<ck_size c + ?d}" using assms(4) by auto
  have "region q k \<subseteq> used p" using q c(1) by (auto simp: used_def)
  note a = advance_correct [OF assms(1) c(1) fits d(1)]
  show "pool_inv (pool_advance ?d p)" "extent (pool_advance ?d p) = extent p"
    "pl_chunk_capacity (pool_advance ?d p) = pl_chunk_capacity p" by (rule a)+
  show "used p \<inter> region q n \<subseteq> region q k" using a(4) r by blast
  show "used (pool_advance ?d p) = used p \<union> region q n" using a(2) r \<open>region q k \<subseteq> used p\<close> by blast
  show "aligned q" using q c(4) align8_bounds(3) [OF assms(6)] by simp
qed

lemma region_align8 [simp]: "n \<le> max_block \<Longrightarrow> region q (align8 n) = region q n"
  by (cases q) (simp_all add: align8_bounds)

text \<open>
  \<^verbatim>\<open>Realloc\<close> of a block of \<open>k\<close> bytes: the new block overlaps what is in use only where the old one was,
  begins with the contents of the old one, and nothing else in use is changed.
\<close>

definition moves :: "pool \<Rightarrow> 'a cmem \<Rightarrow> ptr \<Rightarrow> nat \<Rightarrow> pool \<Rightarrow> 'a cmem \<Rightarrow> ptr \<Rightarrow> nat \<Rightarrow> bool" where
  "moves p m q k p' m' r n \<longleftrightarrow>
     pool_inv p' \<and> used p \<union> region r n \<subseteq> used p' \<and> extent p \<subseteq> extent p' \<and> aligned r \<and>
     pl_chunk_capacity p' = pl_chunk_capacity p \<and> used p \<inter> region r n \<subseteq> region q k \<and>
     (\<forall>a \<in> used p. m' a = m a) \<and> (\<forall>a. a \<notin> used p' \<longrightarrow> m' a = m a) \<and>
     (\<forall>b x c y off. q = At b x \<longrightarrow> r = At c y \<longrightarrow> off < k \<longrightarrow> off < n \<longrightarrow> m' (c, y + off) = m (b, x + off))"

lemma gives_moves:
  assumes "gives p r n p'" and "q = Null \<or> r = Null"
  shows "moves p m q k p' m r n"
  using assms by (auto simp: gives_def moves_def)

lemma copy_moves:
  assumes "gives p r n p'" and "region q k \<subseteq> used p" and "k \<le> max_block" and "n \<le> max_block" and "k \<le> n"
    and "align8 k \<noteq> 0 \<longrightarrow> m' = mem_copy r q (align8 k) m" and "align8 k = 0 \<longrightarrow> m' = m"
  shows "moves p m q k p' m' r n"
proof -
  from assms(1) have g: "used p \<inter> region r n = {}" "region r n \<subseteq> used p'" "used p \<subseteq> used p'"
    "pool_inv p'" "extent p \<subseteq> extent p'" "aligned r" "pl_chunk_capacity p' = pl_chunk_capacity p" by (auto simp: gives_def)
  have al: "k \<le> align8 k" "n \<le> align8 n" "align8 n < n + 8" "8 dvd align8 k" "8 dvd align8 n" "align8 k < k + 8"
    using align8_bounds(1-3) [OF assms(3)] align8_bounds(1-3) [OF assms(4)] by simp_all
  have kn: "align8 k \<le> align8 n" by (rule align8_mono [OF assms(5,4)])
  have out: "m' a = m a" if "a \<notin> region r n" for a
  proof (cases "align8 k = 0")
    case True
    then show ?thesis using assms(7) by simp
  next
    case False
    then have "m' = mem_copy r q (align8 k) m" using assms(6) by simp
    then show ?thesis using that kn by (cases r; cases q) (auto split: prod.split)
  qed
  have "m' (c, y + off) = m (b, x + off)" if q: "q = At b x" and r: "r = At c y" and off: "off < k" for b x c y off
    using off al(1) assms(6) by (simp add: q r add.commute)
  then show ?thesis using g out unfolding moves_def by blast
qed

lemma Realloc_correct:
  assumes "pool_inv p" and "region q k \<subseteq> used p" and "aligned q" and "k \<le> max_block" and "n \<le> max_block"
  shows "case Realloc g q k n p m of (r, p', m') \<Rightarrow> r \<noteq> Null \<or> n = 0 \<longrightarrow> moves p m q k p' m' r n"
proof -
  note al = align8_bounds [OF assms(5)]
  consider (null) "q = Null" | (zero) "q \<noteq> Null" "n = 0" | (shrink) "q \<noteq> Null" "n \<noteq> 0" "align8 k \<ge> align8 n"
    | (grow) "q \<noteq> Null" "n \<noteq> 0" "align8 k < align8 n" by linarith
  then show ?thesis
  proof cases
    case null
    obtain r p' where r: "Malloc g n p = (r, p')" by (cases "Malloc g n p")
    then have "gives p r n p'" using Malloc_correct [OF assms(1,5), of g] by simp
    then have "moves p m q k p' m r n" by (rule gives_moves) (simp add: null)
    then show ?thesis using null r by (simp add: Realloc_def)
  next
    case zero
    then have "moves p m q k p m Null n" using assms(1) by (simp add: moves_def)
    then show ?thesis using zero by (simp add: Realloc_def)
  next
    case shrink
    then have "region q n \<subseteq> region q k" by (cases q) auto
    then have "moves p m q k p m q n" using assms(1,2,3) unfolding moves_def by auto
    then show ?thesis using shrink by (simp add: Realloc_def)
  next
    case grow
    let ?d = "align8 n - align8 k"
    let ?fits = "is_last q (align8 k) p \<and> sz_add (ck_size (hd (pl_chunks p))) ?d \<le> ck_capacity (hd (pl_chunks p))"
    show ?thesis
    proof (cases ?fits)
      case True
      note a = advance_last [OF assms(1) conjunct1 [OF True] conjunct2 [OF True] grow(3) assms(5,4)]
      have "moves p m q k (pool_advance ?d p) m q n" using a by (auto simp: moves_def)
      then show ?thesis using grow True by (simp add: Realloc_def Let_def)
    next
      case False
      obtain r p' where r: "Malloc g (align8 n) p = (r, p')" by (cases "Malloc g (align8 n) p")
      have "gives p r (align8 n) p'" using Malloc_correct [OF assms(1) al(4), of g] r by simp
      then have g: "gives p r n p'" using assms(5) by (simp add: gives_def)
      have "k \<le> n" using grow(3) align8_mono [OF _ assms(4), of n] by (cases "k \<le> n") auto
      let ?m = "if align8 k \<noteq> 0 then mem_copy r q (align8 k) m else m"
      have "moves p m q k p' ?m r n" by (rule copy_moves [OF g assms(2,4,5) \<open>k \<le> n\<close>]) simp_all
      then show ?thesis using grow False r by (auto simp: Realloc_def Let_def split: ptr.split)
    qed
  qed
qed

section \<open>A client of the pool\<close>

text \<open>
  A client asks for blocks, resizes the blocks it holds and stores into them. It keeps each block with
  the size it asked for; the state is the pool, the memory, and these blocks.
\<close>

datatype 'a pcall =
    PMalloc nat
  | PRealloc nat nat
  | PStore nat nat 'a

type_synonym 'a pool_state = "pool \<times> 'a cmem \<times> (ptr \<times> nat) list"

fun block_store :: "ptr \<Rightarrow> nat \<Rightarrow> 'a \<Rightarrow> 'a cmem \<Rightarrow> 'a cmem" where
  "block_store (At b x) off v m = m((b, x + off) \<mapsto> v)"
| "block_store Null off v m = m"

fun pool_call :: "(nat \<Rightarrow> bool) \<Rightarrow> 'a pcall \<Rightarrow> 'a pool_state \<Rightarrow> 'a pool_state" where
  "pool_call g (PMalloc n) (p, m, bs) = (case Malloc g n p of (r, p) \<Rightarrow> (p, m, bs @ [(r, n)]))"
| "pool_call g (PRealloc i n) (p, m, bs) =
     (if i < length bs
      then (case Realloc g (fst (bs ! i)) (snd (bs ! i)) n p m of (r, p, m) \<Rightarrow> (p, m, bs[i := (r, n)]))
      else (p, m, bs))"
| "pool_call g (PStore i off v) (p, m, bs) =
     (p, if i < length bs \<and> off < snd (bs ! i) then block_store (fst (bs ! i)) off v m else m, bs)"

text \<open>The specification: every block is an array of its own, with unspecified contents at first.\<close>

type_synonym 'a arrays = "(nat \<times> (nat \<Rightarrow> 'a option)) list"

fun array_call :: "'a pcall \<Rightarrow> 'a arrays \<Rightarrow> 'a arrays" where
  "array_call (PMalloc n) as = as @ [(n, Map.empty)]"
| "array_call (PRealloc i n) as =
     (if i < length as then as[i := (n, snd (as ! i) |` {..<n})] else as)"
| "array_call (PStore i off v) as =
     (if i < length as \<and> off < fst (as ! i) then as[i := (fst (as ! i), (snd (as ! i))(off \<mapsto> v))] else as)"

fun call_size :: "'a pcall \<Rightarrow> nat" where
  "call_size (PMalloc n) = n"
| "call_size (PRealloc i n) = n"
| "call_size (PStore i off v) = 0"

definition blocks_apart :: "pool \<Rightarrow> (ptr \<times> nat) list \<Rightarrow> bool" where
  "blocks_apart p bs \<longleftrightarrow>
     (\<forall>b \<in> set bs. aligned (fst b) \<and> region (fst b) (snd b) \<subseteq> used p \<and> snd b \<le> max_block \<and> (fst b = Null \<longrightarrow> snd b = 0)) \<and>
     (\<forall>i j. i < length bs \<longrightarrow> j < length bs \<longrightarrow> i \<noteq> j \<longrightarrow>
        region (fst (bs ! i)) (snd (bs ! i)) \<inter> region (fst (bs ! j)) (snd (bs ! j)) = {})"

fun holds_array :: "'a cmem \<Rightarrow> ptr \<times> nat \<Rightarrow> nat \<times> (nat \<Rightarrow> 'a option) \<Rightarrow> bool" where
  "holds_array m (q, n) (k, f) \<longleftrightarrow> n = k \<and>
     (\<forall>off v. f off = Some v \<longrightarrow> off < n \<and> (\<exists>b x. q = At b x \<and> m (b, x + off) = Some v))"

definition pool_rel :: "'a pool_state \<Rightarrow> 'a arrays \<Rightarrow> bool" where
  "pool_rel s as \<longleftrightarrow> (case s of (p, m, bs) \<Rightarrow>
     pool_inv p \<and> blocks_apart p bs \<and> list_all2 (holds_array m) bs as)"

text \<open>A block changed by a call that leaves the others in use alone.\<close>

lemma blocks_apart_update:
  assumes "blocks_apart p bs" and "i < length bs" and "used p \<subseteq> used p'" and "n \<le> max_block" and "aligned r" and "r = Null \<longrightarrow> n = 0"
    and "region r n \<subseteq> used p'" and "used p \<inter> region r n \<subseteq> region (fst (bs ! i)) (snd (bs ! i))"
  shows "blocks_apart p' (bs[i := (r, n)])"
proof -
  have b: "aligned (fst (bs ! j))" "region (fst (bs ! j)) (snd (bs ! j)) \<subseteq> used p" "snd (bs ! j) \<le> max_block"
      "fst (bs ! j) = Null \<longrightarrow> snd (bs ! j) = 0" if "j < length bs" for j
    using assms(1) nth_mem [OF that] by (auto simp: blocks_apart_def)
  have d: "region (fst (bs ! i)) (snd (bs ! i)) \<inter> region (fst (bs ! j)) (snd (bs ! j)) = {}"
    if "i < length bs" "j < length bs" "i \<noteq> j" for i j using assms(1) that unfolding blocks_apart_def by blast
  have new: "region r n \<inter> region (fst (bs ! j)) (snd (bs ! j)) = {}" if "j < length bs" "i \<noteq> j" for j
    using b(2) [OF that(1)] d [OF assms(2) that] assms(8) by blast
  show ?thesis unfolding blocks_apart_def
  proof (intro conjI allI impI ballI)
    fix e assume "e \<in> set (bs[i := (r, n)])"
    then obtain j where j: "j < length bs" "e = bs[i := (r, n)] ! j" by (auto simp: in_set_conv_nth)
    then have "j < length bs" by simp
    then show "aligned (fst e)" "region (fst e) (snd e) \<subseteq> used p'" "snd e \<le> max_block" "fst e = Null \<Longrightarrow> snd e = 0"
      using b [of j] assms(3-7) j(2) by (cases "i = j"; force)+
  next
    fix j k assume "j < length (bs[i := (r, n)])" "k < length (bs[i := (r, n)])" "j \<noteq> k"
    then show "region (fst (bs[i := (r, n)] ! j)) (snd (bs[i := (r, n)] ! j)) \<inter>
        region (fst (bs[i := (r, n)] ! k)) (snd (bs[i := (r, n)] ! k)) = {}"
      using d [of j k] new [of j] new [of k] by (cases "i = j"; cases "i = k") (auto simp: nth_list_update Int_commute)
  qed
qed

lemma holds_array_cong:
  assumes "holds_array m b a" and "\<forall>z \<in> region (fst b) (snd b). m' z = m z" and "snd b \<le> max_block"
  shows "holds_array m' b a"
proof -
  obtain q n k f where ba: "b = (q, n)" "a = (k, f)" by (cases b; cases a) auto
  have "n \<le> align8 n" using align8_bounds(1) assms(3) ba by simp
  then have "m' (c, x + off) = m (c, x + off)" if "q = At c x" "off < n" for c x off
    using assms(2) that ba by auto
  then show ?thesis using assms(1) ba by fastforce
qed

lemma holds_arrayD:
  assumes "holds_array m b a" and "snd a off = Some v"
  obtains c x where "off < snd b" "fst b = At c x" "m (c, x + off) = Some v"
proof -
  obtain q n k f where ba: "b = (q, n)" "a = (k, f)" by (cases b; cases a) auto
  have "n = k \<and> (\<forall>off v. f off = Some v \<longrightarrow> off < n \<and> (\<exists>c x. q = At c x \<and> m (c, x + off) = Some v))"
    using assms(1) unfolding ba holds_array.simps by blast
  moreover have "f off = Some v" using assms(2) ba by simp
  ultimately have "off < n \<and> (\<exists>c x. q = At c x \<and> m (c, x + off) = Some v)" by blast
  then show thesis using that ba by auto
qed

lemma blocks_apart_append:
  assumes "blocks_apart p bs" and "gives p r n p'" and "n \<le> max_block" and "r = Null \<longrightarrow> n = 0"
  shows "blocks_apart p' (bs @ [(r, n)])"
proof -
  have g: "used p \<inter> region r n = {}" "region r n \<subseteq> used p'" "used p \<subseteq> used p'" "aligned r"
    using assms(2) by (auto simp: gives_def)
  have b: "\<forall>b \<in> set bs. aligned (fst b) \<and> region (fst b) (snd b) \<subseteq> used p \<and> snd b \<le> max_block \<and> (fst b = Null \<longrightarrow> snd b = 0)"
    using assms(1) by (simp add: blocks_apart_def)
  then have new: "region (fst (bs ! j)) (snd (bs ! j)) \<inter> region r n = {}" if "j < length bs" for j
    using g(1) nth_mem [OF that] by blast
  have old: "region (fst (bs ! i)) (snd (bs ! i)) \<inter> region (fst (bs ! j)) (snd (bs ! j)) = {}"
    if "i < length bs" "j < length bs" "i \<noteq> j" for i j
    using assms(1) that unfolding blocks_apart_def by blast
  show ?thesis unfolding blocks_apart_def
  proof (intro conjI allI impI)
    show "\<forall>b \<in> set (bs @ [(r, n)]). aligned (fst b) \<and> region (fst b) (snd b) \<subseteq> used p' \<and> snd b \<le> max_block \<and>
        (fst b = Null \<longrightarrow> snd b = 0)"
      using b g(2,3,4) assms(3,4) by auto
  next
    fix i j assume "i < length (bs @ [(r, n)])" "j < length (bs @ [(r, n)])" "i \<noteq> j"
    then show "region (fst ((bs @ [(r, n)]) ! i)) (snd ((bs @ [(r, n)]) ! i)) \<inter>
        region (fst ((bs @ [(r, n)]) ! j)) (snd ((bs @ [(r, n)]) ! j)) = {}"
      using new [of i] new [of j] old [of i j] by (auto simp: nth_append less_Suc_eq Int_commute)
  qed
qed

text \<open>Arrays are found where they were, after a call that leaves their bytes alone.\<close>

lemma arrays_kept:
  assumes "list_all2 (holds_array m) bs as" and "blocks_apart p bs"
    and "\<And>j. j < length bs \<Longrightarrow> j \<noteq> i \<Longrightarrow> \<forall>z \<in> region (fst (bs ! j)) (snd (bs ! j)). m' z = m z"
    and "i < length bs \<Longrightarrow> holds_array m' b a"
  shows "list_all2 (holds_array m') (bs[i := b]) (as[i := a])"
proof (rule list_all2_all_nthI)
  show "length (bs[i := b]) = length (as[i := a])" using assms(1) by (simp add: list_all2_lengthD)
  fix j assume "j < length (bs[i := b])"
  then have j: "j < length bs" "j < length as" using assms(1) by (simp_all add: list_all2_lengthD)
  show "holds_array m' (bs[i := b] ! j) (as[i := a] ! j)"
  proof (cases "j = i")
    case True
    then show ?thesis using assms(4) j by simp
  next
    case False
    have "snd (bs ! j) \<le> max_block" using assms(2) nth_mem [OF j(1)] by (simp add: blocks_apart_def)
    then have "holds_array m' (bs ! j) (as ! j)"
      by (rule holds_array_cong [OF list_all2_nthD [OF assms(1) j(1)] assms(3) [OF j(1) False]])
    then show ?thesis using False by simp
  qed
qed

lemma call_malloc:
  assumes "pool_rel (p, m, bs) as" and "n \<le> max_block" and "\<And>k. k \<le> 2 * max_block \<Longrightarrow> g k"
  shows "pool_rel (pool_call g (PMalloc n) (p, m, bs)) (as @ [(n, Map.empty)])"
proof -
  have p: "pool_inv p" "blocks_apart p bs" "list_all2 (holds_array m) bs as" using assms(1) by (simp_all add: pool_rel_def)
  obtain r p' where r: "Malloc g n p = (r, p')" by (cases "Malloc g n p")
  then have g: "gives p r n p'" using Malloc_correct [OF p(1) assms(2), of g] by simp
  have "pl_chunk_capacity p \<le> max_block" using p(1) by (simp add: pool_inv_def)
  then have "24 + max (pl_chunk_capacity p) (n + 8) \<le> 2 * max_block" using assms(2) by (simp add: max_block_def)
  then have "r = Null \<longrightarrow> n = 0" using Malloc_gives [OF p(1) assms(2), of g] assms(3) r by (cases n) auto
  then have "blocks_apart p' (bs @ [(r, n)])" by (rule blocks_apart_append [OF p(2) g assms(2)])
  then show ?thesis using g p(3) r by (simp add: pool_rel_def gives_def list_all2_appendI)
qed

lemma Realloc_gives:
  assumes "pool_inv p" and "n \<le> max_block" and "\<And>k. k \<le> 2 * max_block \<Longrightarrow> g k" and "Realloc g q k n p m = (r, p', m')"
  shows "r = Null \<longrightarrow> n = 0"
proof -
  have al: "align8 n \<le> max_block" "align8 n = 0 \<longleftrightarrow> n = 0" using align8_bounds [OF assms(2)] by simp_all
  have "fst (Malloc g l p) \<noteq> Null" if "0 < l" "l \<le> max_block" for l
  proof -
    have "pl_chunk_capacity p \<le> max_block" using assms(1) by (simp add: pool_inv_def)
    then have "24 + max (pl_chunk_capacity p) (l + 8) \<le> 2 * max_block" using that(2) by (simp add: max_block_def)
    then show ?thesis using Malloc_gives [OF assms(1) that(2,1), of g] assms(3) by fastforce
  qed
  from this [of n] this [of "align8 n"] show ?thesis
    using assms(2,4) al by (auto simp: Realloc_def Let_def split: prod.splits ptr.splits if_splits)
qed

lemma call_realloc:
  assumes "pool_rel (p, m, bs) as" and "n \<le> max_block" and "\<And>k. k \<le> 2 * max_block \<Longrightarrow> g k" and i: "i < length bs"
  shows "pool_rel (pool_call g (PRealloc i n) (p, m, bs)) (as[i := (n, snd (as ! i) |` {..<n})])"
proof -
  have p: "pool_inv p" "blocks_apart p bs" "list_all2 (holds_array m) bs as" using assms(1) by (simp_all add: pool_rel_def)
  let ?q = "fst (bs ! i)" and ?k = "snd (bs ! i)"
  have q: "aligned ?q" "region ?q ?k \<subseteq> used p" "?k \<le> max_block" "?q = Null \<longrightarrow> ?k = 0"
    using p(2) nth_mem [OF i] by (simp_all add: blocks_apart_def)
  obtain r p' m' where r: "Realloc g ?q ?k n p m = (r, p', m')" by (cases "Realloc g ?q ?k n p m")
  have nn: "r = Null \<longrightarrow> n = 0" using Realloc_gives [OF p(1) assms(2)] assms(3) r by blast
  then have mv: "moves p m ?q ?k p' m' r n"
    using Realloc_correct [OF p(1) q(2,1,3) assms(2), where g = g and m = m] r by auto
  then have g: "pool_inv p'" "used p \<subseteq> used p'" "region r n \<subseteq> used p'" "aligned r" "used p \<inter> region r n \<subseteq> region ?q ?k"
    "\<And>a. a \<in> used p \<Longrightarrow> m' a = m a"
    "\<And>b x c y off. ?q = At b x \<Longrightarrow> r = At c y \<Longrightarrow> off < ?k \<Longrightarrow> off < n \<Longrightarrow> m' (c, y + off) = m (b, x + off)"
    by (auto simp: moves_def)
  have "blocks_apart p' (bs[i := (r, n)])"
    by (rule blocks_apart_update [OF p(2) i g(2) assms(2) g(4) nn g(3,5)])
  moreover have "list_all2 (holds_array m') (bs[i := (r, n)]) (as[i := (n, snd (as ! i) |` {..<n})])"
  proof (rule arrays_kept [OF p(3,2)])
    show "\<forall>z \<in> region (fst (bs ! j)) (snd (bs ! j)). m' z = m z" if "j < length bs" for j
      using g(6) p(2) nth_mem [OF that] by (auto simp: blocks_apart_def)
    show "holds_array m' (r, n) (n, snd (as ! i) |` {..<n})"
    proof -
      have "off < n \<and> (\<exists>c y. r = At c y \<and> m' (c, y + off) = Some v)" if o: "off < n" "snd (as ! i) off = Some v" for off v
      proof -
        obtain b x where b: "off < ?k" "?q = At b x" "m (b, x + off) = Some v"
          using holds_arrayD [OF list_all2_nthD [OF p(3) i] o(2)] .
        obtain c y where "r = At c y" using nn o(1) by (cases r) auto
        then show ?thesis using g(7) [OF b(2) _ b(1) o(1)] b(3) o(1) by auto
      qed
      then show ?thesis by (auto simp: restrict_map_def split: if_splits)
    qed
  qed
  ultimately show ?thesis using g(1) i r by (simp add: pool_rel_def)
qed

lemma call_store:
  assumes "pool_rel (p, m, bs) as" and i: "i < length bs" "off < snd (bs ! i)"
  shows "pool_rel (pool_call g (PStore i off v) (p, m, bs)) (as[i := (fst (as ! i), (snd (as ! i))(off \<mapsto> v))])"
proof -
  have p: "pool_inv p" "blocks_apart p bs" "list_all2 (holds_array m) bs as" using assms(1) by (simp_all add: pool_rel_def)
  have q: "snd (bs ! i) \<le> max_block" "fst (bs ! i) = Null \<longrightarrow> snd (bs ! i) = 0"
    using p(2) nth_mem [OF i(1)] by (simp_all add: blocks_apart_def)
  obtain b x n where b: "bs ! i = (At b x, n)" using q(2) i(2) by (cases "bs ! i"; cases "fst (bs ! i)") auto
  have n: "off < n" "(b, x + off) \<in> region (At b x) n" using i(2) b align8_bounds(1) [of n] q(1) by auto
  have "list_all2 (holds_array (m((b, x + off) \<mapsto> v))) (bs[i := bs ! i]) (as[i := (fst (as ! i), (snd (as ! i))(off \<mapsto> v))])"
  proof (rule arrays_kept [OF p(3,2)])
    show "\<forall>z \<in> region (fst (bs ! j)) (snd (bs ! j)). (m((b, x + off) \<mapsto> v)) z = m z" if "j < length bs" "j \<noteq> i" for j
    proof -
      have "region (fst (bs ! j)) (snd (bs ! j)) \<inter> region (fst (bs ! i)) (snd (bs ! i)) = {}"
        using p(2) that i(1) unfolding blocks_apart_def by blast
      then show ?thesis using n(2) b by auto
    qed
    show "holds_array (m((b, x + off) \<mapsto> v)) (bs ! i) (fst (as ! i), (snd (as ! i))(off \<mapsto> v))"
      using list_all2_nthD [OF p(3) i(1)] b n(1) by (cases "as ! i") (auto split: if_splits)
  qed
  then have "list_all2 (holds_array (m((b, x + off) \<mapsto> v))) bs (as[i := (fst (as ! i), (snd (as ! i))(off \<mapsto> v))])"
    by (simp only: list_update_id)
  then show ?thesis using p b i by (simp add: pool_rel_def)
qed

lemma pool_call_rel:
  assumes "pool_rel s as" and "call_size c \<le> max_block" and "\<And>k. k \<le> 2 * max_block \<Longrightarrow> g k"
  shows "pool_rel (pool_call g c s) (array_call c as)"
proof -
  obtain p m bs where s: "s = (p, m, bs)" by (cases s)
  have l: "list_all2 (holds_array m) bs as" using assms(1) s by (simp add: pool_rel_def)
  then have len: "length as = length bs" by (simp add: list_all2_lengthD)
  have k: "fst (as ! i) = snd (bs ! i)" if "i < length bs" for i
    using list_all2_nthD [OF l that] by (cases "bs ! i"; cases "as ! i") simp
  show ?thesis
  proof (cases c)
    case (PMalloc n)
    then show ?thesis using call_malloc [OF assms(1) [unfolded s], of n g] assms(2,3) s by simp
  next
    case (PRealloc i n)
    then show ?thesis
      using call_realloc [OF assms(1) [unfolded s], of n g i] assms s len by (cases "i < length bs") simp_all
  next
    case (PStore i off v)
    then show ?thesis
      using call_store [OF assms(1) [unfolded s], of i off g v] assms(1) s len k
      by (cases "i < length bs \<and> off < snd (bs ! i)") auto
  qed
qed

lemma pool_run_rel:
  assumes "pool_rel s as" and "\<forall>c \<in> set cs. call_size c \<le> max_block" and "\<And>k. k \<le> 2 * max_block \<Longrightarrow> g k"
  shows "pool_rel (fold (pool_call g) cs s) (fold array_call cs as)"
  using assms(1,2) by (induction cs arbitrary: s as) (simp_all add: pool_call_rel assms(3))

text \<open>The destructor frees the block of every chunk, and the shared data.\<close>

lemma Clear_chunks_blocks:
  "cs \<noteq> [] \<Longrightarrow> fst (Clear_chunks cs) = map ck_block (butlast cs)"
  by (induction cs rule: Clear_chunks.induct) (simp_all add: case_prod_beta)

lemma destroy_frees_all:
  assumes "pool_inv p"
  shows "pool_destroy p = rev [0..<pl_blocks p]"
proof -
  have m: "map ck_block (pl_chunks p) = rev [0..<pl_blocks p]" "0 < pl_blocks p" using assms by (simp_all add: pool_inv_def)
  then have "pl_chunks p \<noteq> []" by auto
  then have "fst (Clear_chunks (pl_chunks p)) = butlast (rev [0..<pl_blocks p])"
    using Clear_chunks_blocks m(1) by (metis map_butlast)
  moreover have "rev [0..<pl_blocks p] = rev [1..<pl_blocks p] @ [0]"
    using m(2) by (simp add: upt_conv_Cons)
  ultimately show ?thesis
    by (simp add: pool_destroy_def pool_Clear_def case_prod_beta)
qed

text \<open>
  C21. The pool allocator behind a JSON document, under any sequence of requests of up to \<open>2 ^ 61\<close> bytes:
  the blocks are aligned, lie inside chunks, do not overlap, and each behaves as an array of its own, which
  \<^verbatim>\<open>Realloc\<close> moves with its contents; the destructor gives every block of the base allocator back once.
\<close>

theorem pool_is_arrays:
  assumes "chunk_capacity \<le> max_block" and "\<forall>c \<in> set calls. call_size c \<le> max_block"
    and "\<forall>k \<le> 2 * max_block. grants k"
  shows "case fold (pool_call grants) calls (pool_init chunk_capacity, Map.empty, []) of (p, m, bs) \<Rightarrow>
      list_all2 (holds_array m) bs (fold array_call calls []) \<and>
      (\<forall>b \<in> set bs. aligned (fst b) \<and> region (fst b) (snd b) \<subseteq> extent p) \<and>
      (\<forall>i < length bs. \<forall>j < length bs. i \<noteq> j \<longrightarrow>
         region (fst (bs ! i)) (snd (bs ! i)) \<inter> region (fst (bs ! j)) (snd (bs ! j)) = {}) \<and>
      pool_destroy p = rev [0..<pl_blocks p]"
proof -
  have "pool_rel (pool_init chunk_capacity, Map.empty, []) []"
    using pool_init_inv [OF assms(1)] by (simp add: pool_rel_def blocks_apart_def)
  then have rel: "pool_rel (fold (pool_call grants) calls (pool_init chunk_capacity, Map.empty, [])) (fold array_call calls [])"
    by (rule pool_run_rel) (use assms(2,3) in auto)
  obtain p m bs where s: "fold (pool_call grants) calls (pool_init chunk_capacity, Map.empty, []) = (p, m, bs)"
    by (cases "fold (pool_call grants) calls (pool_init chunk_capacity, Map.empty, [])")
  show ?thesis using rel used_extent [of p] destroy_frees_all [of p] unfolding s pool_rel_def blocks_apart_def by blast
qed

text \<open>Two blocks, the first one grown beyond what the second one leaves, in chunks of 64 bytes.\<close>

definition pool_example :: "nat pcall list" where
  "pool_example = [PMalloc 16, PMalloc 24, PStore 0 8 7, PRealloc 0 48, PStore 1 0 5]"

lemmas pool_evaluation =
  pool_example_def pool_init_def Malloc_def Realloc_def AddChunk_def pool_take_def pool_advance_def
  is_last_def align8_def sz_add_def

lemma pool_is_arrays_witness:
  "case fold (pool_call (\<lambda>_. True)) pool_example (pool_init 64, Map.empty, []) of (p, m, bs) \<Rightarrow>
     bs = [(At 2 0, 48), (At 1 16, 24)] \<and> m (2, 8) = Some 7 \<and> region (At 2 0) 48 \<subseteq> extent p \<and> pool_destroy p = [2, 1, 0]"
proof -
  let ?s = "fold (pool_call (\<lambda>_. True)) pool_example (pool_init 64, Map.empty, [])"
  have s: "case ?s of (p, m, bs) \<Rightarrow> bs = [(At 2 0, 48), (At 1 16, 24)] \<and> m (2, 8) = Some 7 \<and> pl_blocks p = 3"
    by (simp add: pool_evaluation)
  have "\<forall>c \<in> set pool_example. call_size c \<le> max_block" by (simp add: pool_example_def max_block_def)
  then have t: "case ?s of (p, m, bs) \<Rightarrow> (\<forall>b \<in> set bs. region (fst b) (snd b) \<subseteq> extent p) \<and>
      pool_destroy p = rev [0..<pl_blocks p]"
    using pool_is_arrays [of 64 pool_example "\<lambda>_. True"] by (fastforce simp: max_block_def)
  obtain p m bs where "?s = (p, m, bs)" by (cases ?s)
  then show ?thesis using s t by (simp add: upt_rec)
qed

text \<open>
  Beyond: the size is added to the fill of the chunk in 64 bits. A request for almost the whole address space
  wraps around, is granted, and the block after it overlaps one that is in use.
\<close>

lemma Malloc_wraps:
  "case fold (pool_call (\<lambda>_. True)) [PMalloc 64, PMalloc (2 ^ 64 - 32), PMalloc 8 :: nat pcall] (pool_init 1024, Map.empty, []) of
     (p, m, bs) \<Rightarrow> bs = [(At 1 0, 64), (At 1 64, 2 ^ 64 - 32), (At 1 32, 8)]"
  by (simp add: pool_evaluation)

end
