(* ===== verification/Kes_Document.thy ===== *)
theory Kes_Document
  imports Kes_JsonReader Kes_Pool
begin

text \<open>
  The document in memory: the handler of \<^verbatim>\<open>document.h\<close> as it runs under the reader, with the values of
  open arrays and objects on the stack of \<^verbatim>\<open>internal/stack.h\<close> and the finished ones in blocks of the
  pool allocator. Every access is checked: undefined behaviour is \<open>None\<close>. The theorem says that
  parsing any text never gets there and leaves in memory the value of the model that keeps lists.
\<close>

section \<open>Values in memory\<close>

text \<open>
  A \<^verbatim>\<open>GenericValue\<close> (16 bytes): its flags are the constructor. A string points into the text
  (\<^verbatim>\<open>kConstStringFlag\<close>); an array or object has a block of the pool and a size, which is also its capacity.
  A member of an object is two values, its name and its value.
\<close>

datatype gvalue =
    GNull
  | GBool bool
  | GInt int
  | GDouble u64
  | GString nat nat
  | GArray ptr nat
  | GObject ptr nat

record document =
  doc_stack :: "gvalue cstack"
  doc_pool :: pool
  doc_mem :: "gvalue cmem"

definition doc_init :: document where
  "doc_init = \<lparr>doc_stack = stk_init 1024, doc_pool = pool_init 65536, doc_mem = Map.empty\<rparr>"

text \<open>A count or a length as a \<^verbatim>\<open>SizeType\<close>.\<close>

definition to_size :: "nat \<Rightarrow> nat" where
  "to_size n = n mod 2 ^ 32"

text \<open>The value that \<^verbatim>\<open>Null\<close>, \<^verbatim>\<open>Bool\<close>, \<^verbatim>\<open>Int\<close>, ..., \<^verbatim>\<open>String\<close>, \<^verbatim>\<open>StartObject\<close> and \<^verbatim>\<open>StartArray\<close> construct.\<close>

fun constructed :: "node \<Rightarrow> gvalue" where
  "constructed NNull = GNull"
| "constructed (NBool b) = GBool b"
| "constructed (NInt i) = GInt i"
| "constructed (NDouble x) = GDouble x"
| "constructed (NStr p l) = GString p (to_size l)"
| "constructed (NArr _) = GArray Null 0"
| "constructed (NObj _) = GObject Null 0"

definition doc_push :: "(nat \<Rightarrow> bool) \<Rightarrow> node \<Rightarrow> document \<Rightarrow> document option" where
  "doc_push g x d = do {
     (p, s) \<leftarrow> stk_Push g 16 1 (doc_stack d);
     s \<leftarrow> stk_write p [constructed x] s;
     Some (d\<lparr>doc_stack := s\<rparr>)
   }"

text \<open>Reading \<open>n\<close> values at a position of the stack, also above its top; storing values into a block.\<close>

definition stk_read :: "nat \<Rightarrow> nat \<Rightarrow> 'a cstack \<Rightarrow> 'a list option" where
  "stk_read p n s = (if p + n \<le> length (stk_cells s) then those (take n (drop p (stk_cells s))) else None)"

fun cells_at :: "nat \<Rightarrow> nat \<Rightarrow> gvalue list \<Rightarrow> gvalue cmem \<Rightarrow> gvalue cmem" where
  "cells_at b x [] m = m"
| "cells_at b x (v # vs) m = cells_at b (x + 16) vs (m((b, x) \<mapsto> v))"

fun block_write :: "pool \<Rightarrow> ptr \<Rightarrow> gvalue list \<Rightarrow> gvalue cmem \<Rightarrow> gvalue cmem option" where
  "block_write p (At b x) vs m =
     (case find (\<lambda>c. ck_block c = b) (pl_chunks p) of
        Some c \<Rightarrow> if x + 16 * length vs \<le> ck_capacity c then Some (cells_at b x vs m) else None
      | None \<Rightarrow> None)"
| "block_write p Null vs m = None"

text \<open>\<^verbatim>\<open>SetArrayRaw\<close> and \<^verbatim>\<open>SetObjectRaw\<close> on the value at the top, with the values above it.\<close>

definition SetArrayRaw :: "(nat \<Rightarrow> bool) \<Rightarrow> gvalue list \<Rightarrow> nat \<Rightarrow> document \<Rightarrow> (gvalue \<times> document) option" where
  "SetArrayRaw g vs count d =
     (if count \<noteq> 0 then
        (case Malloc g (sz_mul count 16) (doc_pool d) of (r, p) \<Rightarrow> do {
           m \<leftarrow> block_write p r vs (doc_mem d);
           Some (GArray r count, d\<lparr>doc_pool := p, doc_mem := m\<rparr>)
         })
      else Some (GArray Null count, d))"

definition SetObjectRaw :: "(nat \<Rightarrow> bool) \<Rightarrow> gvalue list \<Rightarrow> nat \<Rightarrow> document \<Rightarrow> (gvalue \<times> document) option" where
  "SetObjectRaw g vs count d =
     (if count \<noteq> 0 then
        (case Realloc g Null 0 (sz_mul count 32) (doc_pool d) (doc_mem d) of (r, p, m) \<Rightarrow> do {
           m \<leftarrow> block_write p r vs m;
           Some (GObject r count, d\<lparr>doc_pool := p, doc_mem := m\<rparr>)
         })
      else Some (GObject Null count, d))"

definition doc_close :: "(gvalue list \<Rightarrow> document \<Rightarrow> (gvalue \<times> document) option) \<Rightarrow> nat \<Rightarrow> document \<Rightarrow> document option" where
  "doc_close raw n d = do {
     s \<leftarrow> stk_Pop n (doc_stack d);
     vs \<leftarrow> stk_read (stk_top s) n s;
     _ \<leftarrow> stk_Top s;
     (v, d) \<leftarrow> raw vs (d\<lparr>doc_stack := s\<rparr>);
     s \<leftarrow> stk_write (stk_top s - 1) [v] s;
     Some (d\<lparr>doc_stack := s\<rparr>)
   }"

definition doc_EndArray :: "(nat \<Rightarrow> bool) \<Rightarrow> nat \<Rightarrow> document \<Rightarrow> document option" where
  "doc_EndArray g elementCount = doc_close (\<lambda>vs. SetArrayRaw g vs elementCount) elementCount"

definition doc_EndObject :: "(nat \<Rightarrow> bool) \<Rightarrow> nat \<Rightarrow> document \<Rightarrow> document option" where
  "doc_EndObject g memberCount = doc_close (\<lambda>vs. SetObjectRaw g vs memberCount) (2 * memberCount)"

section \<open>The reader with this handler\<close>

text \<open>
  The reader of \<open>Kes_JsonReader\<close>, calling the handler. It goes on keeping the values as a list
  beside the document, but no step looks at that list, except that a value that was just read is passed on
  from its head. The counts are \<^verbatim>\<open>SizeType\<close>.
\<close>

type_synonym doc_run = "((failure + unit) \<times> reader \<times> document) option"

definition with_doc :: "document \<Rightarrow> unit parsed \<Rightarrow> doc_run" where
  "with_doc d p = (case p of (r, s) \<Rightarrow> Some (r, s, d))"

definition dbind :: "doc_run \<Rightarrow> (reader \<Rightarrow> document \<Rightarrow> doc_run) \<Rightarrow> doc_run" where
  "dbind m f = do { (r, s, d) \<leftarrow> m; (case r of Inl e \<Rightarrow> Some (Inl e, s, d) | Inr _ \<Rightarrow> f s d) }"

definition doc_value :: "(nat \<Rightarrow> bool) \<Rightarrow> unit parsed \<Rightarrow> document \<Rightarrow> doc_run" where
  "doc_value g p d = dbind (with_doc d p) (\<lambda>s d. do { d \<leftarrow> doc_push g (hd (jr_stack s)) d; Some (Inr (), s, d) })"

fun dParseValue :: "double_ops \<Rightarrow> (nat \<Rightarrow> bool) \<Rightarrow> nat \<Rightarrow> reader \<Rightarrow> document \<Rightarrow> doc_run"
  and dParseMembers :: "double_ops \<Rightarrow> (nat \<Rightarrow> bool) \<Rightarrow> nat \<Rightarrow> nat \<Rightarrow> reader \<Rightarrow> document \<Rightarrow> doc_run"
  and dParseElements :: "double_ops \<Rightarrow> (nat \<Rightarrow> bool) \<Rightarrow> nat \<Rightarrow> nat \<Rightarrow> reader \<Rightarrow> document \<Rightarrow> doc_run" where
  "dParseValue D g 0 s d = Some (Inl OutOfFuel, s, d)"
| "dParseValue D g (Suc n) s d =
     (let c = jr_Peek s in
      if c = CHR ''n'' then doc_value g (ParseNull s) d
      else if c = CHR ''t'' then doc_value g (ParseTrue s) d
      else if c = CHR ''f'' then doc_value g (ParseFalse s) d
      else if c = CHR 0x22 then doc_value g (ParseString s) d
      else if c = CHR ''{'' then do {
        d \<leftarrow> doc_push g (NObj []) d;
        (case start_object s of
           (True, s) \<Rightarrow> do { d \<leftarrow> doc_EndObject g 0 d; Some (Inr (), s, d) }
         | (False, s) \<Rightarrow> dParseMembers D g n 0 s d)
      }
      else if c = CHR ''['' then do {
        d \<leftarrow> doc_push g (NArr []) d;
        (case start_array s of
           (True, s) \<Rightarrow> do { d \<leftarrow> doc_EndArray g 0 d; Some (Inr (), s, d) }
         | (False, s) \<Rightarrow> dParseElements D g n 0 s d)
      }
      else doc_value g (ParseNumber D s) d)"
| "dParseMembers D g 0 k s d = Some (Inl OutOfFuel, s, d)"
| "dParseMembers D g (Suc n) k s d =
     (if jr_Peek s \<noteq> CHR 0x22 then with_doc d (parse_fail ObjectMissName (jr_src s) s)
      else
        dbind (doc_value g (ParseString s) d) (\<lambda>s d.
          case Consume (CHR '':'') (SkipWhitespace s) of
            (False, s) \<Rightarrow> with_doc d (parse_fail ObjectMissColon (jr_src s) s)
          | (True, s) \<Rightarrow>
              dbind (dParseValue D g n (SkipWhitespace s) d) (\<lambda>s d.
                let s = SkipWhitespace s in
                if jr_Peek s = CHR '','' then dParseMembers D g n (Suc k) (SkipWhitespace (jr_Take s)) d
                else if jr_Peek s = CHR ''}'' then do {
                  d \<leftarrow> doc_EndObject g (to_size (Suc k)) d;
                  Some (Inr (), EndObject (Suc k) (jr_Take s), d)
                }
                else with_doc d (parse_fail ObjectMissCommaOrCurlyBracket (jr_src s) s))))"
| "dParseElements D g 0 k s d = Some (Inl OutOfFuel, s, d)"
| "dParseElements D g (Suc n) k s d =
     dbind (dParseValue D g n s d) (\<lambda>s d.
       let s = SkipWhitespace s in
       if jr_Peek s = CHR '','' then dParseElements D g n (Suc k) (SkipWhitespace (jr_Take s)) d
       else if jr_Peek s = CHR '']'' then do {
         d \<leftarrow> doc_EndArray g (to_size (Suc k)) d;
         Some (Inr (), EndArray (Suc k) (jr_Take s), d)
       }
       else with_doc d (parse_fail ArrayMissCommaOrSquareBracket (jr_src s) s))"

definition dParse :: "double_ops \<Rightarrow> (nat \<Rightarrow> bool) \<Rightarrow> nat \<Rightarrow> reader \<Rightarrow> document \<Rightarrow> doc_run" where
  "dParse D g n s d =
     (let s = SkipWhitespace s in
      if jr_Peek s = NUL then with_doc d (parse_fail DocumentEmpty (jr_src s) s)
      else
        dbind (dParseValue D g n s d) (\<lambda>s d.
          let s = SkipWhitespace s in
          if jr_Peek s \<noteq> NUL then with_doc d (parse_fail DocumentRootNotSingular (jr_src s) s) else Some (Inr (), s, d)))"

text \<open>
  \<^verbatim>\<open>ParseInsitu\<close> of a new document: the root is moved from the stack into the document, which is null
  otherwise; the stack is cleared. The results are the outcome, the text as it was left, the root, the document.
\<close>

definition doc_ClearStack :: "document \<Rightarrow> document" where
  "doc_ClearStack d = d\<lparr>doc_stack := (doc_stack d)\<lparr>stk_cells := [], stk_bytes := 0, stk_top := 0\<rparr>\<rparr>"

definition doc_ParseInsitu ::
    "double_ops \<Rightarrow> (nat \<Rightarrow> bool) \<Rightarrow> string \<Rightarrow> ((failure + unit) \<times> string \<times> gvalue \<times> document) option" where
  "doc_ParseInsitu D g text = do {
     (r, s, d) \<leftarrow> dParse D g (2 * length text + 3) (reader_of text) doc_init;
     root \<leftarrow> (case r of
        Inl e \<Rightarrow> Some GNull
      | Inr _ \<Rightarrow> do {
          st \<leftarrow> stk_Pop 1 (doc_stack d);
          vs \<leftarrow> stk_read (stk_top st) 1 st;
          Some (hd vs)
        });
     Some (r, jr_mem s, root, doc_ClearStack d)
   }"

section \<open>What the memory holds\<close>

text \<open>
  \<open>rep m v x\<close>: the value \<open>v\<close> with its blocks in \<open>m\<close> is the value \<open>x\<close> of the list model.
\<close>

function rep :: "gvalue cmem \<Rightarrow> gvalue \<Rightarrow> node \<Rightarrow> bool"
  and rep_cells :: "gvalue cmem \<Rightarrow> ptr \<Rightarrow> node list \<Rightarrow> bool"
  and rep_members :: "gvalue cmem \<Rightarrow> ptr \<Rightarrow> (node \<times> node) list \<Rightarrow> bool" where
  "rep m v NNull = (v = GNull)"
| "rep m v (NBool b) = (v = GBool b)"
| "rep m v (NInt i) = (v = GInt i)"
| "rep m v (NDouble x) = (v = GDouble x)"
| "rep m v (NStr p l) = (v = GString p l)"
| "rep m v (NArr xs) = (case v of GArray q n \<Rightarrow> n = length xs \<and> rep_cells m q xs | _ \<Rightarrow> False)"
| "rep m v (NObj ms) = (case v of GObject q n \<Rightarrow> n = length ms \<and> rep_members m q ms | _ \<Rightarrow> False)"
| "rep_cells m q [] = True"
| "rep_cells m q (x # xs) =
     (case q of
        At b a \<Rightarrow> (case m (b, a) of Some v \<Rightarrow> rep m v x \<and> rep_cells m (At b (a + 16)) xs | None \<Rightarrow> False)
      | Null \<Rightarrow> False)"
| "rep_members m q [] = True"
| "rep_members m q ((k, x) # ms) =
     (case q of
        At b a \<Rightarrow>
          (case m (b, a) of Some v \<Rightarrow> rep m v k | None \<Rightarrow> False) \<and>
          (case m (b, a + 16) of Some v \<Rightarrow> rep m v x | None \<Rightarrow> False) \<and> rep_members m (At b (a + 32)) ms
      | Null \<Rightarrow> False)"
  by pat_completeness auto
termination
  by (relation "measure (\<lambda>y. case y of Inl (m, v, x) \<Rightarrow> size x | Inr (Inl (m, q, xs)) \<Rightarrow> size_list size xs
    | Inr (Inr (m, q, ms)) \<Rightarrow> size_list (size_prod size size) ms)") auto

lemma map_leD: "m \<subseteq>\<^sub>m m' \<Longrightarrow> m a = Some v \<Longrightarrow> m' a = Some v"
  by (metis domI map_le_def)

lemma rep_mono:
  "rep m v x \<Longrightarrow> m \<subseteq>\<^sub>m m' \<Longrightarrow> rep m' v x"
  "rep_cells m q xs \<Longrightarrow> m \<subseteq>\<^sub>m m' \<Longrightarrow> rep_cells m' q xs"
  "rep_members m q ms \<Longrightarrow> m \<subseteq>\<^sub>m m' \<Longrightarrow> rep_members m' q ms"
proof (induction m v x and m q xs and m q ms rule: rep_rep_cells_rep_members.induct)
  case (9 m q x xs)
  then show ?case by (auto split: ptr.splits option.splits dest: map_leD)
next
  case (11 m q k x ms)
  then show ?case by (auto split: ptr.splits option.splits dest: map_leD)
qed (auto split: gvalue.splits)

text \<open>Cells written one after the other represent the values they were copied from.\<close>

lemma cells_at_other: "fst z \<noteq> b \<or> snd z < x \<Longrightarrow> cells_at b x vs m z = m z"
  by (induction vs arbitrary: x m) auto

lemma cells_at_above: "x + 16 * length vs \<le> snd z \<Longrightarrow> cells_at b x vs m z = m z"
  by (induction vs arbitrary: x m) auto

lemma cells_at_dom: "dom (cells_at b x vs m) \<subseteq> dom m \<union> {b} \<times> {x..<x + 16 * length vs}"
proof (induction vs arbitrary: x m)
  case (Cons v vs)
  have "dom (cells_at b x (v # vs) m) \<subseteq> dom (m((b, x) \<mapsto> v)) \<union> {b} \<times> {x + 16..<x + 16 + 16 * length vs}"
    using Cons.IH [of "x + 16" "m((b, x) \<mapsto> v)"] by (simp only: cells_at.simps)
  then show ?case by fastforce
qed simp

lemma cells_at_le:
  assumes "dom m \<inter> {b} \<times> {x..<x + 16 * length vs} = {}"
  shows "m \<subseteq>\<^sub>m cells_at b x vs m"
proof (unfold map_le_def, rule ballI)
  fix z assume "z \<in> dom m"
  then have "fst z \<noteq> b \<or> snd z < x \<or> x + 16 * length vs \<le> snd z" using assms by (cases z) auto
  then show "m z = cells_at b x vs m z" using cells_at_other [of z b x vs m] cells_at_above [of x vs z b m] by auto
qed

lemma cells_at_rep:
  assumes "list_all2 (rep m) vs xs" and "m \<subseteq>\<^sub>m m'" and "\<And>i. i < length vs \<Longrightarrow> m' (b, x + 16 * i) = Some (vs ! i)"
  shows "rep_cells m' (At b x) xs"
  using assms(1,3)
proof (induction arbitrary: x rule: list_all2_induct)
  case (Cons v vs y ys)
  have "m' (b, x) = Some v" using Cons.prems [of 0] by simp
  moreover have "rep_cells m' (At b (x + 16)) ys" by (rule Cons.IH) (use Cons.prems [of "Suc _"] in \<open>simp add: add.assoc\<close>)
  ultimately show ?case using rep_mono(1) [OF Cons.hyps(1) assms(2)] by simp
qed simp

lemma cells_at_nth: "i < length vs \<Longrightarrow> cells_at b x vs m (b, x + 16 * i) = Some (vs ! i)"
proof (induction vs arbitrary: i x m)
  case (Cons v vs)
  show ?case
  proof (cases i)
    case 0
    then show ?thesis using cells_at_other [of "(b, x)" b "x + 16" vs] by simp
  next
    case (Suc j)
    then show ?thesis using Cons.IH [of j "x + 16"] Cons.prems by (simp add: add.assoc)
  qed
qed simp

lemma rep_pairs: "even (length xs) \<Longrightarrow> rep_cells m q xs \<Longrightarrow> rep_members m q (pairs xs) \<and> length (pairs xs) = length xs div 2"
  by (induction xs arbitrary: q rule: pairs.induct) (auto simp: add.commute split: ptr.splits option.splits)

section \<open>The handler's calls\<close>

text \<open>A new block takes the values that are copied to it, and nothing in memory changes.\<close>

definition doc_mem_ok :: "pool \<Rightarrow> gvalue cmem \<Rightarrow> bool" where
  "doc_mem_ok p m \<longleftrightarrow> pool_inv p \<and> pl_chunk_capacity p = 65536 \<and> dom m \<subseteq> used p"

lemma find_key: "distinct (map f xs) \<Longrightarrow> x \<in> set xs \<Longrightarrow> find (\<lambda>y. f y = f x) xs = Some x"
  by (induction xs) (auto simp: rev_image_eqI)

lemma block_fits:
  assumes "pool_inv p" and "{b} \<times> {x..<x + n} \<subseteq> extent p" and "0 < n"
  shows "\<exists>c. find (\<lambda>c. ck_block c = b) (pl_chunks p) = Some c \<and> x + n \<le> ck_capacity c"
proof -
  have "(b, x + n - 1) \<in> extent p" using assms(2,3) by auto
  then obtain c where c: "c \<in> set (pl_chunks p)" "ck_block c = b" "x + n - 1 < ck_capacity c"
    by (auto simp: extent_def)
  have "distinct (map ck_block (pl_chunks p))" using assms(1) by (simp add: pool_inv_def)
  then have "find (\<lambda>d. ck_block d = ck_block c) (pl_chunks p) = Some c" using c(1) by (rule find_key)
  then show ?thesis using c(2,3) by auto
qed

lemma block_stored:
  assumes "doc_mem_ok p m" and "grants_to g N" and "65536 \<le> N" and "16 * length vs \<le> N" and "vs \<noteq> []"
  obtains b x q where "Malloc g (16 * length vs) p = (At b x, q)" "block_write q (At b x) vs m = Some (cells_at b x vs m)"
    "doc_mem_ok q (cells_at b x vs m)" "m \<subseteq>\<^sub>m cells_at b x vs m"
proof -
  let ?n = "16 * length vs"
  have N: "N \<le> 2 ^ 60" "\<And>k. k \<le> 2 * N + 512 \<Longrightarrow> g k" using assms(2) by (simp_all add: grants_to_def)
  have n: "?n \<le> max_block" "0 < ?n" using N(1) assms(4,5) by (simp_all add: max_block_def)
  have p: "pool_inv p" "pl_chunk_capacity p = 65536" "dom m \<subseteq> used p" using assms(1) by (simp_all add: doc_mem_ok_def)
  obtain b x q where r: "Malloc g ?n p = (At b x, q)"
    using Malloc_gives [OF p(1) n(1,2), of g] N(2) p(2) assms(3,4) by auto
  then have gv: "gives p (At b x) ?n q" using Malloc_correct [OF p(1) n(1), of g] by simp
  have "align8 ?n = ?n" using N(1) assms(4) by (simp add: align8_def sz_add_def)
  then have g: "pool_inv q" "used p \<inter> {b} \<times> {x..<x + ?n} = {}" "{b} \<times> {x..<x + ?n} \<subseteq> used q" "used p \<subseteq> used q"
    "pl_chunk_capacity q = 65536" using gv p(2) by (simp_all add: gives_def)
  have "{b} \<times> {x..<x + ?n} \<subseteq> extent q" using g(3) used_extent [OF g(1)] by blast
  then obtain c where c: "find (\<lambda>c. ck_block c = b) (pl_chunks q) = Some c" "x + ?n \<le> ck_capacity c"
    using block_fits [OF g(1)] n(2) by blast
  show thesis
  proof (rule that [OF r])
    show "block_write q (At b x) vs m = Some (cells_at b x vs m)" using c by simp
    have "dom (cells_at b x vs m) \<subseteq> used q" using cells_at_dom [of b x vs m] g(3,4) p(3) by blast
    then show "doc_mem_ok q (cells_at b x vs m)" using g(1,5) by (simp add: doc_mem_ok_def)
    show "m \<subseteq>\<^sub>m cells_at b x vs m" using g(2) p(3) by (intro cells_at_le) blast
  qed
qed

lemma stored_cells:
  "list_all2 (rep m) vs xs \<Longrightarrow> m \<subseteq>\<^sub>m cells_at b x vs m \<Longrightarrow> rep_cells (cells_at b x vs m) (At b x) xs"
  by (rule cells_at_rep) (auto intro: cells_at_nth)

text \<open>\<^verbatim>\<open>SetArrayRaw\<close> and \<^verbatim>\<open>SetObjectRaw\<close> share all but the type of the value.\<close>

definition sets_to :: "document \<Rightarrow> gvalue \<times> document \<Rightarrow> node \<Rightarrow> bool" where
  "sets_to d q x \<longleftrightarrow> (case q of (v, d') \<Rightarrow> rep (doc_mem d') v x \<and> doc_stack d' = doc_stack d \<and>
     doc_mem_ok (doc_pool d') (doc_mem d') \<and> doc_mem d \<subseteq>\<^sub>m doc_mem d')"

lemma SetArrayRaw_correct:
  assumes "doc_mem_ok (doc_pool d) (doc_mem d)" and "grants_to g N" and "65536 \<le> N" and "16 * length vs \<le> N"
    and "list_all2 (rep (doc_mem d)) vs xs"
  shows "\<exists>q. SetArrayRaw g vs (length vs) d = Some q \<and> sets_to d q (NArr xs)"
proof (cases "vs = []")
  case True
  then show ?thesis using assms(1,5) by (simp add: SetArrayRaw_def sets_to_def)
next
  case False
  have n: "sz_mul (length vs) 16 = 16 * length vs" "length vs \<noteq> 0"
    using assms(2,4) False by (simp_all add: sz_mul_def grants_to_def)
  obtain b x p where b: "Malloc g (16 * length vs) (doc_pool d) = (At b x, p)"
    "block_write p (At b x) vs (doc_mem d) = Some (cells_at b x vs (doc_mem d))"
    "doc_mem_ok p (cells_at b x vs (doc_mem d))" "doc_mem d \<subseteq>\<^sub>m cells_at b x vs (doc_mem d)"
    using block_stored [OF assms(1-4) False] .
  show ?thesis
    using b n stored_cells [OF assms(5) b(4)] list_all2_lengthD [OF assms(5)]
    by (simp add: SetArrayRaw_def sets_to_def del: block_write.simps)
qed

lemma SetObjectRaw_correct:
  assumes "doc_mem_ok (doc_pool d) (doc_mem d)" and "grants_to g N" and "65536 \<le> N" and "16 * length vs \<le> N"
    and "list_all2 (rep (doc_mem d)) vs xs" and "length vs = 2 * k"
  shows "\<exists>q. SetObjectRaw g vs k d = Some q \<and> sets_to d q (NObj (pairs xs))"
proof (cases "vs = []")
  case True
  then show ?thesis using assms(1,5,6) by (simp add: SetObjectRaw_def sets_to_def)
next
  case False
  have n: "sz_mul k 32 = 16 * length vs" using assms(2,4,6) by (simp add: sz_mul_def grants_to_def)
  have "k \<noteq> 0" using assms(6) False by (cases k) simp_all
  obtain b x p where b: "Malloc g (16 * length vs) (doc_pool d) = (At b x, p)"
    "block_write p (At b x) vs (doc_mem d) = Some (cells_at b x vs (doc_mem d))"
    "doc_mem_ok p (cells_at b x vs (doc_mem d))" "doc_mem d \<subseteq>\<^sub>m cells_at b x vs (doc_mem d)"
    using block_stored [OF assms(1-4) False] .
  have l: "length xs = 2 * k" using list_all2_lengthD [OF assms(5)] assms(6) by simp
  have "rep_members (cells_at b x vs (doc_mem d)) (At b x) (pairs xs) \<and> length (pairs xs) = k"
    using rep_pairs [OF _ stored_cells [OF assms(5) b(4)]] l by simp
  then show ?thesis
    using b n \<open>k \<noteq> 0\<close> by (simp add: SetObjectRaw_def Realloc_def sets_to_def del: block_write.simps)
qed

text \<open>The values above the top of the stack can still be read.\<close>

lemma those_Some: "those (map Some xs) = Some xs"
  by (induction xs) simp_all

lemma stk_Pop_read:
  assumes "stk_holds 16 N (xs @ ys) s"
  shows "\<exists>s'. stk_Pop (length ys) s = Some s' \<and> stk_holds 16 N xs s' \<and> stk_top s' = length xs \<and>
    stk_read (length xs) (length ys) s' = Some ys"
proof -
  obtain s' where s: "stk_Pop (length ys) s = Some s'" "stk_holds 16 N xs s'" using stk_Pop_holds [OF assms] by auto
  have a: "take (length xs + length ys) (stk_cells s) = map Some (xs @ ys)" "length (stk_cells s) = stk_bytes s div 16"
    "16 * (length xs + length ys) \<le> stk_bytes s"
    using assms by (simp_all add: stk_holds_def)
  then have l: "length xs + length ys \<le> length (stk_cells s)"
    by (simp add: less_eq_div_iff_mult_less_eq mult.commute)
  have c: "stk_cells s' = stk_cells s" using s(1) by (auto simp: stk_Pop_def split: if_splits)
  have "take (length ys) (drop (length xs) (stk_cells s)) = drop (length xs) (take (length xs + length ys) (stk_cells s))"
    by (simp add: drop_take)
  also have "\<dots> = map Some ys" unfolding a(1) by simp
  finally have "take (length ys) (drop (length xs) (stk_cells s)) = map Some ys" .
  then have "stk_read (length xs) (length ys) s' = Some ys" using l by (simp add: stk_read_def c those_Some)
  then show ?thesis using s by (auto simp: stk_holds_def)
qed

lemma doc_close_correct:
  assumes "stk_holds 16 N (us @ v # vs) (doc_stack d)" and "n = length vs"
    and "\<And>d'. doc_mem d' = doc_mem d \<Longrightarrow> doc_pool d' = doc_pool d \<Longrightarrow> \<exists>q. raw vs d' = Some q \<and> sets_to d' q x"
  shows "\<exists>d' w. doc_close raw n d = Some d' \<and> stk_holds 16 N (us @ [w]) (doc_stack d') \<and> rep (doc_mem d') w x \<and>
    doc_mem_ok (doc_pool d') (doc_mem d') \<and> doc_mem d \<subseteq>\<^sub>m doc_mem d'"
proof -
  obtain s where s: "stk_Pop n (doc_stack d) = Some s" "stk_holds 16 N (us @ [v]) s" "stk_top s = Suc (length us)"
    "stk_read (Suc (length us)) n s = Some vs"
    using stk_Pop_read [of N "us @ [v]" vs "doc_stack d"] assms(1,2) by auto
  obtain w d1 where w: "raw vs (d\<lparr>doc_stack := s\<rparr>) = Some (w, d1)" "sets_to (d\<lparr>doc_stack := s\<rparr>) (w, d1) x"
    using assms(3) [of "d\<lparr>doc_stack := s\<rparr>"] by auto
  have t: "stk_Top s = Some v" using stk_Top_holds(1) [OF s(2)] by simp
  obtain s2 where s2: "stk_write (length us) [w] s = Some s2" "stk_holds 16 N (us @ [w]) s2"
    using stk_Top_holds(2) [OF s(2), of w] s(3) by auto
  have "doc_close raw n d = Some (d1\<lparr>doc_stack := s2\<rparr>)"
    using s w t s2 by (simp add: doc_close_def sets_to_def)
  then show ?thesis using w(2) s2(2) by (auto simp: sets_to_def)
qed

section \<open>The reader fills the memory\<close>

text \<open>
  \<open>doc_rel\<close>: the stack holds the values of the list, the last one on top, and all stay small, because
  every value took a character. \<open>run_ok\<close>: the run with the document is defined and ends like the run
  that keeps lists.
\<close>

definition doc_rel :: "nat \<Rightarrow> reader \<Rightarrow> document \<Rightarrow> bool" where
  "doc_rel N s d \<longleftrightarrow>
     (\<exists>vs. stk_holds 16 N (rev vs) (doc_stack d) \<and> list_all2 (rep (doc_mem d)) vs (jr_stack s)) \<and>
     doc_mem_ok (doc_pool d) (doc_mem d) \<and> length (jr_stack s) \<le> jr_src s \<and> jr_src s < length (jr_mem s) \<and>
     length (jr_mem s) < 2 ^ 32 \<and> 16 * length (jr_mem s) \<le> N"

definition run_ok :: "nat \<Rightarrow> unit parsed \<Rightarrow> doc_run \<Rightarrow> bool" where
  "run_ok N p q \<longleftrightarrow> (case p of (r, t) \<Rightarrow>
     \<exists>d. q = Some (r, t, d) \<and> pool_inv (doc_pool d) \<and> (\<not> isl r \<longrightarrow> doc_rel N t d))"

definition doc_room :: "(nat \<Rightarrow> bool) \<Rightarrow> nat \<Rightarrow> bool" where
  "doc_room g N \<longleftrightarrow> grants_to g N \<and> 65536 \<le> N"

lemma doc_relI:
  assumes "stk_holds 16 N (rev vs) (doc_stack d)" and "list_all2 (rep (doc_mem d)) vs (jr_stack t)"
    and "doc_mem_ok (doc_pool d) (doc_mem d)" and "length (jr_stack t) \<le> jr_src t" and "jr_src t < length (jr_mem t)"
    and "length (jr_mem t) < 2 ^ 32" and "16 * length (jr_mem t) \<le> N"
  shows "doc_rel N t d"
  using assms unfolding doc_rel_def by blast

lemma doc_relD:
  assumes "doc_rel N s d"
  shows "doc_mem_ok (doc_pool d) (doc_mem d)" "length (jr_stack s) \<le> jr_src s" "jr_src s < length (jr_mem s)"
    "length (jr_mem s) < 2 ^ 32" "16 * length (jr_mem s) \<le> N"
  using assms by (simp_all add: doc_rel_def)

lemma doc_rel_pool: "doc_rel N s d \<Longrightarrow> pool_inv (doc_pool d)"
  by (simp add: doc_rel_def doc_mem_ok_def)

lemma doc_rel_step: "doc_rel N s d \<Longrightarrow> jr_step k s t \<Longrightarrow> jr_stack t = jr_stack s \<Longrightarrow> doc_rel N t d"
  by (auto simp: doc_rel_def jr_step_def jr_inv_def)

lemma run_ok_fail: "doc_rel N s d \<Longrightarrow> run_ok N (parse_fail e k t) (with_doc d (parse_fail e k t))"
  by (auto simp: run_ok_def with_doc_def parse_fail_def doc_rel_pool)

lemma run_ok_bind:
  assumes "run_ok N p q" and "\<And>t d. p = (Inr (), t) \<Longrightarrow> doc_rel N t d \<Longrightarrow> run_ok N (f () t) (h t d)"
  shows "run_ok N (pbind p f) (dbind q h)"
proof -
  obtain r t where p: "p = (r, t)" by (cases p)
  obtain d where d: "q = Some (r, t, d)" "pool_inv (doc_pool d)" "\<not> isl r \<longrightarrow> doc_rel N t d"
    using assms(1) p by (auto simp: run_ok_def)
  show ?thesis
  proof (cases r)
    case (Inl e)
    then show ?thesis using p d by (simp add: pbind_def dbind_def run_ok_def)
  next
    case (Inr a)
    then show ?thesis using assms(2) p d by (simp add: pbind_def dbind_def)
  qed
qed

text \<open>A value that is pushed: those the handler constructs represent themselves.\<close>

lemma doc_push_rel:
  assumes "doc_room g N" and "doc_rel N s d" and "jr_step k s t" and "jr_src s < jr_src t" and "jr_stack t = x # jr_stack s"
    and "\<And>m. rep m (constructed x) x"
  shows "\<exists>d'. doc_push g x d = Some d' \<and> doc_rel N t d'"
proof -
  obtain vs where vs: "stk_holds 16 N (rev vs) (doc_stack d)" "list_all2 (rep (doc_mem d)) vs (jr_stack s)"
    using assms(2) by (auto simp: doc_rel_def)
  have t: "jr_src t < length (jr_mem t)" "length (jr_mem t) = length (jr_mem s)"
    using assms(3) by (simp_all add: jr_step_def jr_inv_def)
  have s: "length (jr_stack s) \<le> jr_src s" "16 * length (jr_mem s) \<le> N" using assms(2) by (simp_all add: doc_rel_def)
  have l: "length vs = length (jr_stack s)" using vs(2) by (rule list_all2_lengthD)
  have g: "grants_to g N" using assms(1) by (simp add: doc_room_def)
  have "16 * (length (rev vs) + 1) \<le> N" using l s t assms(4) by simp
  then obtain s1 s2 where p: "stk_Push g 16 1 (doc_stack d) = Some (length vs, s1)"
    "stk_write (length vs) [constructed x] s1 = Some s2" "stk_holds 16 N (rev (constructed x # vs)) s2"
    using stk_Push_one [OF g vs(1), of "constructed x"] by auto
  have "doc_push g x d = Some (d\<lparr>doc_stack := s2\<rparr>)" using p by (simp add: doc_push_def)
  moreover have "list_all2 (rep (doc_mem d)) (constructed x # vs) (jr_stack t)" using vs(2) assms(5,6) by simp
  then have "doc_rel N t (d\<lparr>doc_stack := s2\<rparr>)"
    using p(3) t s(1) assms(4,5) doc_relD [OF assms(2)] by (intro doc_relI [of N "constructed x # vs"]) simp_all
  ultimately show ?thesis by blast
qed

lemma doc_value_run:
  assumes "doc_room g N" and "doc_rel N s d" and "value_ok s p"
    and "\<And>t. p = (Inr (), t) \<Longrightarrow> \<forall>m. rep m (constructed (hd (jr_stack t))) (hd (jr_stack t))"
  shows "run_ok N p (doc_value g p d)"
proof -
  obtain r t where p: "p = (r, t)" by (cases p)
  show ?thesis
  proof (cases r)
    case (Inl e)
    then show ?thesis using p doc_rel_pool [OF assms(2)] by (simp add: doc_value_def dbind_def with_doc_def run_ok_def)
  next
    case (Inr a)
    note okD = value_okD [OF assms(3) [unfolded p]]
    obtain x where x: "jr_src s < jr_src t" "jr_stack t = x # jr_stack s" using okD(3) Inr by auto
    have "\<forall>m. rep m (constructed x) x" using assms(4) [of t] p Inr x(2) by simp
    then obtain d' where "doc_push g x d = Some d'" "doc_rel N t d'"
      using doc_push_rel [OF assms(1,2) okD(1) x] by auto
    then show ?thesis using p Inr x(2) doc_rel_pool [of N t d']
      by (simp add: doc_value_def dbind_def with_doc_def run_ok_def)
  qed
qed

text \<open>A closing bracket.\<close>

lemma doc_close_rel:
  assumes "doc_rel N s d" and "jr_stack s = xs @ y # base" and "n = length xs"
    and raw: "\<And>vs d'. list_all2 (rep (doc_mem d)) vs (rev xs) \<Longrightarrow> doc_mem d' = doc_mem d \<Longrightarrow> doc_pool d' = doc_pool d \<Longrightarrow>
      \<exists>q. raw vs d' = Some q \<and> sets_to d' q x"
    and t: "jr_stack t = x # base" "jr_src t = jr_src s" "jr_mem t = jr_mem s"
  shows "\<exists>d'. doc_close raw n d = Some d' \<and> doc_rel N t d'"
proof -
  obtain vs where vs: "stk_holds 16 N (rev vs) (doc_stack d)" "list_all2 (rep (doc_mem d)) vs (xs @ y # base)"
    using assms(1,2) by (auto simp: doc_rel_def)
  obtain va v vb where v: "vs = va @ v # vb" "list_all2 (rep (doc_mem d)) va xs" "list_all2 (rep (doc_mem d)) vb base"
    using vs(2) by (auto simp: list_all2_append2 list_all2_Cons2)
  have h: "stk_holds 16 N (rev vb @ v # rev va) (doc_stack d)" using vs(1) v(1) by simp
  have n: "n = length (rev va)" using list_all2_lengthD [OF v(2)] assms(3) by simp
  have r: "list_all2 (rep (doc_mem d)) (rev va) (rev xs)" using v(2) by (simp add: list_all2_rev)
  obtain d' w where d: "doc_close raw n d = Some d'" "stk_holds 16 N (rev vb @ [w]) (doc_stack d')" "rep (doc_mem d') w x"
    "doc_mem_ok (doc_pool d') (doc_mem d')" "doc_mem d \<subseteq>\<^sub>m doc_mem d'"
    using doc_close_correct [where raw = raw and x = x, OF h n raw [OF r]] by blast
  have h': "stk_holds 16 N (rev (w # vb)) (doc_stack d')" using d(2) by simp
  have "list_all2 (rep (doc_mem d')) vb base" by (rule list_all2_mono [OF v(3)]) (rule rep_mono(1) [OF _ d(5)])
  then have "list_all2 (rep (doc_mem d')) (w # vb) (jr_stack t)" using d(3) t(1) by simp
  with h' have "doc_rel N t d'"
    by (rule doc_relI) (use assms(2) t d(4) doc_relD [OF assms(1)] in simp_all)
  then show ?thesis using d(1) by blast
qed

lemma doc_counts:
  assumes "doc_rel N s d" and "jr_stack s = xs @ y # base"
  shows "to_size (length xs) = length xs" "16 * length xs \<le> N" "doc_mem_ok (doc_pool d) (doc_mem d)"
  using assms by (auto simp: doc_rel_def to_size_def)

lemma EndArray_rel:
  assumes "doc_room g N" and "doc_rel N s d" and "open_list k lo base s"
  shows "\<exists>d'. doc_EndArray g (to_size k) d = Some d' \<and> doc_rel N (EndArray k s) d'"
proof -
  obtain xs y where x: "jr_stack s = xs @ y # base" "length xs = k" using assms(3) by (auto simp: open_list_def)
  note c = doc_counts [OF assms(2) x(1)]
  have "\<exists>q. SetArrayRaw g vs k d' = Some q \<and> sets_to d' q (NArr (rev xs))"
    if "list_all2 (rep (doc_mem d)) vs (rev xs)" "doc_mem d' = doc_mem d" "doc_pool d' = doc_pool d" for vs d'
    using SetArrayRaw_correct [of d' g N vs "rev xs"] list_all2_lengthD [OF that(1)] that c x(2) assms(1)
    by (simp add: doc_room_def)
  then have "\<exists>d'. doc_close (\<lambda>vs. SetArrayRaw g vs k) k d = Some d' \<and> doc_rel N (EndArray k s) d'"
    by (intro doc_close_rel [OF assms(2) x(1)]) (use x EndArray_stack [OF x] in auto)
  then show ?thesis using c(1) x(2) by (simp add: doc_EndArray_def)
qed

lemma EndObject_rel:
  assumes "doc_room g N" and "doc_rel N s d" and "open_list (2 * k) lo base s"
  shows "\<exists>d'. doc_EndObject g (to_size k) d = Some d' \<and> doc_rel N (EndObject k s) d'"
proof -
  obtain xs y where x: "jr_stack s = xs @ y # base" "length xs = 2 * k" using assms(3) by (auto simp: open_list_def)
  note c = doc_counts [OF assms(2) x(1)]
  have k: "to_size k = k" using c(1) x(2) by (simp add: to_size_def)
  have "\<exists>q. SetObjectRaw g vs k d' = Some q \<and> sets_to d' q (NObj (pairs (rev xs)))"
    if "list_all2 (rep (doc_mem d)) vs (rev xs)" "doc_mem d' = doc_mem d" "doc_pool d' = doc_pool d" for vs d'
    using SetObjectRaw_correct [of d' g N vs "rev xs" k] list_all2_lengthD [OF that(1)] that c x(2) assms(1)
    by (simp add: doc_room_def)
  then have "\<exists>d'. doc_close (\<lambda>vs. SetObjectRaw g vs k) (2 * k) d = Some d' \<and> doc_rel N (EndObject k s) d'"
    by (intro doc_close_rel [OF assms(2) x(1)]) (use x EndObject_stack [OF x] in auto)
  then show ?thesis using k by (simp add: doc_EndObject_def)
qed

text \<open>The parts that read one value without nesting.\<close>

lemma constructed_string:
  assumes "within lo hi (NStr p l)" and "hi < 2 ^ 32"
  shows "rep m (constructed (NStr p l)) (NStr p l)"
  using assms by (simp add: to_size_def)

lemma constructed_number: "is_number x \<Longrightarrow> rep m (constructed x) x"
  by (cases x) simp_all

lemma string_run:
  assumes "doc_room g N" and "doc_rel N s d" and "jr_inv s" and "jr_Peek s = CHR 0x22"
  shows "run_ok N (ParseString s) (doc_value g (ParseString s) d)"
proof (rule doc_value_run [OF assms(1,2) string_value [OF assms(3,4)]])
  fix t assume t: "ParseString s = (Inr (), t)"
  then obtain p l u where u: "t = push (NStr p l) u"
    by (auto simp: ParseString_def pbind_def Let_def split: prod.splits sum.splits)
  note okD = value_okD [OF string_value [OF assms(3,4), unfolded t]]
  have "within (jr_src s) (jr_src t) (NStr p l)" using okD(3) u by auto
  moreover have "jr_src t < length (jr_mem t)" using jr_stepD(1) [OF okD(1)] by (simp add: jr_inv_def)
  then have "jr_src t < 2 ^ 32" using jr_stepD(3) [OF okD(1)] doc_relD(4) [OF assms(2)] by linarith
  ultimately show "\<forall>m. rep m (constructed (hd (jr_stack t))) (hd (jr_stack t))"
    using u by (simp add: to_size_def)
qed

lemma literal_run:
  assumes "doc_room g N" and "doc_rel N s d" and "jr_inv s" and "jr_Peek s \<noteq> NUL" and "NUL \<notin> set cs"
    and "within (jr_src s) (jr_src s) x" and "\<And>m. rep m (constructed x) x"
  shows "run_ok N (parse_literal cs x s) (doc_value g (parse_literal cs x s) d)"
proof (rule doc_value_run [OF assms(1,2) literal_value [OF assms(3-6)]])
  fix t assume "parse_literal cs x s = (Inr (), t)"
  then show "\<forall>m. rep m (constructed (hd (jr_stack t))) (hd (jr_stack t))"
    using assms(7) by (auto simp: parse_literal_def parse_fail_def split: prod.splits bool.splits)
qed

lemma number_run:
  assumes "doc_room g N" and "doc_rel N s d" and "jr_inv s"
  shows "run_ok N (ParseNumber D s) (doc_value g (ParseNumber D s) d)"
proof (rule doc_value_run [OF assms(1,2) number_value [OF assms(3)]])
  fix t assume "ParseNumber D s = (Inr (), t)"
  from number_cases [OF this] obtain x u where "is_number x" "t = push x u" by auto
  then show "\<forall>m. rep m (constructed (hd (jr_stack t))) (hd (jr_stack t))"
    by (simp add: constructed_number)
qed

section \<open>The induction\<close>

text \<open>A separator or a closing bracket after a value.\<close>

lemma after_run:
  assumes v: "jr_inv v" "doc_rel N v d" "open_list m lo base v"
    and again: "\<And>w. jr_inv w \<Longrightarrow> left w < left v \<Longrightarrow> open_list m lo base w \<Longrightarrow> doc_rel N w d \<Longrightarrow>
      run_ok N (again w) (dagain w d)"
    and close: "\<And>w. open_list m lo base w \<Longrightarrow> doc_rel N w d \<Longrightarrow> \<exists>d'. dclose d = Some d' \<and> doc_rel N (fin w) d'"
    and c: "c \<noteq> NUL"
  shows "run_ok N
      (let w = SkipWhitespace v in
       if jr_Peek w = CHR '','' then again (SkipWhitespace (jr_Take w))
       else if jr_Peek w = c then (Inr (), fin (jr_Take w))
       else parse_fail e (jr_src w) w)
      (let w = SkipWhitespace v in
       if jr_Peek w = CHR '','' then dagain (SkipWhitespace (jr_Take w)) d
       else if jr_Peek w = c then do { d \<leftarrow> dclose d; Some (Inr (), fin (jr_Take w), d) }
       else with_doc d (parse_fail e (jr_src w) w))"
proof -
  let ?w = "SkipWhitespace v"
  note w = skipped [OF v(1)]
  have ow: "open_list m lo base ?w" by (rule open_list_mono [OF v(3) w(4,3)])
  have rw: "doc_rel N ?w d" by (rule doc_rel_step [OF v(2) w(2,4)])
  consider (comma) "jr_Peek ?w = CHR '',''" | (close) "jr_Peek ?w \<noteq> CHR '',''" "jr_Peek ?w = c"
    | (neither) "jr_Peek ?w \<noteq> CHR '',''" "jr_Peek ?w \<noteq> c" by blast
  then show ?thesis
  proof cases
    case comma
    then have n: "jr_Peek ?w \<noteq> NUL" by simp
    let ?x = "SkipWhitespace (jr_Take ?w)"
    have t: "jr_step 0 ?w (jr_Take ?w)" by (rule Take_step [OF w(1) n])
    note x = skipped [OF jr_stepD(1) [OF t]]
    have "left ?x < left v" using x(5) left_Take [OF n] w(5) by linarith
    moreover have "open_list m lo base ?x" using open_list_mono [OF ow] x(3,4) by simp
    moreover have "doc_rel N ?x d" by (rule doc_rel_step [OF rw jr_step_trans1 [OF t x(2)]]) (simp add: x(4))
    ultimately have "run_ok N (again ?x) (dagain ?x d)" using again x(1) by blast
    then show ?thesis using comma by (simp add: Let_def)
  next
    case close: close
    then have n: "jr_Peek ?w \<noteq> NUL" using c by simp
    have "open_list m lo base (jr_Take ?w)" using open_list_mono [OF ow] by simp
    moreover have "doc_rel N (jr_Take ?w) d" by (rule doc_rel_step [OF rw Take_step [OF w(1) n]]) simp
    ultimately obtain d' where "dclose d = Some d'" "doc_rel N (fin (jr_Take ?w)) d'" using assms(5) by blast
    then show ?thesis using close doc_rel_pool by (auto simp: Let_def run_ok_def)
  next
    case neither
    then show ?thesis using run_ok_fail [OF rw] by (simp add: Let_def)
  qed
qed

lemma elements_run:
  assumes g: "doc_room g N"
    and val: "\<And>s d. jr_inv s \<Longrightarrow> 2 * left s + 1 \<le> n \<Longrightarrow> doc_rel N s d \<Longrightarrow> run_ok N (ParseValue D n s) (dParseValue D g n s d)"
    and elements: "\<And>k s d. jr_inv s \<Longrightarrow> 2 * left s + 2 \<le> n \<Longrightarrow> open_list k lo base s \<Longrightarrow> doc_rel N s d \<Longrightarrow>
      run_ok N (ParseElements D n k s) (dParseElements D g n k s d)"
    and s: "jr_inv s" "2 * left s + 2 \<le> Suc n" "open_list k lo base s" "doc_rel N s d"
  shows "run_ok N (ParseElements D (Suc n) k s) (dParseElements D g (Suc n) k s d)"
  unfolding ParseElements.simps dParseElements.simps
proof (rule run_ok_bind)
  show "run_ok N (ParseValue D n s) (dParseValue D g n s d)" using val s by simp
  fix v d' assume v: "ParseValue D n s = (Inr (), v)" "doc_rel N v d'"
  have ok: "value_ok s (Inr (), v)" using value_total [OF s(1), of n D] s(2) v(1) by simp
  note okD = value_okD [OF ok]
  have l: "left v < left s" using okD by (intro step_less_left) auto
  show "run_ok N
      (let w = SkipWhitespace v in
       if jr_Peek w = CHR '','' then ParseElements D n (Suc k) (SkipWhitespace (jr_Take w))
       else if jr_Peek w = CHR '']'' then (Inr (), EndArray (Suc k) (jr_Take w))
       else parse_fail ArrayMissCommaOrSquareBracket (jr_src w) w)
      (let w = SkipWhitespace v in
       if jr_Peek w = CHR '','' then dParseElements D g n (Suc k) (SkipWhitespace (jr_Take w)) d'
       else if jr_Peek w = CHR '']'' then do {
         d \<leftarrow> doc_EndArray g (to_size (Suc k)) d';
         Some (Inr (), EndArray (Suc k) (jr_Take w), d)
       }
       else with_doc d' (parse_fail ArrayMissCommaOrSquareBracket (jr_src w) w))"
  proof (rule after_run [OF jr_stepD(1) [OF okD(1)] v(2) value_push [OF ok s(3)]])
    show "run_ok N (ParseElements D n (Suc k) w) (dParseElements D g n (Suc k) w d')"
      if "jr_inv w" "left w < left v" "open_list (Suc k) lo base w" "doc_rel N w d'" for w
      using elements [of w "Suc k" d'] that l s(2) by simp
    show "\<exists>d. doc_EndArray g (to_size (Suc k)) d' = Some d \<and> doc_rel N (EndArray (Suc k) w) d"
      if "open_list (Suc k) lo base w" "doc_rel N w d'" for w
      by (rule EndArray_rel [OF g that(2,1)])
  qed simp
qed

text \<open>The value of a member, behind its name and the colon.\<close>

lemma members_value_run:
  assumes g: "doc_room g N"
    and val: "\<And>s d. jr_inv s \<Longrightarrow> 2 * left s + 1 \<le> n \<Longrightarrow> doc_rel N s d \<Longrightarrow> run_ok N (ParseValue D n s) (dParseValue D g n s d)"
    and members: "\<And>k s d. jr_inv s \<Longrightarrow> 2 * left s + 2 \<le> n \<Longrightarrow> open_list (2 * k) lo base s \<Longrightarrow> doc_rel N s d \<Longrightarrow>
      run_ok N (ParseMembers D n k s) (dParseMembers D g n k s d)"
    and s: "jr_inv s" "2 * left s + 2 \<le> n" "open_list (Suc (2 * k)) lo base s" "doc_rel N s d"
  shows "run_ok N
      (pbind (ParseValue D n s) (\<lambda>_ v. let w = SkipWhitespace v in
         if jr_Peek w = CHR '','' then ParseMembers D n (Suc k) (SkipWhitespace (jr_Take w))
         else if jr_Peek w = CHR ''}'' then (Inr (), EndObject (Suc k) (jr_Take w))
         else parse_fail ObjectMissCommaOrCurlyBracket (jr_src w) w))
      (dbind (dParseValue D g n s d) (\<lambda>v d. let w = SkipWhitespace v in
         if jr_Peek w = CHR '','' then dParseMembers D g n (Suc k) (SkipWhitespace (jr_Take w)) d
         else if jr_Peek w = CHR ''}'' then do {
           d \<leftarrow> doc_EndObject g (to_size (Suc k)) d;
           Some (Inr (), EndObject (Suc k) (jr_Take w), d)
         }
         else with_doc d (parse_fail ObjectMissCommaOrCurlyBracket (jr_src w) w)))"
proof (rule run_ok_bind)
  show "run_ok N (ParseValue D n s) (dParseValue D g n s d)" using val s by simp
  fix v d' assume v: "ParseValue D n s = (Inr (), v)" "doc_rel N v d'"
  have ok: "value_ok s (Inr (), v)" using value_total [OF s(1), of n D] s(2) v(1) by simp
  note okD = value_okD [OF ok]
  have l: "left v < left s" using okD by (intro step_less_left) auto
  have o: "open_list (2 * Suc k) lo base v" using value_push [OF ok s(3)] by simp
  show "run_ok N
      (let w = SkipWhitespace v in
       if jr_Peek w = CHR '','' then ParseMembers D n (Suc k) (SkipWhitespace (jr_Take w))
       else if jr_Peek w = CHR ''}'' then (Inr (), EndObject (Suc k) (jr_Take w))
       else parse_fail ObjectMissCommaOrCurlyBracket (jr_src w) w)
      (let w = SkipWhitespace v in
       if jr_Peek w = CHR '','' then dParseMembers D g n (Suc k) (SkipWhitespace (jr_Take w)) d'
       else if jr_Peek w = CHR ''}'' then do {
         d \<leftarrow> doc_EndObject g (to_size (Suc k)) d';
         Some (Inr (), EndObject (Suc k) (jr_Take w), d)
       }
       else with_doc d' (parse_fail ObjectMissCommaOrCurlyBracket (jr_src w) w))"
  proof (rule after_run [OF jr_stepD(1) [OF okD(1)] v(2) o])
    show "run_ok N (ParseMembers D n (Suc k) w) (dParseMembers D g n (Suc k) w d')"
      if "jr_inv w" "left w < left v" "open_list (2 * Suc k) lo base w" "doc_rel N w d'" for w
      using members [of w "Suc k" d'] that l s(2) by simp
    show "\<exists>d. doc_EndObject g (to_size (Suc k)) d' = Some d \<and> doc_rel N (EndObject (Suc k) w) d"
      if "open_list (2 * Suc k) lo base w" "doc_rel N w d'" for w
      by (rule EndObject_rel [OF g that(2,1)])
  qed simp
qed

text \<open>What follows the name.\<close>

lemma members_colon_run:
  assumes g: "doc_room g N"
    and val: "\<And>s d. jr_inv s \<Longrightarrow> 2 * left s + 1 \<le> n \<Longrightarrow> doc_rel N s d \<Longrightarrow> run_ok N (ParseValue D n s) (dParseValue D g n s d)"
    and members: "\<And>k s d. jr_inv s \<Longrightarrow> 2 * left s + 2 \<le> n \<Longrightarrow> open_list (2 * k) lo base s \<Longrightarrow> doc_rel N s d \<Longrightarrow>
      run_ok N (ParseMembers D n k s) (dParseMembers D g n k s d)"
    and t: "jr_inv t" "2 * left t + 2 \<le> n" "open_list (Suc (2 * k)) lo base t" "doc_rel N t d"
  shows "run_ok N
   (case Consume (CHR '':'') (SkipWhitespace t) of
      (False, s) \<Rightarrow> parse_fail ObjectMissColon (jr_src s) s
    | (True, s) \<Rightarrow>
        pbind (ParseValue D n (SkipWhitespace s)) (\<lambda>_ v. let w = SkipWhitespace v in
          if jr_Peek w = CHR '','' then ParseMembers D n (Suc k) (SkipWhitespace (jr_Take w))
          else if jr_Peek w = CHR ''}'' then (Inr (), EndObject (Suc k) (jr_Take w))
          else parse_fail ObjectMissCommaOrCurlyBracket (jr_src w) w))
   (case Consume (CHR '':'') (SkipWhitespace t) of
      (False, s) \<Rightarrow> with_doc d (parse_fail ObjectMissColon (jr_src s) s)
    | (True, s) \<Rightarrow>
        dbind (dParseValue D g n (SkipWhitespace s) d) (\<lambda>v d. let w = SkipWhitespace v in
          if jr_Peek w = CHR '','' then dParseMembers D g n (Suc k) (SkipWhitespace (jr_Take w)) d
          else if jr_Peek w = CHR ''}'' then do {
            d \<leftarrow> doc_EndObject g (to_size (Suc k)) d;
            Some (Inr (), EndObject (Suc k) (jr_Take w), d)
          }
          else with_doc d (parse_fail ObjectMissCommaOrCurlyBracket (jr_src w) w)))"
proof -
  let ?u = "SkipWhitespace t"
  note u = skipped [OF t(1)]
  have ru: "doc_rel N ?u d" by (rule doc_rel_step [OF t(4) u(2,4)])
  show ?thesis
  proof (cases "jr_Peek ?u = CHR '':''")
    case False
    then show ?thesis using run_ok_fail [OF ru] by (simp add: Consume_def)
  next
    case colon: True
    then have n: "jr_Peek ?u \<noteq> NUL" by simp
    let ?x = "SkipWhitespace (jr_Take ?u)"
    have a: "jr_step 0 ?u (jr_Take ?u)" by (rule Take_step [OF u(1) n])
    note x = skipped [OF jr_stepD(1) [OF a]]
    have l: "2 * left ?x + 2 \<le> n" using x(5) left_Take [OF n] u(5) t(2) by linarith
    have ox: "open_list (Suc (2 * k)) lo base ?x" using open_list_mono [OF t(3)] u(3,4) x(3,4) by simp
    have rx: "doc_rel N ?x d" by (rule doc_rel_step [OF ru jr_step_trans1 [OF a x(2)]]) (simp add: x(4))
    show ?thesis using members_value_run [OF g val members x(1) l ox rx] colon by (simp add: Consume_def)
  qed
qed

lemma members_run:
  assumes g: "doc_room g N"
    and val: "\<And>s d. jr_inv s \<Longrightarrow> 2 * left s + 1 \<le> n \<Longrightarrow> doc_rel N s d \<Longrightarrow> run_ok N (ParseValue D n s) (dParseValue D g n s d)"
    and members: "\<And>k s d. jr_inv s \<Longrightarrow> 2 * left s + 2 \<le> n \<Longrightarrow> open_list (2 * k) lo base s \<Longrightarrow> doc_rel N s d \<Longrightarrow>
      run_ok N (ParseMembers D n k s) (dParseMembers D g n k s d)"
    and s: "jr_inv s" "2 * left s + 2 \<le> Suc n" "open_list (2 * k) lo base s" "doc_rel N s d"
  shows "run_ok N (ParseMembers D (Suc n) k s) (dParseMembers D g (Suc n) k s d)"
proof (cases "jr_Peek s = CHR 0x22")
  case False
  then show ?thesis using run_ok_fail [OF s(4)] by simp
next
  case quote: True
  show ?thesis unfolding ParseMembers.simps dParseMembers.simps quote simp_thms if_False
  proof (rule run_ok_bind [OF string_run [OF g s(4,1) quote]], rule members_colon_run [OF g val members])
    fix t d' assume t: "ParseString s = (Inr (), t)" "doc_rel N t d'"
    have ok: "value_ok s (Inr (), t)" using string_value [OF s(1) quote] t(1) by simp
    note okD = value_okD [OF ok]
    show "jr_inv t" by (rule jr_stepD(1) [OF okD(1)])
    have "left t < left s" using okD by (intro step_less_left) auto
    then show "2 * left t + 2 \<le> n" using s(2) by simp
    show "open_list (Suc (2 * k)) lo base t" by (rule value_push [OF ok s(3)])
  qed
qed

lemma value_run:
  assumes g: "doc_room g N"
    and members: "\<And>k lo base s d. jr_inv s \<Longrightarrow> 2 * left s + 2 \<le> n \<Longrightarrow> open_list (2 * k) lo base s \<Longrightarrow> doc_rel N s d \<Longrightarrow>
      run_ok N (ParseMembers D n k s) (dParseMembers D g n k s d)"
    and elements: "\<And>k lo base s d. jr_inv s \<Longrightarrow> 2 * left s + 2 \<le> n \<Longrightarrow> open_list k lo base s \<Longrightarrow> doc_rel N s d \<Longrightarrow>
      run_ok N (ParseElements D n k s) (dParseElements D g n k s d)"
    and s: "jr_inv s" "2 * left s + 1 \<le> Suc n" "doc_rel N s d"
  shows "run_ok N (ParseValue D (Suc n) s) (dParseValue D g (Suc n) s d)"
proof -
  consider (literal) "jr_Peek s = CHR ''n'' \<or> jr_Peek s = CHR ''t'' \<or> jr_Peek s = CHR ''f''"
    | (string) "jr_Peek s = CHR 0x22" | (object) "jr_Peek s = CHR ''{''" | (array) "jr_Peek s = CHR ''[''"
    | (number) "jr_Peek s \<notin> {CHR ''n'', CHR ''t'', CHR ''f'', CHR 0x22, CHR ''{'', CHR ''[''}" by blast
  then show ?thesis
  proof cases
    case literal
    then have n: "jr_Peek s \<noteq> NUL" by auto
    note l = literal_run [OF g s(3,1) n]
    show ?thesis using literal l [of "''ull''" NNull] l [of "''rue''" "NBool True"] l [of "''alse''" "NBool False"]
      by (auto simp: ParseNull_def ParseTrue_def ParseFalse_def)
  next
    case string
    then show ?thesis using string_run [OF g s(3,1)] by simp
  next
    case object
    obtain b t where t: "start_object s = (b, t)" by (cases "start_object s")
    note st = start_object_step [OF s(1) object t]
    obtain d' where d: "doc_push g (NObj []) d = Some d'" "doc_rel N t d'"
      using doc_push_rel [OF g s(3), of "jr_src s" t "NObj []"] st by auto
    show ?thesis
    proof (cases b)
      case True
      have "open_list (2 * 0) (jr_src s) (jr_stack s) t" using st by (simp add: open_list_def)
      from EndObject_rel [OF g d(2) this] obtain d2 where "doc_EndObject g 0 d' = Some d2" "doc_rel N (EndObject 0 t) d2"
        by (auto simp: to_size_def)
      moreover have "EndObject 0 t = t" using st by (simp add: EndObject_def)
      ultimately show ?thesis using object t True d doc_rel_pool by (auto simp: run_ok_def)
    next
      case False
      have "open_list (2 * 0) (jr_src s) (jr_stack s) t" using st by (simp add: open_list_def)
      moreover have "2 * left t + 2 \<le> n" using step_less_left [of "jr_src s" s t] st s(2) by simp
      ultimately have "run_ok N (ParseMembers D n 0 t) (dParseMembers D g n 0 t d')"
        using members jr_stepD(1) st d(2) by blast
      then show ?thesis using object t False d(1) by simp
    qed
  next
    case array
    obtain b t where t: "start_array s = (b, t)" by (cases "start_array s")
    note st = start_array_step [OF s(1) array t]
    obtain d' where d: "doc_push g (NArr []) d = Some d'" "doc_rel N t d'"
      using doc_push_rel [OF g s(3), of "jr_src s" t "NArr []"] st by auto
    show ?thesis
    proof (cases b)
      case True
      have "open_list 0 (jr_src s) (jr_stack s) t" using st by (simp add: open_list_def)
      from EndArray_rel [OF g d(2) this] obtain d2 where "doc_EndArray g 0 d' = Some d2" "doc_rel N (EndArray 0 t) d2"
        by (auto simp: to_size_def)
      moreover have "EndArray 0 t = t" using st by (simp add: EndArray_def)
      ultimately show ?thesis using array t True d doc_rel_pool by (auto simp: run_ok_def)
    next
      case False
      have "open_list 0 (jr_src s) (jr_stack s) t" using st by (simp add: open_list_def)
      moreover have "2 * left t + 2 \<le> n" using step_less_left [of "jr_src s" s t] st s(2) by simp
      ultimately have "run_ok N (ParseElements D n 0 t) (dParseElements D g n 0 t d')"
        using elements jr_stepD(1) st d(2) by blast
      then show ?thesis using array t False d(1) by simp
    qed
  next
    case number
    then show ?thesis using number_run [OF g s(3,1), of D] by simp
  qed
qed

lemma document_runs:
  assumes g: "doc_room g N"
  shows "(\<forall>s d. jr_inv s \<longrightarrow> 2 * left s + 1 \<le> n \<longrightarrow> doc_rel N s d \<longrightarrow> run_ok N (ParseValue D n s) (dParseValue D g n s d)) \<and>
    (\<forall>k lo base s d. jr_inv s \<longrightarrow> 2 * left s + 2 \<le> n \<longrightarrow> open_list (2 * k) lo base s \<longrightarrow> doc_rel N s d \<longrightarrow>
       run_ok N (ParseMembers D n k s) (dParseMembers D g n k s d)) \<and>
    (\<forall>k lo base s d. jr_inv s \<longrightarrow> 2 * left s + 2 \<le> n \<longrightarrow> open_list k lo base s \<longrightarrow> doc_rel N s d \<longrightarrow>
       run_ok N (ParseElements D n k s) (dParseElements D g n k s d))"
proof (induction n)
  case (Suc n)
  then have v: "\<And>s d. jr_inv s \<Longrightarrow> 2 * left s + 1 \<le> n \<Longrightarrow> doc_rel N s d \<Longrightarrow> run_ok N (ParseValue D n s) (dParseValue D g n s d)"
    and m: "\<And>k lo base s d. jr_inv s \<Longrightarrow> 2 * left s + 2 \<le> n \<Longrightarrow> open_list (2 * k) lo base s \<Longrightarrow> doc_rel N s d \<Longrightarrow>
      run_ok N (ParseMembers D n k s) (dParseMembers D g n k s d)"
    and e: "\<And>k lo base s d. jr_inv s \<Longrightarrow> 2 * left s + 2 \<le> n \<Longrightarrow> open_list k lo base s \<Longrightarrow> doc_rel N s d \<Longrightarrow>
      run_ok N (ParseElements D n k s) (dParseElements D g n k s d)"
    by blast+
  have "run_ok N (ParseValue D (Suc n) s) (dParseValue D g (Suc n) s d)"
    if "jr_inv s" "2 * left s + 1 \<le> Suc n" "doc_rel N s d" for s d
    by (rule value_run [OF g m e that])
  moreover have "run_ok N (ParseMembers D (Suc n) k s) (dParseMembers D g (Suc n) k s d)"
    if "jr_inv s" "2 * left s + 2 \<le> Suc n" "open_list (2 * k) lo base s" "doc_rel N s d" for k lo base s d
    by (rule members_run [OF g v m that])
  moreover have "run_ok N (ParseElements D (Suc n) k s) (dParseElements D g (Suc n) k s d)"
    if "jr_inv s" "2 * left s + 2 \<le> Suc n" "open_list k lo base s" "doc_rel N s d" for k lo base s d
    by (rule elements_run [OF g v e that])
  ultimately show ?case by blast
qed simp

lemma dParse_run:
  assumes g: "doc_room g N" and "doc_rel N (reader_of text) d" 
  shows "run_ok N (Parse D (2 * length text + 3) (reader_of text)) (dParse D g (2 * length text + 3) (reader_of text) d)"
proof -
  let ?n = "2 * length text + 3"
  let ?s = "SkipWhitespace (reader_of text)"
  note s = skipped [OF reader_of_inv(1) [of "text"]]
  have rs: "doc_rel N ?s d" by (rule doc_rel_step [OF assms(2) s(2,4)])
  show ?thesis
  proof (cases "jr_Peek ?s = NUL")
    case True
    then show ?thesis using run_ok_fail [OF rs] by (simp add: Parse_def dParse_def Let_def)
  next
    case False
    have l: "2 * left ?s + 1 \<le> ?n" using s(5) reader_of_inv(2) [of "text"] by simp
    have "run_ok N (pbind (ParseValue D ?n ?s) (\<lambda>_ s. let s = SkipWhitespace s in
          if jr_Peek s \<noteq> NUL then parse_fail DocumentRootNotSingular (jr_src s) s else (Inr (), s)))
        (dbind (dParseValue D g ?n ?s d) (\<lambda>s d. let s = SkipWhitespace s in
          if jr_Peek s \<noteq> NUL then with_doc d (parse_fail DocumentRootNotSingular (jr_src s) s) else Some (Inr (), s, d)))"
    proof (rule run_ok_bind)
      show "run_ok N (ParseValue D ?n ?s) (dParseValue D g ?n ?s d)"
        using document_runs [OF g, of ?n D] s(1) l rs by blast
      fix t d' assume t: "ParseValue D ?n ?s = (Inr (), t)" "doc_rel N t d'"
      have "value_ok ?s (Inr (), t)" using value_total [OF s(1) l, of D] t(1) by simp
      note w = skipped [OF jr_stepD(1) [OF value_okD(1) [OF this]]]
      have "doc_rel N (SkipWhitespace t) d'" by (rule doc_rel_step [OF t(2) w(2,4)])
      then show "run_ok N
          (let s = SkipWhitespace t in if jr_Peek s \<noteq> NUL then parse_fail DocumentRootNotSingular (jr_src s) s else (Inr (), s))
          (let s = SkipWhitespace t in
           if jr_Peek s \<noteq> NUL then with_doc d' (parse_fail DocumentRootNotSingular (jr_src s) s) else Some (Inr (), s, d'))"
        using run_ok_fail doc_rel_pool by (auto simp: Let_def run_ok_def)
    qed
    then show ?thesis using False by (simp add: Parse_def dParse_def Let_def)
  qed
qed

lemma doc_init_rel:
  assumes "grants_to g (65536 + 16 * (length text + 1))" and "length text + 1 < 2 ^ 32"
  shows "doc_rel (65536 + 16 * (length text + 1)) (reader_of text) doc_init"
proof (rule doc_relI [of _ "[]"])
  show "stk_holds 16 (65536 + 16 * (length text + 1)) (rev []) (doc_stack doc_init)"
    by (simp add: doc_init_def stk_holds_def stk_init_def)
  show "doc_mem_ok (doc_pool doc_init) (doc_mem doc_init)"
    using pool_init_inv [of 65536] by (simp add: doc_init_def doc_mem_ok_def pool_init_def max_block_def)
qed (use assms(2) in \<open>simp_all add: reader_of_def doc_init_def\<close>)

section \<open>The theorem\<close>

text \<open>
  C20. \<^verbatim>\<open>ParseInsitu\<close> on its memory, for every text below the range of \<^verbatim>\<open>SizeType\<close> and an allocator
  that still gives blocks of the size it can need: no access leaves the stack or the blocks of the pool, an error leaves
  a null document, a success a root whose blocks hold the value of the list model, and the allocator frees every
  block it took once.
\<close>

theorem document_in_memory:
  assumes "length text + 1 < 2 ^ 32" and "grants_to grants (65536 + 16 * (length text + 1))"
  shows "\<exists>r mem root d. doc_ParseInsitu D grants text = Some (r, mem, root, d) \<and>
    (case ParseInsitu D text of
       Inl (msg, off) \<Rightarrow> (\<exists>e. r = Inl (Failed e off) \<and> msg = GetParseError_En e) \<and> root = GNull
     | Inr j \<Rightarrow> r = Inr () \<and> (\<exists>x. rep (doc_mem d) root x \<and> resolve mem x = j)) \<and>
    pool_destroy (doc_pool d) = rev [0..<pl_blocks (doc_pool d)]"
proof -
  let ?N = "65536 + 16 * (length text + 1)"
  have g: "doc_room grants ?N" using assms(2) by (simp add: doc_room_def)
  obtain r t where t: "Parse D (2 * length text + 3) (reader_of text) = (r, t)"
    by (cases "Parse D (2 * length text + 3) (reader_of text)")
  obtain d where d: "dParse D grants (2 * length text + 3) (reader_of text) doc_init = Some (r, t, d)"
    "pool_inv (doc_pool d)" "\<not> isl r \<longrightarrow> doc_rel ?N t d"
    using dParse_run [OF g doc_init_rel [OF assms(2,1)], of D] t by (auto simp: run_ok_def)
  have free: "pool_destroy (doc_pool d) = rev [0..<pl_blocks (doc_pool d)]" by (rule destroy_frees_all [OF d(2)])
  note total = Parse_total [OF t]
  show ?thesis
  proof (cases r)
    case (Inl f)
    then obtain e off where "f = Failed e off" using total by (cases f) (auto simp: ends_ok_def)
    then show ?thesis using Inl t d(1) free
      by (simp add: doc_ParseInsitu_def ParseInsitu_def doc_ClearStack_def)
  next
    case (Inr a)
    then obtain x where x: "jr_stack t = [x]" using total by auto
    obtain vs where vs: "stk_holds 16 ?N (rev vs) (doc_stack d)" "list_all2 (rep (doc_mem d)) vs [x]"
      using d(3) Inr x by (auto simp: doc_rel_def)
    then obtain v where v: "vs = [v]" "rep (doc_mem d) v x" by (auto simp: list_all2_Cons2)
    obtain s where s: "stk_Pop 1 (doc_stack d) = Some s" "stk_top s = 0" "stk_read 0 1 s = Some [v]"
      using stk_Pop_read [of ?N "[]" "[v]" "doc_stack d"] vs(1) v(1) by auto
    show ?thesis using Inr t d(1) free x v(2) s
      by (auto simp: doc_ParseInsitu_def ParseInsitu_def doc_ClearStack_def)
  qed
qed

text \<open>A short text, and what its run leaves in memory: one chunk, with the members in front of the inner array.\<close>

definition document_text :: string where
  "document_text = ''{'' @ [CHR 0x22] @ ''a'' @ [CHR 0x22] @ '':[1,true]}''"

lemma document_in_memory_witness:
  "\<exists>r mem root d x. doc_ParseInsitu no_doubles (\<lambda>_. True) document_text = Some (r, mem, root, d) \<and> r = Inr () \<and>
     rep (doc_mem d) root x \<and> resolve mem x = JObj [(''a'', JArr [JInt 1, JBool True])]"
proof -
  have r: "render (\<lambda>_. []) (JObj [(''a'', JArr [JInt 1, JBool True])]) = document_text"
    by code_simp
  have p: "ParseInsitu no_doubles document_text = Inr (JObj [(''a'', JArr [JInt 1, JBool True])])"
    unfolding r [symmetric] by (rule value_text_read) simp
  have "grants_to (\<lambda>_. True) (65536 + 16 * (length document_text + 1))"
    by (simp add: grants_to_def document_text_def)
  then show ?thesis
    using document_in_memory [of document_text "\<lambda>_. True" no_doubles] unfolding p
    by (auto simp: document_text_def)
qed

end
