(* ===== verification/Kes_Tests.thy ===== *)
theory Kes_Tests
  imports Kes_JsonReader Kes_BagJson Kes_FixedString
begin

text \<open>
  The expectations of the unit tests (\<^verbatim>\<open>src/tests/propertybag.cpp\<close>, \<^verbatim>\<open>exception.cpp\<close>,
  \<^verbatim>\<open>fixedstring.cpp\<close>), evaluated on the definitions of the other theories: what the authors of the
  program expect of it holds of the model.
\<close>

section \<open>Property bags\<close>

text \<open>\<^verbatim>\<open>registerProps\<close>: the properties the tests declare, in a registry of their own.\<close>

definition test_properties :: "pinfo list" where
  "test_properties =
     [property_info TBool ''BoolProperty'' ''bool'' BoolFormatter TBool,
      property_info TInt ''IntProperty'' ''int'' (IntegralFormatter TInt) TInt,
      property_info TUInt ''UIntProperty'' ''unsigned int'' (IntegralFormatter TUInt) TUInt,
      property_info TInt64 ''Int64Property'' ''int64_t'' (IntegralFormatter TInt64) TInt64,
      property_info TUInt64 ''UInt64Property'' ''uint64_t'' (IntegralFormatter TUInt64) TUInt64,
      property_info TString ''StringProperty'' ''std::string'' StringFormatter TString,
      property_info TArray ''IntArray'' ''int[]'' NullFormatter TInt]"

definition test_registry :: registry where
  "test_registry = snd (registerAll test_properties empty_registry)"

definition test_env :: env where
  "test_env = \<lparr>env_reg = test_registry, env_type_name = (\<lambda>_. [])\<rparr>"

definition test_document :: json where
  "test_document = JObj
     [(''IntArray'', JArr [JInt 1, JInt 2, JInt 3]),
      (''Table1'', JObj [(''BoolProperty'', JBool True), (''IntProperty'', JInt 13)]),
      (''Int64Property'', JInt (- 67)),
      (''Table2'', JObj
         [(''Table21'', JObj [(''StringProperty'', JStr ''some text''), (''BoolProperty'', JBool False)]),
          (''IntArray'', JArr [JInt 0, JInt 9, JInt 8, JInt 7]),
          (''IntProperty'', JInt (- 5))])]"

text \<open>The text of the test; \<open>quotes\<close> stands for its escaped quotation marks.\<close>

definition quotes :: "string \<Rightarrow> string" where
  "quotes s = map (\<lambda>c. if c = CHR 0x60 then CHR 0x22 else c) s"

definition test_text :: string where
  "test_text = quotes (''{`IntArray`:[1,2,3],`Table1`:{`BoolProperty`:true,`IntProperty`:13},`Int64Property`:-67,'' @
     ''`Table2`:{`Table21`:{`StringProperty`:`some text`,`BoolProperty`:false},'' @
     ''`IntArray`:[0,9,8,7],`IntProperty`:-5}}'')"

lemma test_crc32 [simp]:
  "crc32 ''BoolProperty'' = 0xe9bc0152" "crc32 ''IntProperty'' = 0xb345917d" "crc32 ''UIntProperty'' = 0x7cfcbe2" "crc32 ''Int64Property'' = 0xbb6281e6"
  "crc32 ''UInt64Property'' = 0xc6051b53" "crc32 ''StringProperty'' = 0xf3fe4f0a" "crc32 ''IntArray'' = 0xbe25486e"
  by (simp_all add: crc32_eval)

lemma test_registered: "fst (registerAll test_properties empty_registry) = Ok ()"
  by (simp add: test_properties_def registerProperty_def um_insert_cases empty_registry_def um_empty_def property_info_def)

lemma test_registry_names:
  "propsByName test_registry = map (\<lambda>p. (pi_idstr p, p)) test_properties"
  "propsById test_registry = map (\<lambda>p. (pi_id p, p)) test_properties"
  by (simp_all add: test_registry_def test_properties_def registerProperty_def um_insert_cases empty_registry_def
      um_empty_def um_find_def)

lemma test_names [simp]:
  "lookupPropertyName (env_reg test_env) s = map_of (map (\<lambda>p. (pi_idstr p, p)) test_properties) (cstr s)"
  by (simp add: lookupPropertyName_def test_env_def test_registry_names um_find_def)

lemma test_text_render: "render (\<lambda>_. []) test_document = test_text"
  by code_simp

lemma test_text_read: "ParseInsitu D test_text = Inr test_document"
  unfolding test_text_render [symmetric] by (rule value_text_read) (simp add: test_document_def)

text \<open>The scalar of a member, as the tests look at it.\<close>

definition value_at :: "string list \<Rightarrow> bag \<Rightarrow> any_val option" where
  "value_at path b =
     (case foldl (\<lambda>b key. case b of Some (TableBag _ t) \<Rightarrow> um_find t key | _ \<Rightarrow> None) (Some b) path of
        Some (PropBag _ p) \<Rightarrow> Some (p_value p)
      | _ \<Rightarrow> None)"

definition items_at :: "string list \<Rightarrow> bag \<Rightarrow> any_val list option" where
  "items_at path b =
     (case foldl (\<lambda>b key. case b of Some (TableBag _ t) \<Rightarrow> um_find t key | _ \<Rightarrow> None) (Some b) path of
        Some (ArrayBag _ a) \<Rightarrow> those (map (\<lambda>i. case i of PropBag _ p \<Rightarrow> Some (p_value p) | _ \<Rightarrow> None) a)
      | _ \<Rightarrow> None)"

definition as_expected :: "bag \<Rightarrow> bool" where
  "as_expected b \<longleftrightarrow>
     isTable b \<and> omap length (bag_table b) = Ok 4 \<and>
     items_at [''IntArray''] b = Some [AInt 1, AInt 2, AInt 3] \<and>
     value_at [''Table1'', ''BoolProperty''] b = Some (ABool True) \<and>
     value_at [''Table1'', ''IntProperty''] b = Some (AInt 13) \<and>
     value_at [''Int64Property''] b = Some (AInt64 (- 67)) \<and>
     value_at [''Table2'', ''Table21'', ''StringProperty''] b = Some (AString ''some text'') \<and>
     value_at [''Table2'', ''Table21'', ''BoolProperty''] b = Some (ABool False) \<and>
     items_at [''Table2'', ''IntArray''] b = Some [AInt 0, AInt 9, AInt 8, AInt 7] \<and>
     value_at [''Table2'', ''IntProperty''] b = Some (AInt (- 5))"

lemma test_propertyBagFromJson:
  "\<exists>b. propertyBagFromJson (ParseInsitu D) test_env eh test_text s = (Ok b, s) \<and> as_expected b"
  by (simp add: propertyBagFromJson_def test_text_read test_document_def propertyFromJsonValue_def itemFromJsonScalar_def
      known_scalar_def json_int_def um_insert_cases um_empty_def test_properties_def as_expected_def value_at_def
      items_at_def um_find_def)

section \<open>Exceptions\<close>

lemma test_exception_simple: "ex_what (Exception ''Test exception'' []) = ''Test exception''"
  by (simp add: cstr_def)

lemma test_exception_props:
  "let e = ex_add 2 (AInt 1991) (ex_add 1 (ACStr ''value1'') (Exception ''Test exception 2'' [])) in
     ex_what e = ''Test exception 2'' \<and> map_option length (ex_properties e) = Some 2 \<and>
     map_option p_value (ex_find e 1) = Some (ACStr ''value1'') \<and> map_option p_value (ex_find e 2) = Some (AInt 1991)"
  by (simp add: ex_add_def Exception_def addProp_def ex_what_def ex_properties_def ex_find_def cstr_def)

lemma test_exception_known_props:
  "let e = Exception ''POSIX exception'' [(pi_id PosixErrorCode, AInt 2), (pi_id DecodedError, AString ''ENOENT'')] in
     ex_what e = ''POSIX exception'' \<and> map_option length (ex_properties e) = Some 2 \<and>
     map_option p_value (ex_find e (pi_id PosixErrorCode)) = Some (AInt 2) \<and>
     map_option p_value (ex_find e (pi_id DecodedError)) = Some (AString ''ENOENT'')"
  by (simp add: Exception_def addProp_def ex_what_def ex_properties_def ex_find_def cstr_def declared_defs)

section \<open>Fixed strings\<close>

text \<open>The tests \<^verbatim>\<open>construct\<close> and \<^verbatim>\<open>iterate\<close>; the tests \<^verbatim>\<open>compare\<close> and \<^verbatim>\<open>3w_compare\<close>.\<close>

lemma test_fixed_construct:
  "fs_empty FixedString_empty" "fs_empty (FixedString 10 [])"
  "fs_length (FixedString 10 ''abcdef'') = 6 \<and> fs_view (FixedString 10 ''abcdef'') = ''abcdef''"
  "fs_length (FixedString 3 ''abcdef'') = 3 \<and> fs_view (FixedString 3 ''abcdef'') = ''abc''"
  "fs_view (FixedString_copy 20 (FixedString 10 ''abcdef'')) = ''abcdef''"
  "fs_view (FixedString_copy 3 (FixedString 10 ''abcdef'')) = ''abc''"
  "fs_forward (FixedString 10 ''abcdef'') = ''abcdef''" "fs_backward (FixedString 10 ''abcdef'') = ''fedcba''"
  by code_simp+

lemma test_fixed_compare:
  "fs_compare_fixed FixedString_empty FixedString_empty = 0"
  "fs_compare_fixed (FixedString 10 ''abc'') (FixedString 20 ''abc'') = 0"
  "fs_compare_fixed (FixedString 10 ''abc'') (FixedString 10 ''def'') < 0"
  "fs_compare_fixed (FixedString 10 ''abc'') (FixedString 10 ''abcdef'') < 0"
  "fs_compare_fixed (FixedString 10 ''def'') (FixedString 10 ''abc'') > 0"
  "fs_compare_fixed (FixedString 10 ''abcdef'') (FixedString 10 ''abc'') > 0"
  "fs_compare FixedString_empty [] = 0" "fs_compare (FixedString 10 ''abc'') ''abc'' = 0"
  "fs_compare (FixedString 10 ''abc'') ''abcdef'' < 0" "fs_compare (FixedString 10 ''abcdef'') ''abc'' > 0"
  "fs_eq (FixedString 10 ''abc'') (FixedString 20 ''abc'')" "\<not> fs_eq (FixedString 10 ''abc'') (FixedString 10 ''abcdef'')"
  "fs_ordering (FixedString 10 ''abc'') (FixedString 10 ''def'') = Less"
  "fs_ordering (FixedString 10 ''abcdef'') (FixedString 10 ''abc'') = Greater"
  "fs_eq_cstr (FixedString 10 ''abc'') ''abc''" "\<not> fs_eq_cstr (FixedString 10 ''abc'') ''def''"
  "fs_ordering_view (FixedString 10 ''abc'') ''abcdef'' = Less" "fs_ordering_view (FixedString 10 ''def'') ''abc'' = Greater"
  by code_simp+

lemma test_propertyBagToJson:
  "\<exists>b out b'. propertyBagFromJson (ParseInsitu D) test_env eh test_text s = (Ok b, s) \<and>
     propertyBagToJson test_registry b = Ok out \<and>
     propertyBagFromJson (ParseInsitu D) test_env eh out s = (Ok b', s) \<and> as_expected b'"
proof -
  have env: "env_reg test_env = test_registry" by (simp add: test_env_def)
  have free: "lookupProperty (env_reg test_env) InvalidPropId = None"
    by (simp add: lookupProperty_def test_env_def test_registry_names um_find_def test_properties_def InvalidPropId_def)
  have "conforming (env_reg test_env) [] test_document"
    by (simp add: test_document_def test_properties_def type_of_name_def base_of_name_def
        scalar_ok_def key_ok_def known_scalar_def)
  then obtain b where b: "bagFromJson test_env eh [] test_document s = (Ok b, s)"
      "reads_back (env_reg test_env) (\<lambda>_. []) [] test_document b"
    using conforming_reads_back(1) [OF refl free, of "[]" test_document eh s "\<lambda>_. []"] by blast
  have r: "propertyBagFromJson (ParseInsitu D) test_env eh test_text s = (Ok b, s)"
    using b(1) by (simp add: propertyBagFromJson_def test_text_read)
  have "propertyBagToJson test_registry b = Ok test_text"
    using b(2) test_text_render
    by (simp add: propertyBagToJson_def reads_back_def jw_GetString_def put_value_def jw_put_def jw_Prefix_def jw_init_def env)
  then show ?thesis using r test_propertyBagFromJson [of D eh s] by auto
qed

end
