(* ===== verification/Spec2Isabelle.thy ===== *)
theory Spec2Isabelle
  imports Kes_System Kes_NetUtil Kes_ProcFiles Kes_Client Kes_Condition Kes_TcpServer Kes_FixedString Kes_Handles Kes_Main Kes_Format Kes_BagMemory Kes_Connection Kes_Document Kes_Tests
begin

text \<open>
  kexplorer-server: a server that answers JSON requests of clients on a TCP connection with the
  processes of the machine it runs on. This development models the program between the socket and
  \<^verbatim>\<open>/proc\<close>: what happens to the bytes a client sends until an answer leaves, and the state that is
  kept meanwhile. Paths below are relative to \<^verbatim>\<open>src/\<close> of the repository.

  The parts of the program and how they interact. \<^verbatim>\<open>main\<close> (\<^verbatim>\<open>src/kexplorer-server/main.cxx\<close>)
  registers the known properties, makes the request processor, and registers two handlers with it, the
  global command handler and the process manager. Every connection gets a session handler, which
  collects the bytes of the client in a continuous buffer, counts braces to find the end of a message,
  and passes the message on as a C string. The request processor parses it, turns the JSON value into a
  property bag with the help of the property registry, dispatches the command to the handlers
  registered under its name, and prints the bag they fill as the answer. The process manager keeps one
  session record per connection with the processes that client knows.

  Theories and sources.
  \<^item> \<open>Kes_Prelude\<close>: machine types, C strings, number formats, the collections of rewrite rules.
  \<^item> \<open>Kes_Crc32\<close> (\<^verbatim>\<open>include/kesrv/util/crc32.hxx\<close>): the table-driven checksum that makes the
    numeric id of a property from its name, proved equal to the bitwise definition.
  \<^item> \<open>Kes_Property\<close> (\<^verbatim>\<open>property.hxx\<close>, \<^verbatim>\<open>exception.hxx\<close>): typed values (\<^verbatim>\<open>std::any\<close>),
    descriptions, exceptions with their context of properties, and \<open>outcome\<close>, the ways in which a call
    can end: a value, an exception, \<^verbatim>\<open>std::terminate\<close>, undefined behaviour.
  \<^item> \<open>Kes_Containers\<close>: the unordered map and multimap of the C++ library as lists in iteration order;
    the locale \<open>unordered_map\<close> states the laws that hold for every such order.
  \<^item> \<open>Kes_Registry\<close> (\<^verbatim>\<open>knownprops.cxx\<close>, \<^verbatim>\<open>init.cxx\<close>, the declarations in \<^verbatim>\<open>request.hxx\<close> and
    \<^verbatim>\<open>processprops.hxx\<close>): the two indexes and their agreement, the start-up registration.
  \<^item> \<open>Kes_Itoa\<close>, \<open>Kes_Json\<close> (rapidjson's \<^verbatim>\<open>internal/itoa.h\<close>, \<^verbatim>\<open>writer.h\<close>, the type tests of
    \<^verbatim>\<open>document.h\<close>): the digits of the integer types and the event writer; \<open>render\<close> is the specification
    of the text of a value.
  \<^item> \<open>Kes_JsonBuffer\<close>, \<open>Kes_BagMemory\<close> (rapidjson's \<^verbatim>\<open>internal/stack.h\<close>, \<^verbatim>\<open>stringbuffer.h\<close>,
    \<^verbatim>\<open>writer.h\<close>): the same writer on the growing blocks it writes to, every access checked; the locale
    \<open>output_stream\<close> is what the writer needs of its stream. Then the printing of a bag as the calls it makes.
  \<^item> \<open>Kes_JsonStream\<close>, \<open>Kes_JsonNumber\<close>, \<open>Kes_JsonReader\<close> (rapidjson's \<^verbatim>\<open>reader.h\<close>,
    \<^verbatim>\<open>stream.h\<close>, \<^verbatim>\<open>encodings.h\<close>, \<^verbatim>\<open>internal/strtod.h\<close>, \<^verbatim>\<open>error/en.h\<close>, the handler in
    \<^verbatim>\<open>document.h\<close>): the in-situ reader, which decodes strings into the text it reads; the memory is explicit.
    A node of the document is a pointer into the text; \<open>resolve\<close> gives the value it stands for.
  \<^item> \<open>Kes_Pool\<close>, \<open>Kes_Document\<close> (rapidjson's \<^verbatim>\<open>allocators.h\<close>, \<^verbatim>\<open>document.h\<close>): the pool allocator as
    independent arrays, and the document that the reader fills, on its stack and in the blocks of the pool, every
    access checked; the reader is run again with this handler and shown to leave the value the list model has.
  \<^item> \<open>Kes_PropertyBag\<close>, \<open>Kes_BagJson\<close>, \<open>Kes_BagText\<close> (\<^verbatim>\<open>propertybag.hxx\<close>, \<^verbatim>\<open>requestutil.hxx\<close>,
    \<^verbatim>\<open>propertybag.cxx\<close>): the bag, its conversion from JSON under an error handler that may tolerate or
    abort, and its conversion to text.
  \<^item> \<open>Kes_Log\<close>, \<open>Kes_World\<close> (\<^verbatim>\<open>log.hxx\<close>, \<^verbatim>\<open>logger.cxx\<close>): the log, and the record every state
    extends.
  \<^item> \<open>Kes_Requests\<close> (\<^verbatim>\<open>requestutil.cxx\<close>): the texts of the simple request and the failure response.
  \<^item> \<open>Kes_RequestProcessor\<close> (\<^verbatim>\<open>requestprocessor.cxx\<close>): registration, dispatch, the error paths. A
    handler is a value; its virtual methods are a \<open>vtable\<close>. The locale \<open>request_handlers\<close> is what
    the processor needs of its handlers, and which commands may be undefined, \<open>session_listeners\<close> what
    makes repeated notification harmless.
  \<^item> \<open>Kes_Buffer\<close> (\<^verbatim>\<open>continuousbuffer.hxx\<close>, \<^verbatim>\<open>readbuffer.hxx\<close>): the two buffers on explicit memory,
    \<^verbatim>\<open>size_t\<close> as 64-bit words; the locale \<open>byte_queue\<close> is the abstract queue.
  \<^item> \<open>Kes_Framing\<close>, \<open>Kes_Session\<close>, \<open>Kes_Wire\<close> (\<^verbatim>\<open>sessionhandler.cxx\<close>): the brace counter with its
    specification \<open>balance\<close>, the session handler and the abstract session it refines, whose only state is
    the sequence of the bytes not yet delivered; and which of the documents the program writes are one
    message for that counter.
  \<^item> \<open>Kes_GlobalCmd\<close> (\<^verbatim>\<open>globalcmdhandler.cxx\<close>, \<^verbatim>\<open>condition.hxx\<close>) and \<open>Kes_ProcessManager\<close>
    (\<^verbatim>\<open>processmanager.cxx\<close>): the two handlers.
  \<^item> \<open>Kes_Server\<close> (\<^verbatim>\<open>main.cxx\<close>): the handlers in one vtable, the processor with its four commands,
    and the interpretation of the handler contracts on them. This theory states the properties
    of the server as a whole.

  \<^item> \<open>Kes_CLib\<close>: what the C library does with the texts the program reads (\<^verbatim>\<open>strtol\<close>, \<^verbatim>\<open>strtoul\<close>,
    \<^verbatim>\<open>std::getline\<close>, ...). \<open>Kes_NetUtil\<close> (\<^verbatim>\<open>netutil.cxx\<close>): an address and its port.
  \<^item> \<open>Kes_ProcFs\<close>, \<open>Kes_ProcStat\<close>, \<open>Kes_ProcFiles\<close> (\<^verbatim>\<open>procfs.cxx\<close>): the readers of \<^verbatim>\<open>/proc\<close> over a
    record of system calls, and what they read from the files a kernel writes.
  \<^item> \<open>Kes_ExceptionText\<close> (\<^verbatim>\<open>exceptionutil.cxx\<close>): the report of an exception with its nested ones.
  \<^item> \<open>Kes_Client\<close> (\<^verbatim>\<open>src/kesctl/client.cxx\<close>): the client as a state machine over completions.
  \<^item> \<open>Kes_Condition\<close> (\<^verbatim>\<open>condition.hxx\<close>): setting and waiting as steps of concurrent threads.
  \<^item> \<open>Kes_TcpServer\<close> (\<^verbatim>\<open>tcpserver.hxx\<close>): the connections and their pending operations, as a state machine
    over completions; a handler that runs on a destroyed session is undefined behaviour.
  \<^item> \<open>Kes_FixedString\<close> (\<^verbatim>\<open>fixedstring.hxx\<close>), \<open>Kes_Handles\<close> (\<^verbatim>\<open>autoptr.hxx\<close>,
    \<^verbatim>\<open>generichandle.hxx\<close>): bounded strings and their order; who owns a resource, with the locale \<open>owner\<close>
    as the contract of \<^verbatim>\<open>reset\<close>.
  \<^item> \<open>Kes_Main\<close> (\<^verbatim>\<open>main.cxx\<close>, \<^verbatim>\<open>iorunner.hxx\<close>): the start of the server, and its threads from the
    construction of the parts to their destruction. A run is a list of choices, which thread goes on and which
    handler a worker starts; \<open>dangling\<close> says that a thread is about to touch a destroyed part.
  \<^item> \<open>Kes_Ctl\<close> (\<^verbatim>\<open>src/kesctl/main.cxx\<close>): the main program of \<^verbatim>\<open>kesctl\<close>, from its options to its exit
    code. \<open>Kes_System\<close>: both programs together, connected by a stream that may cut what is sent.
    \<open>Kes_Connection\<close>: one connection of the TCP server among all the others, from the pieces it receives
    to the bytes its socket takes.
  \<^item> \<open>Kes_Format\<close> (\<^verbatim>\<open>format.cxx\<close>, \<^verbatim>\<open>posixerror_posix.cxx\<close>): the buffers around \<^verbatim>\<open>vsnprintf\<close> and
    \<^verbatim>\<open>strerror_r\<close>.
  \<^item> \<open>Kes_Tests\<close> (\<^verbatim>\<open>src/tests\<close>): the expectations of the unit tests, which hold of the model.

  What the groups of lemmas show. For each data structure an invariant (\<open>um_inv\<close>, \<open>reg_inv\<close>,
  \<open>bag_inv\<close>, \<open>cb_inv\<close>, \<open>rb_inv\<close>, \<open>session_inv\<close>, \<open>pm_inv\<close>, \<open>ts_inv\<close>, \<open>awake_inv\<close>, \<open>th_inv\<close>), that every operation keeps it, and the
  effect of every operation on every branch. For the routines with a specification, equivalence with
  it: the checksum, the digits, the writer (\<open>render\<close>), the session handler (\<open>session_spec\<close>). Round trips:
  values through text (\<open>json_text_roundtrip\<close>), documents through bags, messages through the framing. For the handlers, what their commands do to
  the sessions and what they answer.

  Assumptions on code that is not modelled. The request processor takes the JSON reader as a parameter
  \<open>parse\<close>, a function from the text to a value or an error and its position; the theorems about the
  server put \<open>ParseInsitu\<close> in its place or hold for every such function. The arithmetic of doubles is
  the parameter \<open>double_ops\<close> of the reader; their printed form is the parameter
  \<open>dtoa\<close> of \<open>render\<close>, and the program itself never prints one. What \<^verbatim>\<open>/proc\<close> holds is the field
  \<open>pm_procFs\<close> of the world (for the readers of \<^verbatim>\<open>/proc\<close> a record of what the system calls return), the pids of one enumeration being distinct; the local time is a parameter
  of the logger; the version string of the build is a parameter of the server. The state of a mutex is not
  modelled: every operation of the registry, the processor, the manager and the logger
  holds the lock of its object throughout, so that concurrent calls are sequences of calls. Running out of memory and failing allocations
  are ignored (in \<open>Kes_JsonBuffer\<close>, \<open>Kes_Pool\<close> and \<open>Kes_Document\<close>, the sizes the allocator still gives are a
  parameter). The build is the release build for Linux on x86-64: assertions are
  off, \<^verbatim>\<open>size_t\<close> has 64 bits, a value of a JSON document has 16 bytes.

  Bounds. The buffers of the server hold 65536 bytes (\<open>server_options\<close>); the theorems about sessions
  hold for every size below \<open>2 ^ 63\<close>, the limit of an object's size, which also bounds a
  received chunk. The mutual recursion of the JSON reader runs on fuel, two units for every character and
  three more; \<open>json_parse_safe\<close> says that they are enough for every text (the run on memory in \<open>Kes_Document\<close> has
  the same fuel and the same result). No other definition uses fuel:
  every loop of the modelled code runs over a list, a number that decreases, or the text that is left.
  The call stack of the C++ program has no bound in the model.

  Which asynchronous operation completes next, and how, is the input of the state machines of client
  and server; \<^verbatim>\<open>strtod\<close>, \<^verbatim>\<open>strerror\<close>, the resolver and the conversion of a textual address are parameters.

  The main program of the server names the handlers of the event loop by what they do with its parts
  (\<open>job\<close>); what they compute is modelled in the other theories. The parsed options and the results of
  \<^verbatim>\<open>fork\<close> and \<^verbatim>\<open>setsid\<close> are parameters.

  Not modelled: the parser of the command line and the text of the usage (a library), the handler that prints the
  stack when the program is terminated, the \<^verbatim>\<open>catch\<close> clause of the I/O threads, which no handler reaches;
  of rapidjson, the options, encodings and streams the program does not use.
\<close>

section \<open>The server as a whole\<close>

text \<open>
  C1. Whatever text a client sends, no exception leaves the request processor, and the sessions of the
  process manager stay consistent; \<^verbatim>\<open>std::terminate\<close> is called exactly for a request whose id is an
  array or an object, and the behaviour is undefined at most for a request whose command is
  \<^verbatim>\<open>diff_processes\<close>.
\<close>

theorem server_answers:
  assumes "pm_inv w"
  shows "case rpi_process (server_processor parse version) sid request w of
      (r, w') \<Rightarrow> pm_inv w' \<and> (\<forall>e. r \<noteq> Throw e) \<and> (r = Terminate \<longleftrightarrow> kills (parse request)) \<and>
        (r = UB \<longrightarrow> asks (\<lambda>key. key = ''diff_processes'') (parse request))"
  using server.process_correct [OF assms]
  by (auto simp: server_processor_def split: prod.split)

lemma server_answers_witness:
  "fst (rpi_process (server_processor (ParseInsitu no_doubles) ''0.1'') 7
     (render (\<lambda>_. []) (JObj [(''request.id'', JArr [])])) sample_world) = Terminate"
proof -
  let ?text = "render (\<lambda>_. []) (JObj [(''request.id'', JArr [])])"
  have "pm_inv sample_world"
    by (simp add: pm_inv_def sample_world_def new_session_def um_inv_def um_empty_def)
  moreover have "kills (ParseInsitu no_doubles ?text)"
    by (subst value_text_read) (simp_all add: kills_def structured_id_def Request_Id_def)
  ultimately show ?thesis
    using server_answers [of sample_world "ParseInsitu no_doubles" ?text "''0.1''" 7]
    by (simp split: prod.splits)
qed

text \<open>
  A session starts and ends once, although the process manager is told once for each of its
  commands: after the start the session exists, as it was if it existed before, after the end it does
  not, and no other session is touched.
\<close>

lemma session_lifecycle:
  "um_find (pm_sessions (rpi_startSession (server_processor parse version) sid w)) =
     (um_find (pm_sessions w))
       (sid \<mapsto> (case um_find (pm_sessions w) sid of Some s \<Rightarrow> s | None \<Rightarrow> new_session sid)) \<and>
   um_find (pm_sessions (rpi_endSession (server_processor parse version) sid w)) =
     (um_find (pm_sessions w))(sid := None)"
proof -
  have "pm_sessions (world_log lvl m v) = pm_sessions v" for lvl m and v :: "'a pm_world_scheme"
    by (simp add: world_log_def)
  then show ?thesis
    by (auto simp: server_processor_def server_start server_end pm_startSession_find pm_endSession_find
        fun_eq_iff split: option.split)
qed



end
